(* ===== verification/Eak_Prelude.thy ===== *)
theory Eak_Prelude
  imports Main "HOL-Library.Word" "HOL-Library.AList" "HOL-Library.Monad_Syntax"
    "HOL-Library.List_Lexorder" "HOL-Library.Char_ord"
begin

text \<open>
  What every component shares.
  \<^item> The machine integers of the source, at their width.
  \<^item> Go maps.  A Go map is an association list with distinct keys (\<open>gm_wf\<close>); reading an absent
    key is \<open>None\<close>, \<open>m[k] = v\<close> is \<open>gm_put\<close>, \<open>delete(m, k)\<close> is \<open>gm_del\<close> and \<open>range m\<close> visits the
    entries of the list.  Go leaves the order of \<open>range\<close> open; the components only use it in ways
    whose outcome does not depend on it, or sort the keys first.  A nil map is the empty list: Go
    reads, ranges over and deletes from both alike.  The contract is the locale \<open>finite_map\<close>, and
    association lists are its interpretation \<open>gm\<close>.
  \<^item> Runs of a deterministic machine that may panic: a step returns \<open>None\<close> where the Go code would
    panic, and \<open>run_steps\<close> threads the state through a list of inputs and collects the outputs.
    The locale \<open>panic_free_machine\<close> turns a step lemma into a statement about every run.
  \<^item> The functions of Go's \<open>strings\<close> and \<open>strconv\<close> packages the source calls, on ASCII strings.
\<close>

named_theorems gomap_simps "reading a Go map after an update"
named_theorems go_defs "unfolding of the small helper definitions"

section \<open>Machine integers\<close>

type_synonym u8 = "8 word"
type_synonym u16 = "16 word"
type_synonym u32 = "32 word"
type_synonym i32 = "32 word" \<comment> \<open>int32 in two's complement; the source only compares for equality\<close>
type_synonym u64 = "64 word"

section \<open>Go maps\<close>

type_synonym ('k, 'v) gomap = "('k \<times> 'v) list"

definition gm_get :: "('k, 'v) gomap \<Rightarrow> 'k \<Rightarrow> 'v option" where
  "gm_get m k = map_of m k"

definition gm_put :: "'k \<Rightarrow> 'v \<Rightarrow> ('k, 'v) gomap \<Rightarrow> ('k, 'v) gomap" where
  "gm_put k v m = AList.update k v m"

definition gm_del :: "'k \<Rightarrow> ('k, 'v) gomap \<Rightarrow> ('k, 'v) gomap" where
  "gm_del k m = AList.delete k m"

definition gm_keys :: "('k, 'v) gomap \<Rightarrow> 'k list" where
  "gm_keys m = map fst m"

definition gm_wf :: "('k, 'v) gomap \<Rightarrow> bool" where
  "gm_wf m \<longleftrightarrow> distinct (map fst m)"

text \<open>Reading a \<open>map[K]bool\<close>: an absent key reads as false.\<close>

definition gm_true :: "('k, bool) gomap \<Rightarrow> 'k \<Rightarrow> bool" where
  "gm_true m k \<longleftrightarrow> gm_get m k = Some True"

text \<open>The interface of a finite map, as the clients use it.\<close>

locale finite_map =
  fixes get :: "'m \<Rightarrow> 'k \<Rightarrow> 'v option"
    and put :: "'k \<Rightarrow> 'v \<Rightarrow> 'm \<Rightarrow> 'm"
    and del :: "'k \<Rightarrow> 'm \<Rightarrow> 'm"
    and keys :: "'m \<Rightarrow> 'k list"
    and empty :: "'m"
    and wf :: "'m \<Rightarrow> bool"
  assumes get_empty: "get empty k = None"
    and get_put: "get (put k v m) k' = (if k' = k then Some v else get m k')"
    and get_del: "get (del k m) k' = (if k' = k then None else get m k')"
    and keys_get: "k \<in> set (keys m) \<longleftrightarrow> get m k \<noteq> None"
    and wf_empty: "wf empty"
    and wf_put: "wf m \<Longrightarrow> wf (put k v m)"
    and wf_del: "wf m \<Longrightarrow> wf (del k m)"
    and wf_keys: "wf m \<Longrightarrow> distinct (keys m)"
begin

lemma get_put_same [simp]: "get (put k v m) k = Some v"
  by (simp add: get_put)

lemma get_put_other: "k' \<noteq> k \<Longrightarrow> get (put k v m) k' = get m k'"
  by (simp add: get_put)

lemma get_del_same [simp]: "get (del k m) k = None"
  by (simp add: get_del)

lemma set_keys_put: "set (keys (put k v m)) = insert k (set (keys m))"
  by (auto simp: keys_get get_put split: if_splits)

lemma set_keys_del: "set (keys (del k m)) = set (keys m) - {k}"
  by (auto simp: keys_get get_del split: if_splits)

lemma length_keys_put:
  assumes "wf m" "get m k = None"
  shows "length (keys (put k v m)) = Suc (length (keys m))"
proof -
  have "length (keys (put k v m)) = card (set (keys (put k v m)))"
    using assms(1) by (simp add: distinct_card wf_keys wf_put)
  also have "\<dots> = card (insert k (set (keys m)))" by (simp add: set_keys_put)
  also have "\<dots> = Suc (card (set (keys m)))"
    using assms(2) keys_get[of k m] by (subst card_insert_disjoint) auto
  finally show ?thesis using assms(1) by (simp add: distinct_card wf_keys)
qed

end

interpretation gm: finite_map gm_get gm_put gm_del gm_keys "[]" gm_wf
proof
  show "gm_get (gm_put k v m) k' = (if k' = k then Some v else gm_get m k')"
    for k k' :: 'a and v :: 'b and m
    by (auto simp: gm_get_def gm_put_def update_conv')
  show "gm_get (gm_del k m) k' = (if k' = k then None else gm_get m k')"
    for k k' :: 'a and m :: "('a, 'b) gomap"
    by (auto simp: gm_get_def gm_del_def delete_conv')
  show "k \<in> set (gm_keys m) \<longleftrightarrow> gm_get m k \<noteq> None" for k :: 'a and m :: "('a, 'b) gomap"
    by (auto simp: gm_get_def gm_keys_def map_of_eq_None_iff)
qed (auto simp: gm_get_def gm_wf_def gm_put_def gm_del_def gm_keys_def
      distinct_update distinct_delete)

lemmas gm_rules [simp, gomap_simps] =
  gm.get_empty gm.get_put gm.get_del

lemmas gm_wf_rules [simp, intro] = gm.wf_empty gm.wf_put gm.wf_del

lemma gm_entry_get: "gm_wf m \<Longrightarrow> (k, v) \<in> set m \<longleftrightarrow> gm_get m k = Some v"
  by (simp add: gm_wf_def gm_get_def)

lemma gm_get_entry: "gm_get m k = Some v \<Longrightarrow> (k, v) \<in> set m"
  by (simp add: gm_get_def map_of_SomeD)

lemma gm_true_put [simp, gomap_simps]:
  "gm_true (gm_put k b m) k' = (if k' = k then b else gm_true m k')"
  by (simp add: gm_true_def)

lemma gm_true_del [simp, gomap_simps]:
  "gm_true (gm_del k m) k' = (k' \<noteq> k \<and> gm_true m k')"
  by (simp add: gm_true_def)

lemma gm_true_empty [simp]: "\<not> gm_true [] k"
  by (simp add: gm_true_def)

lemma gm_empty_iff: "m = [] \<longleftrightarrow> (\<forall>k. gm_get m k = None)"
proof (cases m)
  case (Cons e m')
  then have "gm_get m (fst e) = Some (snd e)" by (cases e) (simp add: gm_get_def)
  with Cons show ?thesis by (metis list.distinct(1) option.distinct(1))
qed simp


section \<open>Results that are an error or a value\<close>

text \<open>\<open>and_then\<close> is Go's \<open>if err != nil \<open>{\<close> return err \<open>}\<close>\<close>: the first error ends the computation.\<close>

definition and_then :: "'e + 'a \<Rightarrow> ('a \<Rightarrow> 'e + 'b) \<Rightarrow> 'e + 'b" where
  "and_then m f = (case m of Inl e \<Rightarrow> Inl e | Inr x \<Rightarrow> f x)"

definition map_err :: "('e \<Rightarrow> 'f) \<Rightarrow> 'e + 'a \<Rightarrow> 'f + 'a" where
  "map_err g m = (case m of Inl e \<Rightarrow> Inl (g e) | Inr x \<Rightarrow> Inr x)"

lemma and_then_simps [simp]: "and_then (Inl e) f = Inl e" "and_then (Inr x) f = f x"
  by (simp_all add: and_then_def)

lemma and_then_Inr [simp]: "and_then m f = Inr y \<longleftrightarrow> (\<exists>x. m = Inr x \<and> f x = Inr y)"
  by (auto simp: and_then_def split: sum.splits)

lemma map_err_simps [simp]: "map_err g (Inl e) = Inl (g e)" "map_err g (Inr x) = Inr x"
  by (simp_all add: map_err_def)

lemma map_err_Inr [simp]: "map_err g m = Inr y \<longleftrightarrow> m = Inr y"
  by (auto simp: map_err_def split: sum.splits)

section \<open>Runs of a machine that may panic\<close>

fun run_steps :: "('i \<Rightarrow> 's \<Rightarrow> ('o list \<times> 's) option) \<Rightarrow> 'i list \<Rightarrow> 's \<Rightarrow> ('o list \<times> 's) option" where
  "run_steps step [] s = Some ([], s)"
| "run_steps step (i # is) s =
     do { (os, s') \<leftarrow> step i s; (os', s'') \<leftarrow> run_steps step is s'; Some (os @ os', s'') }"

lemma run_steps_append:
  "run_steps step (is @ js) s =
     do { (os, s') \<leftarrow> run_steps step is s; (os', s'') \<leftarrow> run_steps step js s'; Some (os @ os', s'') }"
  by (induction "is" arbitrary: s) (auto split: Option.bind_splits)

lemma run_steps_snoc:
  assumes "run_steps step (is @ [i]) s = Some (os, s'')"
  obtains os1 s1 os2 where "run_steps step is s = Some (os1, s1)" "step i s1 = Some (os2, s'')"
    "os = os1 @ os2"
  using assms by (auto simp: run_steps_append split: Option.bind_splits)

text \<open>A machine whose invariant excludes the panic: every run returns, in a state that keeps it.\<close>

locale panic_free_machine =
  fixes step :: "'i \<Rightarrow> 's \<Rightarrow> ('o list \<times> 's) option" and inv :: "'s \<Rightarrow> bool"
  assumes step_inv: "inv s \<Longrightarrow> \<exists>os s'. step i s = Some (os, s') \<and> inv s'"
begin

lemma run_returns: "inv s \<Longrightarrow> \<exists>os s'. run_steps step is s = Some (os, s') \<and> inv s'"
proof (induction "is" arbitrary: s)
  case (Cons i "is")
  obtain os s' where 1: "step i s = Some (os, s')" "inv s'" using step_inv[OF Cons.prems] by blast
  from Cons.IH[OF this(2)] obtain os' s'' where "run_steps step is s' = Some (os', s'')" "inv s''"
    by blast
  with 1 show ?case by simp
qed simp

lemma run_keeps: "inv s \<Longrightarrow> run_steps step is s = Some (os, s') \<Longrightarrow> inv s'"
  using run_returns[of s "is"] by auto

end

section \<open>The string functions of the standard library\<close>

definition has_prefix :: "string \<Rightarrow> string \<Rightarrow> bool" where
  "has_prefix s p \<longleftrightarrow> take (length p) s = p"

definition trim_prefix :: "string \<Rightarrow> string \<Rightarrow> string" where
  "trim_prefix s p = (if has_prefix s p then drop (length p) s else s)"

definition is_abs :: "string \<Rightarrow> bool" where
  "is_abs path = has_prefix path ''/''"

fun str_contains :: "string \<Rightarrow> string \<Rightarrow> bool" where
  "str_contains [] p = (p = [])"
| "str_contains (c # s) p = (has_prefix (c # s) p \<or> str_contains s p)"

text \<open>
  Go strings are UTF-8 bytes.  \<open>white_spaces\<close> are the encodings of the characters of \<open>unicode.IsSpace\<close>
  (tab to carriage return and space, U+0085, U+00A0, U+1680, U+2000 to U+200A, U+2028, U+2029, U+202F,
  U+205F, U+3000).  No encoding is a prefix of another, so trimming the bytes trims the characters.
\<close>

definition white_spaces :: "string list" where
  "white_spaces =
     [[CHR 0x09], [CHR 0x0A], [CHR 0x0B], [CHR 0x0C], [CHR 0x0D], [CHR 0x20],
      [CHR 0xC2, CHR 0x85], [CHR 0xC2, CHR 0xA0], [CHR 0xE1, CHR 0x9A, CHR 0x80],
      [CHR 0xE2, CHR 0x80, CHR 0x80], [CHR 0xE2, CHR 0x80, CHR 0x81], [CHR 0xE2, CHR 0x80, CHR 0x82],
      [CHR 0xE2, CHR 0x80, CHR 0x83], [CHR 0xE2, CHR 0x80, CHR 0x84], [CHR 0xE2, CHR 0x80, CHR 0x85],
      [CHR 0xE2, CHR 0x80, CHR 0x86], [CHR 0xE2, CHR 0x80, CHR 0x87], [CHR 0xE2, CHR 0x80, CHR 0x88],
      [CHR 0xE2, CHR 0x80, CHR 0x89], [CHR 0xE2, CHR 0x80, CHR 0x8A], [CHR 0xE2, CHR 0x80, CHR 0xA8],
      [CHR 0xE2, CHR 0x80, CHR 0xA9], [CHR 0xE2, CHR 0x80, CHR 0xAF], [CHR 0xE2, CHR 0x81, CHR 0x9F],
      [CHR 0xE3, CHR 0x80, CHR 0x80]]"

function trim_left :: "string list \<Rightarrow> string \<Rightarrow> string" where
  "trim_left ws s =
     (case find (\<lambda>w. w \<noteq> [] \<and> has_prefix s w) ws of
        None \<Rightarrow> s
      | Some w \<Rightarrow> trim_left ws (drop (length w) s))"
  by pat_completeness auto
termination
proof (relation "measure (\<lambda>(ws, s). length s)", simp)
  fix ws s w assume "find (\<lambda>w. w \<noteq> [] \<and> has_prefix s w) ws = Some w"
  then have "w \<noteq> []" "take (length w) s = w" by (auto simp: find_Some_iff has_prefix_def)
  then have "0 < length w" "s \<noteq> []" by auto
  then show "((ws, drop (length w) s), (ws, s)) \<in> measure (\<lambda>(ws, s). length s)" by simp
qed

declare trim_left.simps [simp del]

definition trim_space :: "string \<Rightarrow> string" where
  "trim_space s = rev (trim_left (map rev white_spaces) (rev (trim_left white_spaces s)))"

definition upper_char :: "char \<Rightarrow> char" where
  "upper_char c = (if 97 \<le> (of_char c :: nat) \<and> (of_char c :: nat) \<le> 122
     then char_of ((of_char c :: nat) - 32) else c)"

definition lower_char :: "char \<Rightarrow> char" where
  "lower_char c = (if 65 \<le> (of_char c :: nat) \<and> (of_char c :: nat) \<le> 90
     then char_of ((of_char c :: nat) + 32) else c)"

text \<open>
  \<open>strings.ToUpper\<close>, as far as ASCII letters come out of it: besides the ASCII letters only the dotless
  i (U+0131) and the long s (U+017F) have an ASCII upper case.  Every other character that is not ASCII
  has an upper case that is not ASCII either; it stays as it is here.
\<close>

fun to_upper :: "string \<Rightarrow> string" where
  "to_upper [] = []"
| "to_upper (c # s) =
     (if c = CHR 0xC4 \<and> has_prefix s [CHR 0xB1] then CHR ''I'' # to_upper (tl s)
      else if c = CHR 0xC5 \<and> has_prefix s [CHR 0xBF] then CHR ''S'' # to_upper (tl s)
      else upper_char c # to_upper s)"

definition to_lower :: "string \<Rightarrow> string" where
  "to_lower s = map lower_char s"

definition is_digit :: "char \<Rightarrow> bool" where
  "is_digit c \<longleftrightarrow> 48 \<le> (of_char c :: nat) \<and> (of_char c :: nat) \<le> 57"

definition digit_val :: "char \<Rightarrow> nat" where
  "digit_val c = (of_char c :: nat) - 48"

definition digits_val :: "string \<Rightarrow> nat" where
  "digits_val s = foldl (\<lambda>n c. 10 * n + digit_val c) 0 s"

text \<open>\<open>strconv.ParseUint(s, 10, bits)\<close>: digits only, and the value fits.\<close>

definition parse_uint :: "nat \<Rightarrow> string \<Rightarrow> nat option" where
  "parse_uint bits s = (if s \<noteq> [] \<and> list_all is_digit s \<and> digits_val s < 2 ^ bits
     then Some (digits_val s) else None)"

text \<open>\<open>strconv.Atoi\<close>: an optional sign, then digits, in the range of a 64-bit int.\<close>

definition atoi :: "string \<Rightarrow> int option" where
  "atoi s =
     (let neg = (case s of c # _ \<Rightarrow> c = CHR ''-'' | [] \<Rightarrow> False);
          signed = (case s of c # _ \<Rightarrow> c = CHR ''-'' \<or> c = CHR ''+'' | [] \<Rightarrow> False);
          ds = (if signed then tl s else s)
      in if ds \<noteq> [] \<and> list_all is_digit ds
         then (let v = (if neg then - int (digits_val ds) else int (digits_val ds))
               in if - (2 ^ 63) \<le> v \<and> v < 2 ^ 63 then Some v else None)
         else None)"

text \<open>\<open>strconv.AppendUint(b, n, 10)\<close>: the decimal digits of a number.\<close>

definition digit_char :: "nat \<Rightarrow> char" where
  "digit_char d = char_of (48 + d)"

fun dec_string :: "nat \<Rightarrow> string" where
  "dec_string n = (if n < 10 then [digit_char n] else dec_string (n div 10) @ [digit_char (n mod 10)])"

declare dec_string.simps [simp del]

lemma digit_char_val: "d < 10 \<Longrightarrow> digit_val (digit_char d) = d \<and> is_digit (digit_char d)"
  by (simp add: digit_val_def digit_char_def is_digit_def)

lemma digits_val_snoc: "digits_val (s @ [c]) = 10 * digits_val s + digit_val c"
  by (simp add: digits_val_def)

lemma dec_string_digits: "list_all is_digit (dec_string n)"
proof (induction n rule: dec_string.induct)
  case (1 n)
  then show ?case
    by (subst dec_string.simps) (simp add: digit_char_val)
qed

lemma dec_string_nonempty: "dec_string n \<noteq> []"
  by (subst dec_string.simps) simp

lemma digits_val_dec_string: "digits_val (dec_string n) = n"
proof (induction n rule: dec_string.induct)
  case (1 n)
  show ?case
  proof (cases "n < 10")
    case True
    then show ?thesis
      by (subst dec_string.simps) (simp add: digits_val_def digit_char_val)
  next
    case False
    then show ?thesis
      by (subst dec_string.simps) (simp add: digits_val_snoc 1 digit_char_val)
  qed
qed

lemma dec_string_inject: "dec_string m = dec_string n \<longleftrightarrow> m = n"
  by (metis digits_val_dec_string)

lemma comma_not_digit: "\<not> is_digit (CHR '','')"
  by (simp add: is_digit_def)

text \<open>Trimming: what is cut off is a sequence of the given strings, and nothing is left exactly of these.\<close>

lemma has_prefix_append: "has_prefix s p \<longleftrightarrow> (\<exists>t. s = p @ t)"
  by (auto simp: has_prefix_def) (metis append_take_drop_id)

lemma has_prefix_dichotomy: "has_prefix s p \<Longrightarrow> has_prefix s q \<Longrightarrow> has_prefix p q \<or> has_prefix q p"
  by (auto simp: has_prefix_append append_eq_append_conv2)

definition prefix_free :: "string list \<Rightarrow> bool" where
  "prefix_free ws \<longleftrightarrow> (\<forall>w\<in>set ws. w \<noteq> [] \<and> (\<forall>w'\<in>set ws. has_prefix w w' \<longrightarrow> w' = w))"

lemma trim_left_split: "\<exists>us. set us \<subseteq> set ws \<and> s = concat us @ trim_left ws s"
proof (induction ws s rule: trim_left.induct)
  case (1 ws s)
  show ?case
  proof (cases "find (\<lambda>w. w \<noteq> [] \<and> has_prefix s w) ws")
    case None
    then have "s = concat [] @ trim_left ws s" by (simp add: trim_left.simps)
    then show ?thesis by (intro exI[of _ "[]"]) simp
  next
    case (Some w)
    from 1[OF this] obtain us where us: "set us \<subseteq> set ws" "drop (length w) s = concat us @ trim_left ws (drop (length w) s)"
      by blast
    have w: "w \<in> set ws" "has_prefix s w" using Some by (auto simp: find_Some_iff)
    have "s = w @ drop (length w) s" using w(2) by (auto simp: has_prefix_append)
    also have "drop (length w) s = concat us @ trim_left ws s" using us(2) Some by (simp add: trim_left.simps[of ws s])
    finally have "s = concat (w # us) @ trim_left ws s" by simp
    then show ?thesis using us(1) w(1) by (intro exI[of _ "w # us"]) auto
  qed
qed

lemma trim_left_concat: "prefix_free ws \<Longrightarrow> set us \<subseteq> set ws \<Longrightarrow> trim_left ws (concat us) = []"
proof (induction us)
  case Nil
  have "find (\<lambda>w. w \<noteq> [] \<and> has_prefix [] w) ws = None" by (auto simp: find_None_iff has_prefix_def)
  then show ?case by (simp add: trim_left.simps[of ws "[]"])
next
  case (Cons u us)
  have u: "u \<in> set ws" "u \<noteq> []" "has_prefix (u @ concat us) u"
    using Cons.prems by (auto simp: prefix_free_def has_prefix_append)
  then have "find (\<lambda>w. w \<noteq> [] \<and> has_prefix (u @ concat us) w) ws \<noteq> None" unfolding find_None_iff by blast
  then obtain w where w: "find (\<lambda>w. w \<noteq> [] \<and> has_prefix (u @ concat us) w) ws = Some w" by auto
  then have "w \<in> set ws" "has_prefix (u @ concat us) w" by (auto simp: find_Some_iff)
  then have "w = u" using has_prefix_dichotomy[OF u(3)] Cons.prems(1) u(1) by (auto simp: prefix_free_def)
  then show ?case using w Cons by (simp add: trim_left.simps[of ws "u @ concat us"])
qed

lemma white_spaces_free: "prefix_free white_spaces" "prefix_free (map rev white_spaces)"
proof -
  have "list_all (\<lambda>w. w \<noteq> [] \<and> list_all (\<lambda>w'. has_prefix w w' \<longrightarrow> w' = w) white_spaces) white_spaces"
    "list_all (\<lambda>w. w \<noteq> [] \<and> list_all (\<lambda>w'. has_prefix w w' \<longrightarrow> w' = w) (map rev white_spaces)) (map rev white_spaces)"
    by code_simp+
  then show "prefix_free white_spaces" "prefix_free (map rev white_spaces)"
    unfolding prefix_free_def list_all_iff by blast+
qed

lemma trim_space_nil: "trim_space s = [] \<longleftrightarrow> (\<exists>ws. set ws \<subseteq> set white_spaces \<and> s = concat ws)"
proof
  assume "trim_space s = []"
  then have "trim_left (map rev white_spaces) (rev (trim_left white_spaces s)) = []" by (simp add: trim_space_def)
  then obtain vs where vs: "set vs \<subseteq> rev ` set white_spaces" "rev (trim_left white_spaces s) = concat vs"
    using trim_left_split[of "map rev white_spaces" "rev (trim_left white_spaces s)"] by auto
  then have "trim_left white_spaces s = concat (rev (map rev vs))" by (metis rev_concat rev_rev_ident rev_map)
  moreover have "set (rev (map rev vs)) \<subseteq> set white_spaces" using vs(1) by auto
  moreover obtain us where "set us \<subseteq> set white_spaces" "s = concat us @ trim_left white_spaces s"
    using trim_left_split by blast
  ultimately have "set (us @ rev (map rev vs)) \<subseteq> set white_spaces \<and> s = concat (us @ rev (map rev vs))" by auto
  then show "\<exists>ws. set ws \<subseteq> set white_spaces \<and> s = concat ws" by blast
next
  assume "\<exists>ws. set ws \<subseteq> set white_spaces \<and> s = concat ws"
  then have "trim_left white_spaces s = []" using trim_left_concat[OF white_spaces_free(1)] by blast
  moreover have "trim_left (map rev white_spaces) [] = []"
    using trim_left_concat[OF white_spaces_free(2), of "[]"] by simp
  ultimately show "trim_space s = []" by (simp add: trim_space_def)
qed

lemma length_trim_left: "length (trim_left ws s) \<le> length s"
  using trim_left_split[of ws s] by (metis length_append le_add2)

lemma length_trim_space: "length (trim_space s) \<le> length s"
  by (metis length_trim_left length_rev order_trans trim_space_def)

lemma length_to_upper: "length (to_upper s) \<le> length s"
  by (induction s rule: to_upper.induct) (auto simp: has_prefix_append)

end
