(* ===== verification/Go_Strings.thy ===== *)
theory Go_Strings
  imports Eak_Prelude
begin

text \<open>
  The functions of \<open>bytes\<close> and \<open>path/filepath\<close> the sources call: splitting at a separator, and the
  lexical functions on slash-separated paths (\<open>Clean\<close>, \<open>Dir\<close>, \<open>Base\<close>, \<open>Join\<close>).
\<close>

section \<open>Splitting\<close>

text \<open>\<open>bytes.Split\<close> with a separator of one byte.\<close>

fun split_on :: "'a \<Rightarrow> 'a list \<Rightarrow> 'a list list" where
  "split_on sep [] = [[]]"
| "split_on sep (c # cs) =
     (if c = sep then [] # split_on sep cs
      else (case split_on sep cs of [] \<Rightarrow> [[c]] | w # ws \<Rightarrow> (c # w) # ws))"

fun join_with :: "'a list \<Rightarrow> 'a list list \<Rightarrow> 'a list" where
  "join_with sep [] = []"
| "join_with sep [w] = w"
| "join_with sep (w # v # ws) = w @ sep @ join_with sep (v # ws)"

text \<open>\<open>bytes.Cut\<close> with a separator of one byte: what is before and after it, or \<open>None\<close>.\<close>

definition cut_at :: "'a \<Rightarrow> 'a list \<Rightarrow> ('a list \<times> 'a list) option" where
  "cut_at sep s =
     (if sep \<in> set s then Some (takeWhile (\<lambda>c. c \<noteq> sep) s, tl (dropWhile (\<lambda>c. c \<noteq> sep) s)) else None)"

lemma split_on_nonempty [simp]: "split_on sep s \<noteq> []"
  by (induction s) (auto split: list.splits)

lemma split_on_none: "sep \<notin> set w \<Longrightarrow> split_on sep w = [w]"
  by (induction w) auto

lemma split_on_append: "sep \<notin> set w \<Longrightarrow> split_on sep (w @ sep # s) = w # split_on sep s"
  by (induction w) auto

lemma split_on_parts: "w \<in> set (split_on sep s) \<Longrightarrow> sep \<notin> set w"
  by (induction s arbitrary: w) (auto split: if_splits list.splits)

lemma split_on_join:
  "ws \<noteq> [] \<Longrightarrow> \<forall>w\<in>set ws. sep \<notin> set w \<Longrightarrow> split_on sep (join_with [sep] ws) = ws"
  by (induction "[sep]" ws rule: join_with.induct) (auto simp: split_on_none split_on_append)

lemma cut_at_append: "sep \<notin> set k \<Longrightarrow> cut_at sep (k @ sep # v) = Some (k, v)"
  by (auto simp: cut_at_def takeWhile_append dropWhile_append)

section \<open>Paths\<close>

abbreviation slash :: char where "slash \<equiv> CHR ''/''"

text \<open>One element of \<open>Clean\<close>, with the elements kept so far, the last one first.\<close>

definition clean_elem :: "bool \<Rightarrow> string \<Rightarrow> string list \<Rightarrow> string list" where
  "clean_elem rooted e acc =
     (if e = [] \<or> e = ''.'' then acc
      else if e = ''..'' then
        (case acc of
           [] \<Rightarrow> if rooted then [] else [e]
         | x # xs \<Rightarrow> if x \<noteq> ''..'' then xs else if rooted then acc else e # acc)
      else e # acc)"

definition clean_path :: "string \<Rightarrow> string" where
  "clean_path s =
     (if s = [] then ''.''
      else let rooted = (hd s = slash);
               es = rev (fold (clean_elem rooted) (split_on slash s) [])
           in if rooted then slash # join_with [slash] es
              else if es = [] then ''.'' else join_with [slash] es)"

definition path_dir :: "string \<Rightarrow> string" where
  "path_dir s = clean_path (rev (dropWhile (\<lambda>c. c \<noteq> slash) (rev s)))"

definition path_base :: "string \<Rightarrow> string" where
  "path_base s =
     (if s = [] then ''.''
      else let stripped = dropWhile (\<lambda>c. c = slash) (rev s);
               base = rev (takeWhile (\<lambda>c. c \<noteq> slash) stripped)
           in if base = [] then ''/'' else base)"

definition path_join :: "string list \<Rightarrow> string" where
  "path_join es =
     (let rest = dropWhile (\<lambda>e. e = []) es in if rest = [] then [] else clean_path (join_with [slash] rest))"

text \<open>An element of a clean rooted path.\<close>

definition plain_elem :: "string \<Rightarrow> bool" where
  "plain_elem e \<longleftrightarrow> e \<noteq> [] \<and> e \<noteq> ''.'' \<and> e \<noteq> ''..'' \<and> slash \<notin> set e"

lemma clean_elems_plain:
  "\<forall>e\<in>set es. slash \<notin> set e \<Longrightarrow> \<forall>e\<in>set acc. plain_elem e \<Longrightarrow>
     \<forall>e\<in>set (fold (clean_elem True) es acc). plain_elem e"
proof (induction es arbitrary: acc)
  case (Cons e es)
  have "\<forall>x\<in>set (clean_elem True e acc). plain_elem x"
    using Cons.prems by (auto simp: clean_elem_def plain_elem_def split: list.splits)
  with Cons show ?case by simp
qed simp

lemma clean_plain: "\<forall>e\<in>set es. plain_elem e \<Longrightarrow> fold (clean_elem True) es acc = rev es @ acc"
  by (induction es arbitrary: acc) (auto simp: clean_elem_def plain_elem_def)

text \<open>A cleaned absolute path is a list of plain elements.\<close>

lemma clean_path_abs:
  assumes "is_abs s"
  obtains es where "clean_path s = slash # join_with [slash] es" "\<forall>e\<in>set es. plain_elem e"
proof
  let ?es = "rev (fold (clean_elem True) (split_on slash s) [])"
  have s: "s \<noteq> []" "hd s = slash"
    using assms by (cases s; simp add: is_abs_def has_prefix_def)+
  then show "clean_path s = slash # join_with [slash] ?es" by (simp add: clean_path_def Let_def)
  show "\<forall>e\<in>set ?es. plain_elem e"
    using clean_elems_plain[of "split_on slash s" "[]"] by (auto dest: split_on_parts)
qed

lemma join_snoc: "ws \<noteq> [] \<Longrightarrow> join_with sep (ws @ [w]) = join_with sep ws @ sep @ w"
  by (induction sep ws rule: join_with.induct) auto

lemma join_nil [simp]: "\<forall>e\<in>set es. e \<noteq> [] \<Longrightarrow> join_with sep es = [] \<longleftrightarrow> es = []"
  by (induction sep es rule: join_with.induct) auto

text \<open>The directory and the base of such a path.\<close>

lemma base_of_clean:
  assumes "plain_elem e"
  shows "path_base (p @ slash # e) = e"
proof -
  have "e \<noteq> []" "slash \<notin> set e" using assms by (simp_all add: plain_elem_def)
  then have "dropWhile (\<lambda>c. c = slash) (rev e @ slash # rev p) = rev e @ slash # rev p"
    by (cases e rule: rev_cases) auto
  moreover have "takeWhile (\<lambda>c. c \<noteq> slash) (rev e @ slash # rev p) = rev e"
    using \<open>slash \<notin> set e\<close> by (auto simp: takeWhile_append)
  ultimately show ?thesis using \<open>e \<noteq> []\<close> by (simp add: path_base_def Let_def)
qed

lemma dir_of_clean:
  assumes "\<forall>x\<in>set es. plain_elem x" "plain_elem e" "es \<noteq> []"
  shows "path_dir (slash # join_with [slash] (es @ [e])) = slash # join_with [slash] es"
proof -
  have e: "slash \<notin> set e" using assms(2) by (simp add: plain_elem_def)
  then have up: "rev (dropWhile (\<lambda>c. c \<noteq> slash) (rev (p @ slash # e))) = p @ [slash]" for p
    by (auto simp: dropWhile_append)
  have "path_dir (slash # join_with [slash] (es @ [e])) = clean_path (slash # join_with [slash] es @ [slash])"
    using up[of "slash # join_with [slash] es"] assms(3) by (simp add: path_dir_def join_snoc)
  moreover have "split_on slash (slash # join_with [slash] es @ [slash]) = [[]] @ es @ [[]]"
    using assms(1,3) split_on_join[of "es @ [[]]" slash]
    by (simp add: join_snoc plain_elem_def)
  moreover have "fold (clean_elem True) ([[]] @ es @ [[]]) [] = rev es"
    using clean_plain[OF assms(1)] by (simp add: clean_elem_def[of True "[]"])
  ultimately show ?thesis by (simp add: clean_path_def)
qed

end
