(* ===== verification/Input_Event.thy ===== *)
theory Input_Event
  imports Eak_Prelude
begin

text \<open>
  Package \<open>internal/input\<close>: the architecture-independent part of a kernel input event, frames, and
  the messages the device manager sends to the main loop.  \<open>Value\<close> is an int32: the components
  compare it with 0 (release), 1 (press) and 2 (autorepeat) only.
\<close>

abbreviation EVSyn :: u16 where "EVSyn \<equiv> 0"
abbreviation EVKey :: u16 where "EVKey \<equiv> 1"
abbreviation EVMsc :: u16 where "EVMsc \<equiv> 4"
abbreviation EVLed :: u16 where "EVLed \<equiv> 0x11"

abbreviation SynReport :: u16 where "SynReport \<equiv> 0"
abbreviation SynDropped :: u16 where "SynDropped \<equiv> 3"

abbreviation MscScan :: u16 where "MscScan \<equiv> 4"

abbreviation LEDNumLock :: u16 where "LEDNumLock \<equiv> 0"
abbreviation LEDCapsLock :: u16 where "LEDCapsLock \<equiv> 1"
abbreviation LEDScrollLock :: u16 where "LEDScrollLock \<equiv> 2"

record event =
  ev_type :: u16
  ev_code :: u16
  ev_value :: i32

abbreviation key_event :: "u16 \<Rightarrow> i32 \<Rightarrow> event" where
  "key_event c v \<equiv> \<lparr>ev_type = EVKey, ev_code = c, ev_value = v\<rparr>"

abbreviation syn_event :: event where
  "syn_event \<equiv> \<lparr>ev_type = EVSyn, ev_code = SynReport, ev_value = 0\<rparr>"

type_synonym device = string

record frame =
  fr_device :: device
  fr_events :: "event list"

text \<open>The authoritative key state of one device, after events were lost.\<close>

record resync =
  rs_device :: device
  rs_pressed :: "(u16, bool) gomap"

text \<open>A message of the manager; \<open>'e\<close> is the type of its fatal errors.\<close>

record 'e message =
  msg_frame :: "frame option"
  msg_resync :: "resync option"
  msg_removed :: device
  msg_err :: "'e option"

definition frame_message :: "frame \<Rightarrow> 'e message" where
  "frame_message f = \<lparr>msg_frame = Some f, msg_resync = None, msg_removed = [], msg_err = None\<rparr>"

definition resync_message :: "device \<Rightarrow> (u16, bool) gomap \<Rightarrow> 'e message" where
  "resync_message d m = \<lparr>msg_frame = None, msg_resync = Some \<lparr>rs_device = d, rs_pressed = m\<rparr>,
     msg_removed = [], msg_err = None\<rparr>"

definition removed_message :: "device \<Rightarrow> 'e message" where
  "removed_message d = \<lparr>msg_frame = None, msg_resync = None, msg_removed = d, msg_err = None\<rparr>"

definition err_message :: "'e \<Rightarrow> 'e message" where
  "err_message e = \<lparr>msg_frame = None, msg_resync = None, msg_removed = [], msg_err = Some e\<rparr>"

end
