(* ===== verification/Keycodes.thy ===== *)
theory Keycodes
  imports Eak_Prelude
begin

text \<open>
  Package \<open>internal/keycode\<close>: Linux key codes, the logical keys the matcher works with (a logical
  modifier stands for its left and right physical key), and \<open>Parse\<close>, which turns a configuration
  name into a logical key.  Names are UTF-8; \<open>trim_space\<close> and \<open>to_upper\<close> of the prelude treat the
  characters outside ASCII as \<open>strings.TrimSpace\<close> and \<open>ToUpper\<close> do, as far as a key name can tell.
\<close>

section \<open>Key codes\<close>

abbreviation KeyEsc :: u16 where "KeyEsc \<equiv> 1"
abbreviation Key1 :: u16 where "Key1 \<equiv> 2"
abbreviation Key0 :: u16 where "Key0 \<equiv> 11"
abbreviation KeyA :: u16 where "KeyA \<equiv> 30"
abbreviation KeyT :: u16 where "KeyT \<equiv> 20"
abbreviation KeyL :: u16 where "KeyL \<equiv> 38"
abbreviation KeyP :: u16 where "KeyP \<equiv> 25"
abbreviation KeyZ :: u16 where "KeyZ \<equiv> 44"
abbreviation KeyEnter :: u16 where "KeyEnter \<equiv> 28"
abbreviation KeyLeftCtrl :: u16 where "KeyLeftCtrl \<equiv> 29"
abbreviation KeyLeftShift :: u16 where "KeyLeftShift \<equiv> 42"
abbreviation KeyRightShift :: u16 where "KeyRightShift \<equiv> 54"
abbreviation KeyLeftAlt :: u16 where "KeyLeftAlt \<equiv> 56"
abbreviation KeySpace :: u16 where "KeySpace \<equiv> 57"
abbreviation KeyF1 :: u16 where "KeyF1 \<equiv> 59"
abbreviation KeyF11 :: u16 where "KeyF11 \<equiv> 87"
abbreviation KeyRightCtrl :: u16 where "KeyRightCtrl \<equiv> 97"
abbreviation KeyRightAlt :: u16 where "KeyRightAlt \<equiv> 100"
abbreviation KeyHome :: u16 where "KeyHome \<equiv> 102"
abbreviation KeyInsert :: u16 where "KeyInsert \<equiv> 110"
abbreviation KeyLeftMeta :: u16 where "KeyLeftMeta \<equiv> 125"
abbreviation KeyRightMeta :: u16 where "KeyRightMeta \<equiv> 126"
abbreviation KeyMax :: nat where "KeyMax \<equiv> 0x2ff"

section \<open>Logical keys\<close>

type_synonym logical = u32

abbreviation LogicalCtrl :: logical where "LogicalCtrl \<equiv> 0x10000"
abbreviation LogicalShift :: logical where "LogicalShift \<equiv> 0x10001"
abbreviation LogicalAlt :: logical where "LogicalAlt \<equiv> 0x10002"
abbreviation LogicalLogo :: logical where "LogicalLogo \<equiv> 0x10003"

definition canonical :: "u16 \<Rightarrow> logical" where
  "canonical code =
     (if code = KeyLeftCtrl \<or> code = KeyRightCtrl then LogicalCtrl
      else if code = KeyLeftShift \<or> code = KeyRightShift then LogicalShift
      else if code = KeyLeftAlt \<or> code = KeyRightAlt then LogicalAlt
      else if code = KeyLeftMeta \<or> code = KeyRightMeta then LogicalLogo
      else ucast code)"

definition is_logical_modifier :: "logical \<Rightarrow> bool" where
  "is_logical_modifier key \<longleftrightarrow> LogicalCtrl \<le> key \<and> key \<le> LogicalLogo"

definition is_physical_modifier :: "u16 \<Rightarrow> bool" where
  "is_physical_modifier code \<longleftrightarrow>
     code = KeyLeftCtrl \<or> code = KeyRightCtrl \<or> code = KeyLeftShift \<or> code = KeyRightShift \<or>
     code = KeyLeftAlt \<or> code = KeyRightAlt \<or> code = KeyLeftMeta \<or> code = KeyRightMeta"

lemma ucast_not_modifier: "\<not> is_logical_modifier (ucast (c :: u16))"
proof -
  have "unat c < 2 ^ 16" using unsigned_less[of c] by simp
  then have "unat (ucast c :: logical) < 0x10000"
    by (simp add: unsigned_ucast_eq take_bit_nat_eq_self)
  then show ?thesis
    by (simp add: is_logical_modifier_def word_le_nat_alt)
qed

lemma logical_modifier_canonical: "is_logical_modifier (canonical c) \<longleftrightarrow> is_physical_modifier c"
  using ucast_not_modifier[of c]
  by (auto simp: canonical_def is_physical_modifier_def is_logical_modifier_def)

lemma is_logical_modifier_cases:
  "is_logical_modifier k \<longleftrightarrow> k \<in> {LogicalCtrl, LogicalShift, LogicalAlt, LogicalLogo}"
proof
  assume "is_logical_modifier k"
  then have "0x10000 \<le> unat k" "unat k \<le> 0x10003"
    by (auto simp: is_logical_modifier_def word_le_nat_alt)
  then have "unat k = 0x10000 \<or> unat k = 0x10001 \<or> unat k = 0x10002 \<or> unat k = 0x10003"
    by linarith
  then show "k \<in> {LogicalCtrl, LogicalShift, LogicalAlt, LogicalLogo}"
    by (auto simp: word_unat_eq_iff)
qed (auto simp: is_logical_modifier_def)

section \<open>Names\<close>

definition fixed_names :: "(string, u16) gomap" where
  "fixed_names = [
    (''KEY_ESC'', 1), (''KEY_ENTER'', 28), (''KEY_SPACE'', 57), (''KEY_TAB'', 15),
    (''KEY_BACKSPACE'', 14), (''KEY_MINUS'', 12), (''KEY_EQUAL'', 13), (''KEY_LEFTBRACE'', 26),
    (''KEY_RIGHTBRACE'', 27), (''KEY_SEMICOLON'', 39), (''KEY_APOSTROPHE'', 40),
    (''KEY_GRAVE'', 41), (''KEY_BACKSLASH'', 43), (''KEY_COMMA'', 51), (''KEY_DOT'', 52),
    (''KEY_SLASH'', 53), (''KEY_CAPSLOCK'', 58), (''KEY_NUMLOCK'', 69),
    (''KEY_SCROLLLOCK'', 70), (''KEY_SYSRQ'', 99), (''KEY_HOME'', 102), (''KEY_UP'', 103),
    (''KEY_PAGEUP'', 104), (''KEY_LEFT'', 105), (''KEY_RIGHT'', 106), (''KEY_END'', 107),
    (''KEY_DOWN'', 108), (''KEY_PAGEDOWN'', 109), (''KEY_INSERT'', 110), (''KEY_DELETE'', 111),
    (''KEY_MUTE'', 113), (''KEY_VOLUMEDOWN'', 114), (''KEY_VOLUMEUP'', 115),
    (''KEY_PAUSE'', 119), (''KEY_LEFTCTRL'', 29), (''KEY_RIGHTCTRL'', 97),
    (''KEY_LEFTSHIFT'', 42), (''KEY_RIGHTSHIFT'', 54), (''KEY_LEFTALT'', 56),
    (''KEY_RIGHTALT'', 100), (''KEY_LEFTMETA'', 125), (''KEY_RIGHTMETA'', 126),
    (''KEY_COMPOSE'', 127),
    (''KEY_KPASTERISK'', 55), (''KEY_KP0'', 82), (''KEY_KP1'', 79), (''KEY_KP2'', 80),
    (''KEY_KP3'', 81), (''KEY_KP4'', 75), (''KEY_KP5'', 76), (''KEY_KP6'', 77),
    (''KEY_KP7'', 71), (''KEY_KP8'', 72), (''KEY_KP9'', 73), (''KEY_KPMINUS'', 74),
    (''KEY_KPPLUS'', 78), (''KEY_KPDOT'', 83), (''KEY_KPJPCOMMA'', 95), (''KEY_KPENTER'', 96),
    (''KEY_KPSLASH'', 98), (''KEY_KPEQUAL'', 117), (''KEY_KPPLUSMINUS'', 118),
    (''KEY_KPCOMMA'', 121), (''KEY_KPLEFTPAREN'', 179), (''KEY_KPRIGHTPAREN'', 180)]"

definition letter_codes :: "u16 list" where
  "letter_codes = [30, 48, 46, 32, 18, 33, 34, 35, 23, 36, 37, 38, 50,
                   49, 24, 25, 16, 19, 31, 20, 22, 47, 17, 45, 21, 44]"

datatype key_error = UnknownKey string

text \<open>
  \<open>Parse\<close> block by block, in the order of the source: the switch over the modifier names, a single
  letter or digit, \<open>KEY_\<close> before a single character (its one recursive call), \<open>F1\<close> to \<open>F12\<close>, the
  name table, \<open>CODE_\<close>.  A block that does not apply is \<open>None\<close> and falls through to the next.
\<close>

definition modifier_name :: "string \<Rightarrow> logical option" where
  "modifier_name n =
     (if n = ''CTRL'' \<or> n = ''CONTROL'' then Some LogicalCtrl
      else if n = ''SHIFT'' then Some LogicalShift
      else if n = ''ALT'' then Some LogicalAlt
      else if n = ''LOGO'' \<or> n = ''META'' \<or> n = ''SUPER'' then Some LogicalLogo
      else None)"

definition single_char_key :: "string \<Rightarrow> logical option" where
  "single_char_key n =
     (if length n = 1 \<and> 65 \<le> (of_char (n ! 0) :: nat) \<and> (of_char (n ! 0) :: nat) \<le> 90
        then Some (ucast (letter_codes ! ((of_char (n ! 0) :: nat) - 65)))
      else if length n = 1 \<and> is_digit (n ! 0)
        then (if n = ''0'' then Some (ucast Key0)
              else Some (ucast (Key1 + of_nat ((of_char (n ! 0) :: nat) - 49))))
      else None)"

definition function_key :: "string \<Rightarrow> logical option" where
  "function_key n =
     (if has_prefix n ''F'' then
        (case atoi (trim_prefix n ''F'') of
           Some v \<Rightarrow>
             if 1 \<le> v \<and> v \<le> 12 then
               (if v \<le> 10 then Some (ucast (KeyF1 + of_int (v - 1)))
                else Some (ucast (KeyF11 + of_int (v - 11))))
             else None
         | None \<Rightarrow> None)
      else None)"

definition named_key :: "string \<Rightarrow> logical option" where
  "named_key n = map_option canonical
     (gm_get fixed_names (if has_prefix n ''KEY_'' then n else ''KEY_'' @ n))"

definition code_key :: "string \<Rightarrow> logical option" where
  "code_key n =
     (if has_prefix n ''CODE_'' then
        (case parse_uint 16 (trim_prefix n ''CODE_'') of
           Some v \<Rightarrow> if v \<le> KeyMax then Some (canonical (of_nat v)) else None
         | None \<Rightarrow> None)
      else None)"

definition or_else :: "'a option \<Rightarrow> 'a option \<Rightarrow> 'a option" where
  [go_defs]: "or_else a b = (case a of Some x \<Rightarrow> Some x | None \<Rightarrow> b)"

function parse_key :: "string \<Rightarrow> key_error + logical" where
  "parse_key name =
     (let n = to_upper (trim_space name) in
      case or_else (modifier_name n) (single_char_key n) of
        Some k \<Rightarrow> Inr k
      | None \<Rightarrow>
          if has_prefix n ''KEY_'' \<and> length n = 5 then parse_key (trim_prefix n ''KEY_'')
          else (case or_else (function_key n) (or_else (named_key n) (code_key n)) of
                  Some k \<Rightarrow> Inr k
                | None \<Rightarrow> Inl (UnknownKey name)))"
  by pat_completeness auto
termination
proof (relation "measure length", simp)
  fix name n :: string
  assume n: "n = to_upper (trim_space name)" and "has_prefix n ''KEY_'' \<and> length n = 5"
  then have "length (trim_prefix n ''KEY_'') = 1" by (simp add: trim_prefix_def)
  moreover have "5 \<le> length name"
    using n \<open>has_prefix n ''KEY_'' \<and> length n = 5\<close> length_trim_space[of name] length_to_upper[of "trim_space name"]
    by (elim conjE) simp
  ultimately show "(trim_prefix n ''KEY_'', name) \<in> measure length" by simp
qed

declare parse_key.simps [simp del]

section \<open>Every accepted name is a key that can be pressed\<close>

text \<open>
  A logical key is pressable when some key code up to \<open>KEY_MAX\<close> is canonicalised to it: the engine
  compares canonical codes with configured keys, so a key that is not pressable could never match.
\<close>

definition pressable :: "logical \<Rightarrow> bool" where
  "pressable k \<longleftrightarrow> (\<exists>code. unat code \<le> KeyMax \<and> canonical code = k)"

lemma pressable_canonical: "unat code \<le> KeyMax \<Longrightarrow> pressable (canonical code)"
  by (auto simp: pressable_def)

lemma pressable_plain:
  "unat code \<le> KeyMax \<Longrightarrow> \<not> is_physical_modifier code \<Longrightarrow> pressable (ucast code)"
  by (auto simp: pressable_def canonical_def is_physical_modifier_def)

lemma pressable_modifier: "is_logical_modifier k \<Longrightarrow> pressable k"
  using pressable_canonical[of KeyLeftCtrl] pressable_canonical[of KeyLeftShift]
    pressable_canonical[of KeyLeftAlt] pressable_canonical[of KeyLeftMeta]
  by (auto simp: is_logical_modifier_cases canonical_def)

lemma small_code: "n \<le> KeyMax \<Longrightarrow> unat (of_nat n :: u16) = n"
  by (simp add: unat_of_nat take_bit_nat_eq_self)

lemma pressable_letter: "i < 26 \<Longrightarrow> pressable (ucast (letter_codes ! i))"
proof -
  have "list_all (\<lambda>c. unat c \<le> KeyMax \<and> \<not> is_physical_modifier c) letter_codes"
    by (simp add: letter_codes_def is_physical_modifier_def)
  moreover assume "i < 26"
  then have "letter_codes ! i \<in> set letter_codes"
    by (intro nth_mem) (simp add: letter_codes_def)
  ultimately show ?thesis by (auto simp: list_all_iff intro: pressable_plain)
qed

lemma pressable_range:
  assumes "list_all (\<lambda>i. unat (b + of_nat i :: u16) \<le> KeyMax \<and> \<not> is_physical_modifier (b + of_nat i)) [0..<m]"
    and "i < m"
  shows "pressable (ucast (b + of_nat i :: u16))"
  using assms by (intro pressable_plain) (auto simp: list_all_iff)

lemma pressable_digit: "i < 9 \<Longrightarrow> pressable (ucast (Key1 + of_nat i))"
  by (rule pressable_range[where m = 9]) (code_simp, assumption)

lemma pressable_f_key: "i < 10 \<Longrightarrow> pressable (ucast (KeyF1 + of_nat i))"
  by (rule pressable_range[where m = 10]) (code_simp, assumption)

lemma pressable_f11_key: "i < 2 \<Longrightarrow> pressable (ucast (KeyF11 + of_nat i))"
  by (rule pressable_range[where m = 2]) (code_simp, assumption)
lemma fixed_names_codes: "gm_get fixed_names n = Some code \<Longrightarrow> unat code \<le> KeyMax"
proof -
  have "list_all (\<lambda>e. unat (snd e) \<le> KeyMax) fixed_names" by (simp add: fixed_names_def)
  moreover assume "gm_get fixed_names n = Some code"
  ultimately show ?thesis by (auto dest!: gm_get_entry simp: list_all_iff)
qed

lemma modifier_name_pressable: "modifier_name n = Some k \<Longrightarrow> pressable k"
  by (rule pressable_modifier)
    (auto simp: modifier_name_def is_logical_modifier_cases split: if_splits)

lemma single_char_pressable: "single_char_key n = Some k \<Longrightarrow> pressable k"
  using pressable_plain[of Key0] pressable_letter[of "of_char (n ! 0) - 65"]
    pressable_digit[of "of_char (n ! 0) - 49"]
  by (auto simp: single_char_key_def is_digit_def is_physical_modifier_def split: if_splits)

lemma function_key_pressable: "function_key n = Some k \<Longrightarrow> pressable k"
proof -
  have low: "pressable (ucast (KeyF1 + of_int (v - 1)))" if "1 \<le> v" "v \<le> 10" for v
    using pressable_f_key[of "nat (v - 1)"] that by simp
  have high: "pressable (ucast (KeyF11 + of_int (v - 11)))" if "10 < v" "v \<le> 12" for v
    using pressable_f11_key[of "nat (v - 11)"] that by simp
  assume "function_key n = Some k"
  with low high show ?thesis
    by (auto simp: function_key_def simp del: of_int_diff split: if_splits option.splits)
qed

lemma named_key_pressable: "named_key n = Some k \<Longrightarrow> pressable k"
  by (auto simp: named_key_def intro!: pressable_canonical fixed_names_codes)

lemma code_key_pressable: "code_key n = Some k \<Longrightarrow> pressable k"
  by (auto simp: code_key_def small_code intro!: pressable_canonical split: if_splits option.splits)

lemmas name_block_pressable =
  modifier_name_pressable single_char_pressable function_key_pressable named_key_pressable
  code_key_pressable

lemma name_pressable: "parse_key name = Inr k \<Longrightarrow> pressable k"
proof (induction name rule: parse_key.induct)
  case (1 name)
  then show ?case
    by (subst (asm) (2) parse_key.simps)
      (auto simp: Let_def or_else_def intro: name_block_pressable split: if_splits option.splits)
qed

text \<open>C32. \<open>keycode.Parse\<close> accepts only names of keys that exist: the logical key it returns is the
  canonical form of some Linux key code up to \<open>KEY_MAX\<close>, so every configured chord can be typed.\<close>

theorem parse_key_pressable: "parse_key name = Inr k \<Longrightarrow> pressable k"
  by (rule name_pressable)

theorem parse_key_pressable_witness:
  "pressable LogicalLogo \<and> pressable 87"
proof -
  have "parse_key '' logo'' = Inr LogicalLogo" by code_simp
  moreover have "parse_key ''F11'' = Inr 87" by code_simp
  ultimately show ?thesis using parse_key_pressable by blast
qed

end
