(* ===== verification/Kernel_IO.thy ===== *)
theory Kernel_IO
  imports Input_Event Keycodes
begin

text \<open>
  \<open>internal/linuxinput/sys_linux.go\<close>: the layout of the kernel's input events, capability bitmaps and
  ioctl numbers, and the loop that writes one event to a file descriptor.

  The two architectures the daemon accepts (amd64 and arm64) are little endian and have a 16 byte
  \<open>syscall.Timeval\<close>, so an event record has 24 bytes and \<open>uintptr\<close> has 64 bits.  System calls are not
  code of the repository: the results of the \<open>write\<close> calls on a descriptor are a list, its script, and
  a function of the model consumes the results of the calls it makes.
\<close>

unbundle bit_operations_syntax

section \<open>Event records\<close>

definition kernel_event_size :: nat where
  "kernel_event_size = 24"

definition bytes_of_u16 :: "u16 \<Rightarrow> u8 list" where
  "bytes_of_u16 x = [ucast x, ucast (drop_bit 8 x)]"

definition bytes_of_i32 :: "i32 \<Rightarrow> u8 list" where
  "bytes_of_i32 x = [ucast x, ucast (drop_bit 8 x), ucast (drop_bit 16 x), ucast (drop_bit 24 x)]"

definition u16_of_bytes :: "u8 list \<Rightarrow> u16" where
  "u16_of_bytes bs = ucast (bs ! 0) OR push_bit 8 (ucast (bs ! 1))"

definition i32_of_bytes :: "u8 list \<Rightarrow> i32" where
  "i32_of_bytes bs = ucast (bs ! 0) OR push_bit 8 (ucast (bs ! 1)) OR push_bit 16 (ucast (bs ! 2)) OR
     push_bit 24 (ucast (bs ! 3))"

text \<open>The timestamp of an encoded event is zero.\<close>

definition encode_event :: "event \<Rightarrow> u8 list" where
  "encode_event ev =
     replicate 16 0 @ bytes_of_u16 (ev_type ev) @ bytes_of_u16 (ev_code ev) @ bytes_of_i32 (ev_value ev)"

definition decode_event :: "u8 list \<Rightarrow> event" where
  "decode_event bs = \<lparr>ev_type = u16_of_bytes (drop 16 bs), ev_code = u16_of_bytes (drop 18 bs),
     ev_value = i32_of_bytes (drop 20 bs)\<rparr>"

datatype decode_error = ShortRecord nat

function decode_records :: "u8 list \<Rightarrow> event list" where
  "decode_records bs =
     (if bs = [] then []
      else decode_event (take kernel_event_size bs) # decode_records (drop kernel_event_size bs))"
  by auto
termination
  by (relation "measure length") (auto simp: kernel_event_size_def)

declare decode_records.simps [simp del]

definition decode_events :: "u8 list \<Rightarrow> decode_error + event list" where
  "decode_events bs =
     (if length bs mod kernel_event_size \<noteq> 0 then Inl (ShortRecord (length bs))
      else Inr (decode_records bs))"

section \<open>Bitmaps\<close>

definition bit_is_set :: "u8 list \<Rightarrow> u16 \<Rightarrow> bool" where
  "bit_is_set bits b =
     (let index = unat (b div 8) in index < length bits \<and> bit (bits ! index) (unat (b mod 8)))"

definition key_bitmap_bytes :: nat where
  "key_bitmap_bytes = (KeyMax + 8) div 8"

text \<open>\<open>currentKeys\<close>, from the bitmap \<open>EVIOCGKEY\<close> filled in.\<close>

definition current_keys :: "u8 list \<Rightarrow> (u16, bool) gomap" where
  "current_keys bits =
     fold (\<lambda>c m. if bit_is_set bits c then gm_put c True m else m) (map of_nat [0..<Suc KeyMax]) []"

abbreviation KeyKPEnter :: u16 where "KeyKPEnter \<equiv> 96"

definition looks_like_keyboard :: "u8 list \<Rightarrow> bool" where
  "looks_like_keyboard caps =
     (let left = bit_is_set caps KeyA \<and> bit_is_set caps KeyZ;
          right = bit_is_set caps KeyP \<and> bit_is_set caps KeyL;
          space_or_enter = bit_is_set caps KeySpace \<or> bit_is_set caps KeyEnter
      in (left \<or> right) \<and> space_or_enter)"

definition numeric_keys :: "u16 list" where
  "numeric_keys = [82, 79, 80, 81, 75, 76, 77, 71, 72, 73]"

definition looks_like_numpad :: "u8 list \<Rightarrow> bool" where
  "looks_like_numpad caps \<longleftrightarrow> list_all (bit_is_set caps) numeric_keys \<and> bit_is_set caps KeyKPEnter"

section \<open>Request numbers\<close>

definition ioc :: "u64 \<Rightarrow> u64 \<Rightarrow> u64 \<Rightarrow> u64 \<Rightarrow> u64" where
  "ioc direction kind number sz =
     push_bit 30 direction OR push_bit 8 kind OR push_bit 0 number OR push_bit 16 sz"

definition io_req :: "u64 \<Rightarrow> u64 \<Rightarrow> u64" where
  "io_req kind number = ioc 0 kind number 0"

definition iow :: "u64 \<Rightarrow> u64 \<Rightarrow> u64 \<Rightarrow> u64" where
  "iow kind number sz = ioc 1 kind number sz"

definition ior :: "u64 \<Rightarrow> u64 \<Rightarrow> u64 \<Rightarrow> u64" where
  "ior kind number sz = ioc 2 kind number sz"

definition evdev_base :: u64 where "evdev_base = 0x45"
definition uinput_base :: u64 where "uinput_base = 0x55"

definition eviocgbit :: "u64 \<Rightarrow> u64 \<Rightarrow> u64" where
  "eviocgbit event_type sz = ior evdev_base (0x20 + event_type) sz"

definition eviocgkey :: "u64 \<Rightarrow> u64" where
  "eviocgkey sz = ior evdev_base 0x18 sz"

definition eviocgname :: "u64 \<Rightarrow> u64" where
  "eviocgname sz = ior evdev_base 0x06 sz"

section \<open>Writing an event\<close>

text \<open>What one \<open>write\<close> call returns: a number of bytes, or an error.\<close>

datatype write_result = Wrote nat | Interrupted | Again | WriteErrno nat

datatype write_error = Unavailable | ErrnoError nat | ZeroWrite

text \<open>
  \<open>writeEventFD\<close>: the data still to write, the retries so far, the bytes the descriptor has taken and
  its script.  The result is \<open>None\<close> while the script has no result for the next call.
\<close>

fun write_loop :: "u8 list \<Rightarrow> nat \<Rightarrow> u8 list \<Rightarrow> write_result list \<Rightarrow>
    ((write_error + unit) \<times> u8 list \<times> write_result list) option" where
  "write_loop [] retries taken script = Some (Inr (), taken, script)"
| "write_loop (b # bs) retries taken [] = None"
| "write_loop (b # bs) retries taken (r # script) =
     (case r of
        Interrupted \<Rightarrow> write_loop (b # bs) retries taken script
      | Again \<Rightarrow>
          (if retries + 1 \<ge> 100 then Some (Inl Unavailable, taken, script)
           else write_loop (b # bs) (retries + 1) taken script)
      | WriteErrno e \<Rightarrow> Some (Inl (ErrnoError e), taken, script)
      | Wrote n \<Rightarrow>
          (if n = 0 then Some (Inl ZeroWrite, taken, script)
           else write_loop (drop n (b # bs)) retries (taken @ take n (b # bs)) script))"

definition write_event_fd :: "event \<Rightarrow> u8 list \<Rightarrow> write_result list \<Rightarrow>
    ((write_error + unit) \<times> u8 list \<times> write_result list) option" where
  "write_event_fd ev taken script = write_loop (encode_event ev) 0 taken script"

text \<open>The argument of \<open>EVIOCGRAB\<close>: \<open>grab\<close> passes the flag as a number.\<close>

definition grab_request :: "bool \<Rightarrow> u64 \<times> i32" where
  "grab_request enabled = (iow evdev_base 0x90 4, if enabled then 1 else 0)"

text \<open>\<open>deviceName\<close>: the bytes before the first NUL of the buffer, or the whole buffer.\<close>

definition device_name_of :: "u8 list \<Rightarrow> u8 list" where
  "device_name_of buffer = takeWhile (\<lambda>b. b \<noteq> 0) buffer"

section \<open>Discarding queued events\<close>

datatype read_result = ReadBytes nat | ReadInterrupted | ReadAgain | ReadErrno nat
datatype drain_error = NoDevice | DrainErrno nat

text \<open>\<open>discardQueuedEvents\<close>: the result and the answers it did not use; \<open>None\<close> while it waits for one.\<close>

fun discard_queued :: "read_result list \<Rightarrow> ((drain_error + unit) \<times> read_result list) option" where
  "discard_queued [] = None"
| "discard_queued (r # script) =
     (case r of
        ReadInterrupted \<Rightarrow> discard_queued script
      | ReadAgain \<Rightarrow> Some (Inr (), script)
      | ReadErrno e \<Rightarrow> Some (Inl (DrainErrno e), script)
      | ReadBytes n \<Rightarrow> if n = 0 then Some (Inl NoDevice, script) else discard_queued script)"

section \<open>Round trips\<close>

lemma length_encode [simp]: "length (encode_event ev) = kernel_event_size"
  by (simp add: encode_event_def bytes_of_u16_def bytes_of_i32_def kernel_event_size_def)

lemma u16_bytes: "u16_of_bytes (bytes_of_u16 x @ rest) = x"
  by (rule bit_word_eqI) (auto simp: u16_of_bytes_def bytes_of_u16_def bit_simps)

lemma i32_bytes: "i32_of_bytes (bytes_of_i32 x @ rest) = x"
proof (rule bit_word_eqI)
  fix n assume "n < LENGTH(32)"
  then show "bit (i32_of_bytes (bytes_of_i32 x @ rest)) n \<longleftrightarrow> bit x n"
    by (cases "24 \<le> n"; cases "16 \<le> n") (auto simp: i32_of_bytes_def bytes_of_i32_def bit_simps)
qed

lemma decode_encode: "decode_event (encode_event ev @ rest) = ev"
proof -
  have len: "length (bytes_of_u16 x) = 2" for x by (simp add: bytes_of_u16_def)
  have "drop 16 (encode_event ev @ rest) =
      bytes_of_u16 (ev_type ev) @ bytes_of_u16 (ev_code ev) @ bytes_of_i32 (ev_value ev) @ rest"
    by (simp add: encode_event_def)
  moreover have "drop 18 (encode_event ev @ rest) = bytes_of_u16 (ev_code ev) @ bytes_of_i32 (ev_value ev) @ rest"
    by (simp add: encode_event_def len)
  moreover have "drop 20 (encode_event ev @ rest) = bytes_of_i32 (ev_value ev) @ rest"
    by (simp add: encode_event_def len)
  ultimately show ?thesis by (simp add: decode_event_def u16_bytes i32_bytes)
qed

lemma decode_records_encode:
  "decode_records (encode_event ev @ bs) = ev # decode_records bs"
proof -
  have "encode_event ev @ bs \<noteq> []"
    using length_encode[of ev] by (auto simp: kernel_event_size_def simp del: length_encode)
  moreover have "take kernel_event_size (encode_event ev @ bs) = encode_event ev @ []"
    "drop kernel_event_size (encode_event ev @ bs) = bs" by simp_all
  ultimately show ?thesis
    by (subst decode_records.simps) (simp only: decode_encode if_False)
qed

lemma decode_records_append:
  "length bs mod kernel_event_size = 0 \<Longrightarrow> decode_records (bs @ cs) = decode_records bs @ decode_records cs"
proof (induction bs rule: decode_records.induct)
  case (1 bs)
  show ?case
  proof (cases "bs = []")
    case True
    then show ?thesis by (simp add: decode_records.simps)
  next
    case False
    have "kernel_event_size \<le> length bs"
      using 1(2) False by (metis dvd_imp_le length_greater_0_conv mod_0_imp_dvd)
    then have "length (drop kernel_event_size bs) mod kernel_event_size = 0"
      using 1(2) by (simp add: le_mod_geq)
    with 1(1)[OF False] False \<open>kernel_event_size \<le> length bs\<close> show ?thesis
      by (subst (1 2) decode_records.simps) simp
  qed
qed

section \<open>The write loop\<close>

text \<open>Whatever the script, the bytes the descriptor takes are a prefix of the data, and all of it on success.\<close>

lemma write_loop_prefix:
  "write_loop bs retries taken script = Some (res, taken', script') \<Longrightarrow>
     \<exists>n \<le> length bs. taken' = taken @ take n bs \<and> (res = Inr () \<longleftrightarrow> n = length bs)"
proof (induction bs retries taken script rule: write_loop.induct)
  case (3 b bs retries taken r script)
  show ?case
  proof (cases r)
    case (Wrote n)
    show ?thesis
    proof (cases "n = 0")
      case False
      with Wrote "3.prems" "3.IH" obtain m where
        m: "m \<le> length (drop n (b # bs))" "taken' = (taken @ take n (b # bs)) @ take m (drop n (b # bs))"
          "res = Inr () \<longleftrightarrow> m = length (drop n (b # bs))" by auto
      let ?k = "min n (length (b # bs)) + m"
      have "taken' = taken @ take ?k (b # bs)"
        unfolding m(2) by (cases "n \<le> length (b # bs)") (simp_all add: take_add min_def)
      moreover have "?k \<le> length (b # bs)" "res = Inr () \<longleftrightarrow> ?k = length (b # bs)"
        using m(1,3) by auto
      ultimately show ?thesis by blast
    qed (use Wrote "3.prems" in auto)
  qed (use 3 in \<open>auto split: if_splits\<close>)
qed auto

text \<open>Results that are not interruptions make progress: at most 24 bytes and 100 retries.\<close>

lemma write_loop_returns:
  "length bs + (100 - retries) \<le> length (filter (\<lambda>r. r \<noteq> Interrupted) script) \<Longrightarrow>
     write_loop bs retries taken script \<noteq> None"
proof (induction bs retries taken script rule: write_loop.induct)
  case (3 b bs retries taken r script)
  show ?case
  proof (cases r)
    case (Wrote n)
    then show ?thesis using "3.prems" "3.IH" by (cases "n = 0") auto
  next
    case Interrupted
    then show ?thesis using "3.prems" "3.IH" by simp
  next
    case Again
    then show ?thesis using "3.prems" "3.IH" by auto
  qed simp
qed simp_all

lemma write_event_taken:
  assumes "write_event_fd ev taken script = Some (Inr (), taken', script')"
  shows "taken' = taken @ encode_event ev"
  using write_loop_prefix[OF assms[unfolded write_event_fd_def]] by auto

section \<open>Properties\<close>

lemma decode_encoded: "decode_events (concat (map encode_event evs)) = Inr evs"
proof -
  have "length (concat (map encode_event evs)) mod kernel_event_size = 0"
    by (induction evs) simp_all
  moreover have "decode_records (concat (map encode_event evs)) = evs"
    by (induction evs) (simp_all add: decode_records_encode, simp add: decode_records.simps)
  ultimately show ?thesis by (simp add: decode_events_def)
qed

text \<open>
  C33. Encoded events decode to themselves: whatever number of records \<open>encodeEvent\<close> wrote one after
  the other, \<open>decodeEvents\<close> returns exactly their events in order.
\<close>

theorem decode_encode_events: "decode_events (concat (map encode_event evs)) = Inr evs"
  by (rule decode_encoded)

text \<open>
  C34. \<open>writeEventFD\<close> neither loses, repeats nor reorders a byte: for every sequence of partial writes,
  interruptions and errors the descriptor takes a prefix of the event's record, and the function
  reports success exactly when it took the whole record.
\<close>

theorem write_event_exact:
  assumes "write_event_fd ev taken script = Some (res, taken', script')"
  shows "\<exists>n \<le> kernel_event_size. taken' = taken @ take n (encode_event ev) \<and>
    (res = Inr () \<longleftrightarrow> n = kernel_event_size)"
  using write_loop_prefix[OF assms[unfolded write_event_fd_def]] by simp

theorem write_event_exact_witness:
  "\<exists>n \<le> kernel_event_size. encode_event (key_event 30 1) = [] @ take n (encode_event (key_event 30 1)) \<and>
     (Inr () = (Inr () :: write_error + unit) \<longleftrightarrow> n = kernel_event_size)"
proof -
  have "write_event_fd (key_event 30 1) [] [Again, Wrote 10, Interrupted, Wrote 14] =
      Some (Inr (), encode_event (key_event 30 1), [])" by code_simp
  from write_event_exact[OF this] show ?thesis .
qed

text \<open>
  \<open>writeEventFD\<close> returns.  Once the kernel has answered 124 of its calls with something else than an
  interruption, the function is back, with the event written or with an error.
\<close>

theorem write_event_returns:
  assumes "124 \<le> length (filter (\<lambda>r. r \<noteq> Interrupted) script)"
  shows "write_event_fd ev taken script \<noteq> None"
  using assms unfolding write_event_fd_def
  by (intro write_loop_returns) (simp add: kernel_event_size_def)

theorem write_event_returns_witness:
  "write_event_fd (key_event 30 1) [] (replicate 124 Again) \<noteq> None"
  using write_event_returns[of "replicate 124 Again"] by simp

text \<open>
  \<open>discardQueuedEvents\<close> reports success exactly when the queue was drained: every answer before
  the last was data or an interruption, and the last said that nothing is left.
\<close>

theorem discard_drains:
  "discard_queued script = Some (Inr (), rest) \<longleftrightarrow>
     (\<exists>reads. script = reads @ ReadAgain # rest \<and>
        set reads \<subseteq> insert ReadInterrupted {ReadBytes n | n. n \<noteq> 0})"
proof (induction script rule: discard_queued.induct)
  case (2 r script)
  show ?case
  proof (cases r)
    case (ReadBytes n)
    have "(\<exists>reads. r # script = reads @ ReadAgain # rest \<and> set reads \<subseteq> insert ReadInterrupted {ReadBytes n | n. n \<noteq> 0}) \<longleftrightarrow>
        n \<noteq> 0 \<and> (\<exists>reads. script = reads @ ReadAgain # rest \<and> set reads \<subseteq> insert ReadInterrupted {ReadBytes n | n. n \<noteq> 0})"
      using ReadBytes by (auto simp: Cons_eq_append_conv intro: exI[of _ "ReadBytes n # reads" for reads])
    then show ?thesis using 2 ReadBytes by simp
  next
    case ReadInterrupted
    have "(\<exists>reads. r # script = reads @ ReadAgain # rest \<and> set reads \<subseteq> insert ReadInterrupted {ReadBytes n | n. n \<noteq> 0}) \<longleftrightarrow>
        (\<exists>reads. script = reads @ ReadAgain # rest \<and> set reads \<subseteq> insert ReadInterrupted {ReadBytes n | n. n \<noteq> 0})"
      using ReadInterrupted by (auto simp: Cons_eq_append_conv intro: exI[of _ "ReadInterrupted # reads" for reads])
    then show ?thesis using 2 ReadInterrupted by simp
  next
    case ReadAgain
    then show ?thesis by (auto simp: Cons_eq_append_conv)
  next
    case (ReadErrno e)
    then show ?thesis by (auto simp: Cons_eq_append_conv)
  qed
qed simp

lemma fold_keys:
  "gm_true (fold (\<lambda>c m. if P c then gm_put c True m else m) cs m) k \<longleftrightarrow> gm_true m k \<or> k \<in> set cs \<and> P k"
  by (induction cs arbitrary: m) auto

text \<open>
  \<open>currentKeys\<close> reports exactly the keys whose bit is set in the kernel's bitmap, up to \<open>KEY_MAX\<close>.
\<close>

theorem current_keys_exact:
  "gm_true (current_keys bits) c \<longleftrightarrow> unat c \<le> KeyMax \<and> bit_is_set bits c"
proof -
  have "c \<in> of_nat ` {0..<Suc KeyMax} \<longleftrightarrow> unat c \<le> KeyMax"
  proof
    assume "unat c \<le> KeyMax"
    then show "c \<in> of_nat ` {0..<Suc KeyMax}" by (intro image_eqI[of _ _ "unat c"]) auto
  next
    assume "c \<in> of_nat ` {0..<Suc KeyMax}"
    then show "unat c \<le> KeyMax" by (auto simp: small_code)
  qed
  then show ?thesis unfolding current_keys_def fold_keys by (simp only: set_map set_upt gm_true_empty) simp
qed

text \<open>
  The fields of a request number do not overlap: direction, type, number and size can be read
  back from it, so different requests have different numbers.
\<close>

theorem ioc_fields:
  assumes "direction < 4" "kind < 256" "number < 256" "sz < 16384"
  shows "drop_bit 30 (ioc direction kind number sz) = direction \<and>
    drop_bit 8 (ioc direction kind number sz) AND 0xff = kind \<and>
    ioc direction kind number sz AND 0xff = number \<and>
    drop_bit 16 (ioc direction kind number sz) AND 0x3fff = sz"
proof -
  have small: "x = take_bit n x" if "unat x < 2 ^ n" for x :: u64 and n
    using that by (simp add: word_unat_eq_iff unsigned_take_bit_eq take_bit_nat_eq_self)
  have bounds: "direction = take_bit 2 direction" "kind = take_bit 8 kind" "number = take_bit 8 number"
    "sz = take_bit 14 sz"
    using assms by (intro small; simp add: word_less_nat_alt)+
  have masks: "(0xff :: u64) = mask 8" "(0x3fff :: u64) = mask 14" by (simp_all add: mask_numeral)
  have b: "bit direction n \<Longrightarrow> n < 2" "bit kind n \<Longrightarrow> n < 8" "bit number n \<Longrightarrow> n < 8" "bit sz n \<Longrightarrow> n < 14" for n
    using bounds by (metis bit_take_bit_iff)+
  show ?thesis
    unfolding masks ioc_def
    by (intro conjI bit_word_eqI) (auto simp: bit_simps dest: b)
qed

theorem ioc_fields_witness:
  "drop_bit 30 (ioc 2 0x45 0x18 96) = 2 \<and> drop_bit 8 (ioc 2 0x45 0x18 96) AND 0xff = 0x45 \<and>
     ioc 2 0x45 0x18 96 AND 0xff = 0x18 \<and> drop_bit 16 (ioc 2 0x45 0x18 96) AND 0x3fff = 96"
  by (rule ioc_fields) simp_all

end
