(* ===== verification/Udev_Monitor.thy ===== *)
theory Udev_Monitor
  imports Go_Strings Kernel_IO
begin

text \<open>
  \<open>internal/linuxinput/udev_linux.go\<close>: the events of the udev monitor and the identity of a device
  node.  \<open>parse_device_event\<close> turns a datagram into an event or rejects it; generations and sequence
  numbers order the devices that appear one after the other under the same path.

  The answers of \<open>recvmsg\<close> are a script, as in Kernel_IO; the credentials of a datagram are the
  list of the control messages that carry credentials (other control messages are skipped by the code).
\<close>

section \<open>Events and generations\<close>

record device_event =
  de_action :: string
  de_path :: string
  de_devpath :: string
  de_seq :: u64

record generation =
  gn_devpath :: string
  gn_floor :: u64
  gn_observed :: bool

definition accept_sequence :: "device_event \<Rightarrow> (string, u64) gomap \<Rightarrow> bool \<times> (string, u64) gomap" where
  "accept_sequence ev latest =
     (let last = (case gm_get latest (de_path ev) of None \<Rightarrow> 0 | Some n \<Rightarrow> n)
      in if de_seq ev \<le> last then (False, latest)
         else (True, gm_put (de_path ev) (de_seq ev) latest))"

definition generation_from_event :: "device_event \<Rightarrow> generation" where
  "generation_from_event ev = \<lparr>gn_devpath = de_devpath ev, gn_floor = de_seq ev, gn_observed = True\<rparr>"

definition adopt_observed_add :: "generation \<Rightarrow> generation \<Rightarrow> generation" where
  "adopt_observed_add current observed =
     (if gn_floor observed > gn_floor current then current\<lparr>gn_floor := gn_floor observed\<rparr> else current)
       \<lparr>gn_observed := True\<rparr>"

definition matches_removal :: "generation \<Rightarrow> device_event \<Rightarrow> bool" where
  "matches_removal g ev \<longleftrightarrow> gn_devpath g = de_devpath ev \<and> gn_floor g < de_seq ev"

definition is_event_node :: "string \<Rightarrow> bool" where
  "is_event_node name =
     (let suffix = trim_prefix name ''event''
      in \<not> (suffix = [] \<or> suffix = name) \<and> list_all is_digit suffix)"

section \<open>Datagrams\<close>

definition udev_magic :: u32 where "udev_magic = 0xfeedcafe"
definition udev_header_size :: u64 where "udev_header_size = 40"

definition u32_of_bytes :: "u8 list \<Rightarrow> u32" where
  "u32_of_bytes bs = i32_of_bytes bs"

definition str_of_bytes :: "u8 list \<Rightarrow> string" where
  "str_of_bytes bs = map (\<lambda>b. char_of (unat b)) bs"

definition bytes_of_str :: "string \<Rightarrow> u8 list" where
  "bytes_of_str s = map (\<lambda>c. of_nat (of_char c)) s"

definition libudev_prefix :: "u8 list" where
  "libudev_prefix = bytes_of_str ''libudev'' @ [0]"

text \<open>
  \<open>udevProperties\<close>.  \<open>offset + length\<close> is an addition of 64-bit words.  Every slice of the message is
  checked: one whose bounds are out of range is the outer \<open>None\<close>.  (Go panics there when the bound is
  beyond the capacity of the buffer too, and otherwise would read bytes of an earlier datagram.)
\<close>

definition slice_bytes :: "u8 list \<Rightarrow> nat \<Rightarrow> nat \<Rightarrow> u8 list option" where
  "slice_bytes bs a b = (if a \<le> b \<and> b \<le> length bs then Some (take (b - a) (drop a bs)) else None)"

definition udev_properties :: "u8 list \<Rightarrow> u8 list option option" where
  "udev_properties message =
     (if take (length libudev_prefix) message \<noteq> libudev_prefix then Some (Some message)
      else if of_nat (length message) < udev_header_size then Some None
      else do {
        magic \<leftarrow> slice_bytes message 8 12;
        if u32_of_bytes (rev magic) \<noteq> udev_magic then Some None
        else do {
          offset_bytes \<leftarrow> slice_bytes message 16 20;
          length_bytes \<leftarrow> slice_bytes message 20 24;
          let offset = (ucast (u32_of_bytes offset_bytes) :: u64);
          let end = offset + (ucast (u32_of_bytes length_bytes) :: u64);
          if offset < udev_header_size \<or> end < offset \<or> end > of_nat (length message) then Some None
          else do {
            properties \<leftarrow> slice_bytes message (unat offset) (unat end);
            Some (Some properties) } } })"

text \<open>The fields \<open>KEY=value\<close>, separated by NUL bytes; of two values of a key the later one counts.\<close>

definition field_values :: "u8 list \<Rightarrow> (string, string) gomap" where
  "field_values properties =
     fold (\<lambda>field m. case cut_at CHR ''='' field of None \<Rightarrow> m | Some (k, v) \<Rightarrow> gm_put k v m)
       (split_on (char_of (0::nat)) (str_of_bytes properties)) []"

definition value_of :: "(string, string) gomap \<Rightarrow> string \<Rightarrow> string" where
  "value_of m k = (case gm_get m k of None \<Rightarrow> [] | Some v \<Rightarrow> v)"

text \<open>The path of the device node, from \<open>DEVNAME\<close>.\<close>

definition node_path :: "string \<Rightarrow> string option" where
  "node_path devname =
     (if str_contains devname ''/../'' then None
      else if is_abs devname then Some (clean_path devname)
      else if has_prefix devname ''input/'' then Some (clean_path (''/dev/'' @ devname))
      else None)"

definition event_of_values :: "(string, string) gomap \<Rightarrow> device_event option" where
  "event_of_values values =
     (if value_of values ''SUBSYSTEM'' \<noteq> ''input'' then None
      else if value_of values ''ACTION'' \<noteq> ''add'' \<and> value_of values ''ACTION'' \<noteq> ''remove'' then None
      else case node_path (value_of values ''DEVNAME'') of
             None \<Rightarrow> None
           | Some path \<Rightarrow>
               if path_dir path \<noteq> ''/dev/input'' \<or> \<not> is_event_node (path_base path) then None
               else let devpath = value_of values ''DEVPATH'' in
                 if \<not> has_prefix devpath ''/devices/'' \<or> str_contains devpath ''/../'' then None
                 else case parse_uint 64 (value_of values ''SEQNUM'') of
                        None \<Rightarrow> None
                      | Some n \<Rightarrow>
                          if n = 0 then None
                          else Some \<lparr>de_action = value_of values ''ACTION'', de_path = path,
                                     de_devpath = devpath, de_seq = of_nat n\<rparr>)"

definition parse_device_event :: "u8 list \<Rightarrow> device_event option option" where
  "parse_device_event message =
     map_option (\<lambda>ps. case ps of None \<Rightarrow> None | Some properties \<Rightarrow> event_of_values (field_values properties))
       (udev_properties message)"

section \<open>Receiving\<close>

text \<open>\<open>requireRootCredentials\<close>: the control messages, \<open>None\<close> for one that carries no credentials.\<close>

datatype credential_error = BadControl | NotRoot | NoCredentials

fun require_root :: "u32 option list \<Rightarrow> credential_error + unit" where
  "require_root [] = Inl NoCredentials"
| "require_root (None # ms) = require_root ms"
| "require_root (Some uid # ms) = (if uid \<noteq> 0 then Inl NotRoot else Inr ())"

text \<open>A datagram: its bytes, whether it was truncated, and its control messages if they parse.\<close>

record datagram =
  dg_bytes :: "u8 list"
  dg_truncated :: bool
  dg_control :: "u32 option list option"

datatype recv_result = Received datagram | RecvInterrupted | RecvAgain | RecvErrno nat

definition datagram_root :: "datagram \<Rightarrow> bool" where
  "datagram_root d = (case dg_control d of None \<Rightarrow> False | Some ms \<Rightarrow> require_root ms = Inr ())"

text \<open>
  \<open>readDeviceEvents\<close>: the events collected, with the error of the last call if there was one.  The outer
  \<open>None\<close> is a panic or a script that ends before the queue is empty.
\<close>

fun read_device_events :: "device_event list \<Rightarrow> recv_result list \<Rightarrow> (device_event list \<times> nat option) option" where
  "read_device_events acc [] = None"
| "read_device_events acc (RecvInterrupted # script) = read_device_events acc script"
| "read_device_events acc (RecvAgain # script) = Some (acc, None)"
| "read_device_events acc (RecvErrno e # script) = Some (acc, Some e)"
| "read_device_events acc (Received d # script) =
     (if dg_truncated d \<or> \<not> datagram_root d then read_device_events acc script
      else case parse_device_event (dg_bytes d) of
             None \<Rightarrow> None
           | Some None \<Rightarrow> read_device_events acc script
           | Some (Some ev) \<Rightarrow> read_device_events (acc @ [ev]) script)"

section \<open>Identity of a node\<close>

text \<open>\<open>kernelUeventSequence\<close>, from the bytes of \<open>/sys/kernel/uevent_seqnum\<close> (\<open>None\<close> when it cannot be read).\<close>

datatype sequence_error = SequenceUnreadable | SequenceMalformed | SequenceZero

definition kernel_uevent_sequence :: "string option \<Rightarrow> sequence_error + u64" where
  "kernel_uevent_sequence contents =
     (case contents of
        None \<Rightarrow> Inl SequenceUnreadable
      | Some text \<Rightarrow>
          (case parse_uint 64 (trim_space text) of
             None \<Rightarrow> Inl SequenceMalformed
           | Some n \<Rightarrow> if n = 0 then Inl SequenceZero else Inr (of_nat n)))"

text \<open>\<open>sysfsDeviceGeneration\<close>; \<open>resolve\<close> is \<open>filepath.EvalSymlinks\<close>.\<close>

datatype identity_error = BadNodePath | Unresolved | UnexpectedIdentity

definition sysfs_generation :: "(string \<Rightarrow> string option) \<Rightarrow> string \<Rightarrow> identity_error + generation" where
  "sysfs_generation resolve path =
     (let name = path_base path in
      if path_dir path \<noteq> ''/dev/input'' \<or> \<not> is_event_node name then Inl BadNodePath
      else case resolve (path_join [''/sys/class/input'', name]) of
             None \<Rightarrow> Inl Unresolved
           | Some resolved \<Rightarrow>
               if \<not> has_prefix resolved ''/sys/devices/'' then Inl UnexpectedIdentity
               else Inr \<lparr>gn_devpath = trim_prefix resolved ''/sys'', gn_floor = 0, gn_observed = False\<rparr>)"

section \<open>Accepted events\<close>

text \<open>What the manager may rely on of every event.\<close>

definition event_ok :: "device_event \<Rightarrow> bool" where
  "event_ok ev \<longleftrightarrow> (de_action ev = ''add'' \<or> de_action ev = ''remove'') \<and>
     (\<exists>n. de_path ev = ''/dev/input/event'' @ n \<and> n \<noteq> [] \<and> list_all is_digit n) \<and>
     has_prefix (de_devpath ev) ''/devices/'' \<and> \<not> str_contains (de_devpath ev) ''/../'' \<and> de_seq ev \<noteq> 0"

lemma event_node_digits:
  assumes "is_event_node name"
  obtains n where "name = ''event'' @ n" "n \<noteq> []" "list_all is_digit n"
proof -
  have "has_prefix name ''event''"
    using assms by (auto simp: is_event_node_def trim_prefix_def Let_def split: if_splits)
  then have "name = ''event'' @ drop (length ''event'') name"
    unfolding has_prefix_def by (metis append_take_drop_id)
  then show ?thesis
    using assms that[of "drop (length ''event'') name"] \<open>has_prefix name ''event''\<close>
    by (auto simp: is_event_node_def trim_prefix_def Let_def)
qed

lemma digits_event_node:
  assumes "n \<noteq> []" "list_all is_digit n"
  shows "is_event_node (''event'' @ n)"
  using assms by (simp add: is_event_node_def trim_prefix_def has_prefix_def)

lemma node_path_clean: "node_path devname = Some path \<Longrightarrow> \<exists>s. is_abs s \<and> path = clean_path s"
proof -
  have "is_abs (''/dev/'' @ devname)" by (simp add: is_abs_def has_prefix_def)
  then show "node_path devname = Some path \<Longrightarrow> \<exists>s. is_abs s \<and> path = clean_path s"
    unfolding node_path_def by (auto simp del: append_Cons split: if_splits)
qed

lemma event_node_path:
  assumes "is_abs s" "path_dir (clean_path s) = ''/dev/input''" "is_event_node (path_base (clean_path s))"
  shows "\<exists>n. clean_path s = ''/dev/input/event'' @ n \<and> n \<noteq> [] \<and> list_all is_digit n"
proof -
  obtain es where es: "clean_path s = slash # join_with [slash] es" "\<forall>e\<in>set es. plain_elem e"
    using assms(1) by (rule clean_path_abs)
  have up: "path_dir (slash # w) = ''/''" if "slash \<notin> set w" for w
  proof -
    have "dropWhile (\<lambda>c. c \<noteq> slash) (rev w @ [slash]) = [slash]"
      using that by (subst dropWhile_append2) auto
    then show ?thesis by (simp add: path_dir_def clean_path_def clean_elem_def)
  qed
  show ?thesis
  proof (cases es rule: rev_cases)
    case Nil
    then show ?thesis using assms(2) es(1) up[of "[]"] by simp
  next
    case (snoc ds e)
    have ds: "ds \<noteq> []"
    proof
      assume "ds = []"
      then show False using assms(2) es snoc up[of e] by (simp add: plain_elem_def)
    qed
    have path: "clean_path s = slash # join_with [slash] ds @ slash # e" using es(1) snoc ds by (simp add: join_snoc)
    have "slash # join_with [slash] ds = ''/dev/input''"
      using assms(2) es snoc ds dir_of_clean[of ds e] by auto
    moreover have "path_base (clean_path s) = e"
      using base_of_clean[of e "slash # join_with [slash] ds"] es(2) snoc path by simp
    ultimately show ?thesis using path assms(3) by (auto elim!: event_node_digits)
  qed
qed

lemma event_of_values_ok: "event_of_values values = Some ev \<Longrightarrow> event_ok ev"
proof -
  assume ev: "event_of_values values = Some ev"
  then obtain path n where p: "node_path (value_of values ''DEVNAME'') = Some path"
      "path_dir path = ''/dev/input''" "is_event_node (path_base path)"
    and n: "parse_uint 64 (value_of values ''SEQNUM'') = Some n" "n \<noteq> 0"
    and ev': "ev = \<lparr>de_action = value_of values ''ACTION'', de_path = path,
        de_devpath = value_of values ''DEVPATH'', de_seq = of_nat n\<rparr>"
      "value_of values ''ACTION'' = ''add'' \<or> value_of values ''ACTION'' = ''remove''"
      "has_prefix (value_of values ''DEVPATH'') ''/devices/''"
      "\<not> str_contains (value_of values ''DEVPATH'') ''/../''"
    by (auto simp: event_of_values_def Let_def split: if_splits option.splits)
  have "n < 2 ^ 64" using n(1) by (auto simp: parse_uint_def split: if_splits)
  then have "(of_nat n :: u64) \<noteq> 0" using n(2) by (simp add: word_of_nat_eq_0_iff nat_dvd_not_less)
  moreover have "\<exists>m. path = ''/dev/input/event'' @ m \<and> m \<noteq> [] \<and> list_all is_digit m"
    using node_path_clean[OF p(1)] event_node_path p(2,3) by blast
  ultimately show ?thesis using ev' by (simp add: event_ok_def)
qed

lemma slice_within: "a \<le> b \<Longrightarrow> b \<le> length bs \<Longrightarrow> slice_bytes bs a b = Some (take (b - a) (drop a bs))"
  by (simp add: slice_bytes_def)

lemma word_length_le: "unat (of_nat n :: u64) \<le> n"
  by (simp add: unat_of_nat)

lemma udev_properties_total: "udev_properties message \<noteq> None"
proof (cases "of_nat (length message) < udev_header_size")
  case True
  then show ?thesis by (simp add: udev_properties_def)
next
  case False
  then have "40 \<le> unat (of_nat (length message) :: u64)" by (simp add: word_less_nat_alt udev_header_size_def)
  then have len: "40 \<le> length message" using word_length_le order_trans by blast
  have "\<exists>y. do { properties \<leftarrow> slice_bytes message (unat offset) (unat end); Some (Some properties) } = Some y"
    if "\<not> end < offset" "\<not> end > of_nat (length message)" for offset "end" :: u64
    using that word_length_le[of "length message"] by (simp add: word_less_nat_alt slice_bytes_def)
  then show ?thesis
    using False len by (auto simp: udev_properties_def Let_def slice_within)
qed

section \<open>Writing an event\<close>

text \<open>The properties of an input event as the kernel writes them, and udev's datagram around them.\<close>

abbreviation nul :: char where "nul \<equiv> CHR 0x00"

definition uevent_fields :: "device_event \<Rightarrow> string list" where
  "uevent_fields ev =
     [''ACTION='' @ de_action ev, ''DEVPATH='' @ de_devpath ev, ''SUBSYSTEM=input'',
      ''SEQNUM='' @ dec_string (unat (de_seq ev)), ''DEVNAME='' @ drop 5 (de_path ev)]"

definition uevent_properties :: "device_event \<Rightarrow> u8 list" where
  "uevent_properties ev = bytes_of_str (join_with [nul] (uevent_fields ev))"

definition libudev_message :: "u8 list \<Rightarrow> u8 list \<Rightarrow> u8 list \<Rightarrow> u8 list" where
  "libudev_message filter_bytes trailer properties =
     libudev_prefix @ rev (bytes_of_i32 udev_magic) @ take 4 (filter_bytes @ replicate 4 0) @
     bytes_of_i32 40 @ bytes_of_i32 (of_nat (length properties)) @ take 16 (trailer @ replicate 16 0) @ properties"

lemma str_of_bytes_of_str [simp]: "str_of_bytes (bytes_of_str s) = s"
proof -
  have "unat (of_nat (of_char c) :: u8) = of_char c" for c :: char
    using nat_of_char_less_256[of c] by (simp add: unat_of_nat)
  then show ?thesis by (simp add: str_of_bytes_def bytes_of_str_def o_def)
qed

lemma libudev_properties:
  assumes "length properties < 2 ^ 32"
  shows "udev_properties (libudev_message a b properties) = Some (Some properties)"
proof -
  let ?m = "libudev_message a b properties"
  have len: "length libudev_prefix = 8" by (simp add: libudev_prefix_def bytes_of_str_def)
  have four: "length (bytes_of_i32 x) = 4" for x by (simp add: bytes_of_i32_def)
  note lens = len four
  have total: "length ?m = 40 + length properties" by (simp add: libudev_message_def lens)
  have pre: "take (length libudev_prefix) ?m = libudev_prefix" by (simp add: libudev_message_def)
  have magic: "slice_bytes ?m 8 12 = Some (rev (bytes_of_i32 udev_magic))" "u32_of_bytes (bytes_of_i32 udev_magic) = udev_magic"
    using i32_bytes[of udev_magic "[]"]
    by (simp_all add: slice_bytes_def total) (simp_all add: libudev_message_def lens u32_of_bytes_def)
  have off: "slice_bytes ?m 16 20 = Some (bytes_of_i32 40)" "u32_of_bytes (bytes_of_i32 40) = 40"
    using i32_bytes[of 40 "[]"]
    by (simp_all add: slice_bytes_def total) (simp_all add: libudev_message_def lens u32_of_bytes_def)
  have ln: "slice_bytes ?m 20 24 = Some (bytes_of_i32 (of_nat (length properties)))"
    "u32_of_bytes (bytes_of_i32 (of_nat (length properties))) = of_nat (length properties)"
    using i32_bytes[of "of_nat (length properties)" "[]"]
    by (simp_all add: slice_bytes_def total) (simp_all add: libudev_message_def lens u32_of_bytes_def)
  have small: "unat (ucast (of_nat (length properties) :: u32) :: u64) = length properties"
    using assms by (simp add: unsigned_ucast_eq unat_of_nat take_bit_nat_eq_self)
  define e :: u64 where "e = 40 + ucast (of_nat (length properties) :: u32)"
  have e: "unat e = 40 + length properties"
  proof -
    have "e = of_nat (40 + unat (ucast (of_nat (length properties) :: u32) :: u64))"
      by (simp add: e_def del: unsigned_ucast_eq)
    then have sum: "e = of_nat (40 + length properties)" unfolding small .
    show ?thesis unfolding sum unat_of_nat using assms by simp
  qed
  have n: "unat (of_nat (length ?m) :: u64) = 40 + length properties"
    unfolding total unat_of_nat using assms by simp
  have "\<not> (of_nat (length ?m) :: u64) < udev_header_size"
    unfolding word_less_nat_alt n by (simp add: udev_header_size_def)
  moreover have "\<not> e < 40" "\<not> e > of_nat (length ?m)" unfolding word_less_nat_alt n e by simp_all
  moreover have "slice_bytes ?m 40 (unat e) = Some properties"
    by (simp add: slice_bytes_def e total) (simp add: libudev_message_def lens)
  ultimately show ?thesis
    unfolding udev_properties_def pre magic off ln Let_def Option.bind.bind_lunit rev_rev_ident
    by (simp add: udev_header_size_def e_def[symmetric])
qed

lemma str_contains_set: "str_contains s p \<Longrightarrow> set p \<subseteq> set s"
proof (induction s)
  case (Cons c s)
  have "set p \<subseteq> set (c # s)" if "has_prefix (c # s) p"
    using that unfolding has_prefix_def by (metis set_take_subset)
  with Cons show ?case by auto
qed simp

lemma no_digit: "list_all is_digit n \<Longrightarrow> c \<in> set n \<Longrightarrow> is_digit c"
  by (auto simp: list_all_iff)

lemma parse_dec: "n < 2 ^ bits \<Longrightarrow> parse_uint bits (dec_string n) = Some n"
  by (simp add: parse_uint_def dec_string_nonempty dec_string_digits digits_val_dec_string)

lemma node_path_event:
  assumes "n \<noteq> []" "list_all is_digit n"
  shows "node_path (''input/event'' @ n) = Some (''/dev/input/event'' @ n)"
    "path_dir (''/dev/input/event'' @ n) = ''/dev/input''" "path_base (''/dev/input/event'' @ n) = ''event'' @ n"
proof -
  have no: "c \<notin> set n" if "\<not> is_digit c" for c using assms(2) that no_digit by blast
  have dot: "CHR ''.'' \<notin> set n" and sl: "slash \<notin> set n" by (auto intro!: no simp: is_digit_def)
  have el: "plain_elem (''event'' @ n)" using sl by (simp add: plain_elem_def)
  have "split_on slash (''/dev/input/event'' @ n) = [[], ''dev'', ''input'', ''event'' @ n]"
    using sl by (simp add: split_on_none)
  then have "clean_path (''/dev/input/event'' @ n) = ''/dev/input/event'' @ n"
    by (simp add: clean_path_def clean_elem_def)
  moreover have "\<not> str_contains (''input/event'' @ n) ''/../''"
    using str_contains_set[of "''input/event'' @ n" "''/../''"] dot by auto
  ultimately show "node_path (''input/event'' @ n) = Some (''/dev/input/event'' @ n)"
    unfolding node_path_def by (simp add: is_abs_def has_prefix_def)
  show "path_base (''/dev/input/event'' @ n) = ''event'' @ n"
    using base_of_clean[OF el, of "''/dev/input''"] by simp
  have "\<forall>x\<in>set [''dev'', ''input'']. plain_elem x" by (simp add: plain_elem_def)
  from dir_of_clean[OF this el] show "path_dir (''/dev/input/event'' @ n) = ''/dev/input''" by simp
qed

lemma uevent_values:
  assumes "nul \<notin> set (de_action ev)" "nul \<notin> set (de_devpath ev)" "nul \<notin> set (de_path ev)"
  shows "value_of (field_values (uevent_properties ev)) k =
    (if k = ''ACTION'' then de_action ev else if k = ''DEVPATH'' then de_devpath ev
     else if k = ''SUBSYSTEM'' then ''input'' else if k = ''SEQNUM'' then dec_string (unat (de_seq ev))
     else if k = ''DEVNAME'' then drop 5 (de_path ev) else [])"
proof -
  have "nul \<notin> set (dec_string m)" for m
    using dec_string_digits[of m] no_digit[of "dec_string m" nul] by (auto simp: is_digit_def)
  then have "split_on nul (join_with [nul] (uevent_fields ev)) = uevent_fields ev"
    using assms by (intro split_on_join) (auto simp: uevent_fields_def dest: in_set_dropD)
  moreover have "cut_at CHR ''='' (''ACTION='' @ v) = Some (''ACTION'', v)"
    "cut_at CHR ''='' (''DEVPATH='' @ v) = Some (''DEVPATH'', v)"
    "cut_at CHR ''='' (''SUBSYSTEM=input'') = Some (''SUBSYSTEM'', ''input'')"
    "cut_at CHR ''='' (''SEQNUM='' @ v) = Some (''SEQNUM'', v)"
    "cut_at CHR ''='' (''DEVNAME='' @ v) = Some (''DEVNAME'', v)" for v
    by (simp_all add: cut_at_def)
  ultimately show ?thesis
    by (simp add: field_values_def uevent_properties_def uevent_fields_def value_of_def char_of_def)
qed

lemma event_of_uevent:
  assumes "event_ok ev" "nul \<notin> set (de_devpath ev)"
  shows "event_of_values (field_values (uevent_properties ev)) = Some ev"
proof -
  obtain n where n: "de_path ev = ''/dev/input/event'' @ n" "n \<noteq> []" "list_all is_digit n"
    using assms(1) by (auto simp: event_ok_def)
  have "nul \<notin> set n" using n(3) no_digit[of n nul] by (auto simp: is_digit_def)
  then have vals: "value_of (field_values (uevent_properties ev)) k =
      (if k = ''ACTION'' then de_action ev else if k = ''DEVPATH'' then de_devpath ev
       else if k = ''SUBSYSTEM'' then ''input'' else if k = ''SEQNUM'' then dec_string (unat (de_seq ev))
       else if k = ''DEVNAME'' then ''input/event'' @ n else [])" for k
    using assms n(1) by (subst uevent_values) (auto simp: event_ok_def)
  have "unat (de_seq ev) < 2 ^ 64" using unsigned_less[of "de_seq ev"] by simp
  then have "parse_uint 64 (dec_string (unat (de_seq ev))) = Some (unat (de_seq ev))" by (rule parse_dec)
  moreover have "unat (de_seq ev) \<noteq> 0" using assms(1) by (simp add: event_ok_def unat_eq_0)
  ultimately show ?thesis
    unfolding event_of_values_def vals
    using assms(1) n digits_event_node[OF n(2,3)] node_path_event[OF n(2,3)]
    by (auto simp: event_ok_def Let_def)
qed

lemma parse_uevent:
  assumes "event_ok ev" "nul \<notin> set (de_devpath ev)" "length (uevent_properties ev) < 2 ^ 32"
  shows "parse_device_event (libudev_message a b (uevent_properties ev)) = Some (Some ev)"
  using libudev_properties[OF assms(3)] event_of_uevent[OF assms(1,2)]
  by (simp add: parse_device_event_def)

section \<open>Properties\<close>

text \<open>
  C36. Parsing a datagram never panics, whatever its bytes and its header say, and accepts only events
  the manager can trust: an addition or a removal of a node \<open>/dev/input/event<digits>\<close>, with a
  device path below \<open>/devices/\<close> that does not climb, and a sequence number that is not zero.
\<close>

theorem parse_device_event_safe:
  "\<exists>r. parse_device_event message = Some r \<and> (case r of None \<Rightarrow> True | Some ev \<Rightarrow> event_ok ev)"
proof -
  obtain ps where ps: "udev_properties message = Some ps" using udev_properties_total[of message] by auto
  show ?thesis
  proof (cases ps)
    case None
    then show ?thesis using ps by (simp add: parse_device_event_def)
  next
    case (Some properties)
    then show ?thesis using ps event_of_values_ok[of "field_values properties"]
      by (cases "event_of_values (field_values properties)") (auto simp: parse_device_event_def)
  qed
qed

text \<open>
  C37. The datagram of an event is read back as that event: \<open>parseDeviceEvent\<close> inverts the encoding of
  udev, with its header of any filter bytes, for every event it can accept.
\<close>

theorem uevent_roundtrip:
  assumes "event_ok ev" "nul \<notin> set (de_devpath ev)" "length (uevent_properties ev) < 2 ^ 32"
  shows "parse_device_event (libudev_message filter_bytes trailer (uevent_properties ev)) = Some (Some ev)"
  using assms by (rule parse_uevent)

definition example_event :: device_event where
  "example_event = \<lparr>de_action = ''add'', de_path = ''/dev/input/event7'',
     de_devpath = ''/devices/usb1/input7/event7'', de_seq = 4321\<rparr>"

lemma example_event_ok: "event_ok example_event"
proof -
  have "has_prefix (de_devpath example_event) ''/devices/''" "\<not> str_contains (de_devpath example_event) ''/../''"
    by (simp_all add: example_event_def has_prefix_def)
  moreover have "de_path example_event = ''/dev/input/event'' @ ''7''" "list_all is_digit ''7''"
    by (simp_all add: example_event_def is_digit_def)
  ultimately show ?thesis by (simp add: event_ok_def) (simp add: example_event_def)
qed

lemma example_event_fields:
  "nul \<notin> set (de_devpath example_event)" "length (uevent_properties example_event) < 2 ^ 32"
proof -
  show "nul \<notin> set (de_devpath example_event)" by (simp add: example_event_def)
  have "length (dec_string 4321) \<le> 4" by (simp add: dec_string.simps)
  then show "length (uevent_properties example_event) < 2 ^ 32"
    by (simp add: uevent_properties_def bytes_of_str_def uevent_fields_def example_event_def)
qed

theorem uevent_roundtrip_witness:
  "parse_device_event (libudev_message [1, 2, 3, 4] [] (uevent_properties example_event)) =
     Some (Some example_event)"
  by (rule uevent_roundtrip[OF example_event_ok example_event_fields])

text \<open>
  Who sent a datagram, without the code: its control messages parse and the first of them that carries
  credentials carries the user 0.
\<close>

definition first_uid :: "u32 option list \<Rightarrow> u32 option" where
  "first_uid ms = (case dropWhile (\<lambda>m. m = None) ms of [] \<Rightarrow> None | m # _ \<Rightarrow> m)"

definition sent_by_root :: "datagram \<Rightarrow> bool" where
  "sent_by_root d \<longleftrightarrow> (case dg_control d of None \<Rightarrow> False | Some ms \<Rightarrow> first_uid ms = Some 0)"

lemma require_root_first: "require_root ms = Inr () \<longleftrightarrow> first_uid ms = Some 0"
  by (induction ms rule: require_root.induct) (simp_all add: first_uid_def)

lemma datagram_root_sent: "datagram_root d \<longleftrightarrow> sent_by_root d"
  by (simp add: datagram_root_def sent_by_root_def require_root_first split: option.split)

text \<open>What one answer of \<open>recvmsg\<close> must contribute: the event of a complete datagram that root sent.\<close>

definition accepted_event :: "recv_result \<Rightarrow> device_event option" where
  "accepted_event r =
     (case r of
        Received d \<Rightarrow>
          if dg_truncated d \<or> \<not> sent_by_root d then None
          else (case parse_device_event (dg_bytes d) of None \<Rightarrow> None | Some e \<Rightarrow> e)
      | _ \<Rightarrow> None)"

lemma accepted_event_simps [simp]:
  "accepted_event RecvInterrupted = None" "accepted_event RecvAgain = None" "accepted_event (RecvErrno e) = None"
  "accepted_event (Received d) = (if dg_truncated d \<or> \<not> sent_by_root d then None
     else (case parse_device_event (dg_bytes d) of None \<Rightarrow> None | Some e \<Rightarrow> e))"
  by (simp_all add: accepted_event_def)

lemma accepted_event_root:
  "accepted_event r = Some ev \<Longrightarrow> \<exists>d. r = Received d \<and> \<not> dg_truncated d \<and> sent_by_root d \<and>
     parse_device_event (dg_bytes d) = Some (Some ev)"
  by (cases r) (auto split: if_splits option.splits)

lemma parse_total: "parse_device_event message \<noteq> None"
  using udev_properties_total[of message] by (auto simp: parse_device_event_def)

lemma read_events_exact:
  "read_device_events acc script = Some (evs, err) \<Longrightarrow>
     \<exists>ds last rest. script = ds @ last # rest \<and> evs = acc @ List.map_filter accepted_event ds \<and>
       last = (case err of None \<Rightarrow> RecvAgain | Some e \<Rightarrow> RecvErrno e)"
proof (induction acc script rule: read_device_events.induct)
  case (2 acc script)
  then obtain ds last rest where "script = ds @ last # rest" "evs = acc @ List.map_filter accepted_event ds"
    "last = (case err of None \<Rightarrow> RecvAgain | Some e \<Rightarrow> RecvErrno e)" by auto
  then show ?case
    by (intro exI[of _ "RecvInterrupted # ds"]) (simp add: map_filter_simps)
next
  case (3 acc script)
  then show ?case by (intro exI[of _ "[]"]) (simp add: map_filter_simps)
next
  case (4 acc e script)
  then show ?case by (intro exI[of _ "[]"]) (auto simp: map_filter_simps)
next
  case (5 acc d script)
  obtain acc' where rest: "read_device_events acc' script = Some (evs, err)"
    and acc': "acc' = acc @ List.map_filter accepted_event [Received d]"
    and IH: "\<exists>ds last rest. script = ds @ last # rest \<and> evs = acc' @ List.map_filter accepted_event ds \<and>
       last = (case err of None \<Rightarrow> RecvAgain | Some e \<Rightarrow> RecvErrno e)"
    using 5 by (auto simp: map_filter_simps datagram_root_sent split: if_splits option.splits)
  then obtain ds last rest where "script = ds @ last # rest" "evs = acc' @ List.map_filter accepted_event ds"
    "last = (case err of None \<Rightarrow> RecvAgain | Some e \<Rightarrow> RecvErrno e)" by auto
  then show ?case
    by (intro exI[of _ "Received d # ds"]) (simp add: acc' map_filter_simps split: option.split)
qed simp

text \<open>
  C38. \<open>readDeviceEvents\<close> returns exactly the acceptable events of the datagrams up to the call that found
  the queue empty, in order: a truncated datagram, one whose control messages do not parse or carry no credentials, and
  one whose first credentials are not those of the user 0 contribute nothing.
\<close>

theorem root_events_only:
  assumes "read_device_events [] script = Some (evs, None)"
  shows "\<exists>ds rest. script = ds @ RecvAgain # rest \<and> evs = List.map_filter accepted_event ds \<and>
    (\<forall>ev\<in>set evs. \<exists>d. Received d \<in> set ds \<and> \<not> dg_truncated d \<and> sent_by_root d \<and>
       parse_device_event (dg_bytes d) = Some (Some ev))"
proof -
  obtain ds rest where ds: "script = ds @ RecvAgain # rest" "evs = List.map_filter accepted_event ds"
    using read_events_exact[OF assms] by auto
  have "\<exists>d. Received d \<in> set ds \<and> \<not> dg_truncated d \<and> sent_by_root d \<and>
       parse_device_event (dg_bytes d) = Some (Some ev)" if "ev \<in> set evs" for ev
  proof -
    obtain r where r: "r \<in> set ds" "accepted_event r = Some ev"
      using \<open>ev \<in> set evs\<close> ds(2) by (auto simp: List.map_filter_def)
    then show ?thesis using accepted_event_root[OF r(2)] by blast
  qed
  with ds show ?thesis by blast
qed

theorem root_events_only_witness:
  "\<exists>d. Received d \<in> {Received \<lparr>dg_bytes = libudev_message [] [] (uevent_properties example_event),
        dg_truncated = False, dg_control = Some [None, Some 0]\<rparr>,
      Received \<lparr>dg_bytes = [], dg_truncated = False, dg_control = Some [Some 1000]\<rparr>} \<and> sent_by_root d \<and>
     parse_device_event (dg_bytes d) = Some (Some example_event)"
proof -
  let ?d = "\<lparr>dg_bytes = libudev_message [] [] (uevent_properties example_event),
        dg_truncated = False, dg_control = Some [None, Some 0]\<rparr>"
  let ?e = "\<lparr>dg_bytes = [], dg_truncated = False, dg_control = Some [Some 1000]\<rparr>"
  have "read_device_events [] [Received ?d, RecvInterrupted, Received ?e, RecvAgain] = Some ([example_event], None)"
    by (simp add: datagram_root_def parse_uevent[OF example_event_ok example_event_fields])
  from root_events_only[OF this] obtain ds rest where
    ds: "[Received ?d, RecvInterrupted, Received ?e, RecvAgain] = ds @ RecvAgain # rest"
    and d: "\<exists>d. Received d \<in> set ds \<and> \<not> dg_truncated d \<and> sent_by_root d \<and>
       parse_device_event (dg_bytes d) = Some (Some example_event)" by auto
  from ds have "set ds \<subseteq> set [Received ?d, RecvInterrupted, Received ?e, RecvAgain]" by (metis Un_upper1 set_append)
  with d show ?thesis by auto
qed

end
