(* ===== verification/Lock_State.thy ===== *)
theory Lock_State
  imports Input_Event
begin

text \<open>
  \<open>internal/linuxinput/locks_linux.go\<close>: what the compositor last told about the three lock LEDs.  A
  \<open>[3]bool\<close> is a list of length 3; every access of the code is guarded by \<open>code <= LEDScrollLock\<close>.
\<close>

section \<open>State and operations\<close>

record lock_state =
  lk_values :: "bool list"
  lk_known :: "bool list"

definition zero_locks :: lock_state where
  "zero_locks = \<lparr>lk_values = replicate 3 False, lk_known = replicate 3 False\<rparr>"

definition lock_led :: "lock_state \<Rightarrow> u16 \<Rightarrow> bool" where
  "lock_led s code \<longleftrightarrow> code \<le> LEDScrollLock \<and> lk_values s ! unat code"

definition lock_known :: "lock_state \<Rightarrow> u16 \<Rightarrow> bool" where
  "lock_known s code \<longleftrightarrow> code \<le> LEDScrollLock \<and> lk_known s ! unat code"

definition set_led :: "u16 \<Rightarrow> bool \<Rightarrow> lock_state \<Rightarrow> bool \<times> lock_state" where
  "set_led code enabled s =
     (if code > LEDScrollLock then (False, s)
      else let changed = (\<not> lk_known s ! unat code \<or> lk_values s ! unat code \<noteq> enabled)
           in (changed, s\<lparr>lk_known := (lk_known s)[unat code := True],
                          lk_values := (lk_values s)[unat code := enabled]\<rparr>))"

definition lock_snapshot :: "lock_state \<Rightarrow> bool \<times> bool \<times> bool" where
  "lock_snapshot s = (lock_led s LEDCapsLock, lock_led s LEDNumLock, lock_led s LEDScrollLock)"

section \<open>The contract\<close>

text \<open>What is known of a LED.\<close>

definition lock_view :: "lock_state \<Rightarrow> u16 \<Rightarrow> bool option" where
  "lock_view s code = (if lock_known s code then Some (lock_led s code) else None)"

definition locks_ok :: "lock_state \<Rightarrow> bool" where
  "locks_ok s \<longleftrightarrow> length (lk_values s) = 3 \<and> length (lk_known s) = 3 \<and>
     (\<forall>i < 3. lk_values s ! i \<longrightarrow> lk_known s ! i)"

lemma locks_ok_zero: "locks_ok zero_locks" "lock_view zero_locks code = None"
proof -
  show "locks_ok zero_locks" by (simp add: locks_ok_def zero_locks_def)
  have "unat code < 3" if "code \<le> 2" using that by (simp add: word_le_nat_alt)
  then show "lock_view zero_locks code = None" by (auto simp: lock_view_def lock_known_def zero_locks_def)
qed

text \<open>\<open>LED\<close> reads an unknown LED as off.\<close>

lemma lock_led_view: "locks_ok s \<Longrightarrow> lock_led s code \<longleftrightarrow> lock_view s code = Some True"
proof -
  have "unat code < 3" if "code \<le> 2" using that by (simp add: word_le_nat_alt)
  then show "locks_ok s \<Longrightarrow> ?thesis" by (auto simp: lock_view_def lock_led_def lock_known_def locks_ok_def)
qed

lemma set_led_step:
  assumes "locks_ok s" "set_led code enabled s = (changed, s')"
  shows "locks_ok s'"
    and "lock_view s' = (if code \<le> LEDScrollLock then (lock_view s)(code := Some enabled) else lock_view s)"
    and "changed \<longleftrightarrow> lock_view s' \<noteq> lock_view s"
proof -
  have small: "unat c < 3" if "c \<le> 2" for c :: u16 using that by (simp add: word_le_nat_alt)
  show ok: "locks_ok s'"
  proof (cases "code > LEDScrollLock")
    case False
    then have s': "s' = s\<lparr>lk_known := (lk_known s)[unat code := True],
        lk_values := (lk_values s)[unat code := enabled]\<rparr>"
      using assms(2) by (simp add: set_led_def Let_def)
    from assms(1) small[of code] False show ?thesis unfolding s' locks_ok_def
      by (auto simp: nth_list_update not_less split: if_splits)
  qed (use assms in \<open>simp add: set_led_def\<close>)
  show view: "lock_view s' = (if code \<le> LEDScrollLock then (lock_view s)(code := Some enabled) else lock_view s)"
    using assms small
    by (auto simp: fun_eq_iff set_led_def lock_view_def lock_led_def lock_known_def locks_ok_def Let_def
        nth_list_update word_unat_eq_iff[symmetric] not_le split: if_splits)
  show "changed \<longleftrightarrow> lock_view s' \<noteq> lock_view s"
    unfolding view using assms small[of code]
    by (auto simp: set_led_def lock_view_def lock_led_def lock_known_def Let_def fun_upd_idem_iff not_le split: if_splits)
qed

text \<open>A sequence of updates, with the answers of \<open>SetLED\<close>.\<close>

fun lock_run :: "(u16 \<times> bool) list \<Rightarrow> lock_state \<Rightarrow> bool list \<times> lock_state" where
  "lock_run [] s = ([], s)"
| "lock_run ((code, enabled) # ups) s =
     (let (changed, s1) = set_led code enabled s; (answers, s2) = lock_run ups s1 in (changed # answers, s2))"

lemma lock_run_view:
  "locks_ok s \<Longrightarrow> lock_run ups s = (answers, s') \<Longrightarrow>
     locks_ok s' \<and> lock_view s' = lock_view s ++ map_of (rev (filter (\<lambda>u. fst u \<le> LEDScrollLock) ups))"
proof (induction ups arbitrary: s answers)
  case (Cons u ups)
  obtain code enabled where u: "u = (code, enabled)" by (cases u)
  obtain changed s1 where s1: "set_led code enabled s = (changed, s1)" by (cases "set_led code enabled s")
  obtain rest where r: "lock_run ups s1 = (rest, s')" using Cons.prems(2) u s1 by (auto split: prod.splits)
  note st = set_led_step[OF Cons.prems(1) s1]
  from Cons.IH[OF st(1) r] st(2) u show ?case by (simp add: map_add_def fun_eq_iff split: option.split)
qed simp

section \<open>Properties\<close>

text \<open>
  The lock state is the last feedback of the compositor: after any sequence of updates a LED is
  known exactly when an update named it, it reads as its last value (off while unknown), and a
  code that is not a lock LED never changes anything.
\<close>

theorem locks_follow_feedback:
  assumes "lock_run ups zero_locks = (answers, s)"
  shows "(if lock_known s code then Some (lock_led s code) else None) =
      map_of (rev (filter (\<lambda>u. fst u \<le> LEDScrollLock) ups)) code \<and>
    (lock_led s code \<longleftrightarrow> map_of (rev (filter (\<lambda>u. fst u \<le> LEDScrollLock) ups)) code = Some True)"
proof -
  have "lock_view zero_locks = Map.empty" by (simp add: fun_eq_iff locks_ok_zero)
  with lock_run_view[OF locks_ok_zero(1) assms]
  have s: "locks_ok s" "lock_view s = map_of (rev (filter (\<lambda>u. fst u \<le> LEDScrollLock) ups))" by simp_all
  from s(2) have "lock_view s code = map_of (rev (filter (\<lambda>u. fst u \<le> LEDScrollLock) ups)) code" by simp
  then show ?thesis using lock_led_view[OF s(1), of code] by (simp add: lock_view_def)
qed

theorem locks_follow_feedback_witness:
  "lock_led (snd (lock_run [(1, True), (0, True), (0, False), (7, True)] zero_locks)) 1"
proof -
  have "lock_run [(1, True), (0, True), (0, False), (7, True)] zero_locks =
      ([True, True, True, False], snd (lock_run [(1, True), (0, True), (0, False), (7, True)] zero_locks))"
    by code_simp
  from locks_follow_feedback[OF this, of 1] show ?thesis by simp
qed

text \<open>
  \<open>SetLED\<close> answers true exactly when its update changed what is known of the LEDs, so the daemon
  forwards a lock state exactly when it is new.
\<close>

theorem set_led_answer:
  assumes "lock_run ups zero_locks = (answers, s)"
  shows "fst (set_led code enabled s) \<longleftrightarrow>
    code \<le> LEDScrollLock \<and> (lock_known s code \<longrightarrow> lock_led s code \<noteq> enabled)"
proof -
  have ok: "locks_ok s" using lock_run_view[OF locks_ok_zero(1) assms] by simp
  obtain changed s' where s': "set_led code enabled s = (changed, s')" by (cases "set_led code enabled s")
  from set_led_step[OF ok s'] s' show ?thesis
    by (auto simp: lock_view_def fun_upd_idem_iff split: if_splits)
qed

theorem set_led_answer_witness:
  "fst (set_led 0 True (snd (lock_run [(0, False)] zero_locks)))"
proof -
  have "lock_run [(0, False)] zero_locks = ([True], snd (lock_run [(0, False)] zero_locks))" by code_simp
  from set_led_answer[OF this, of 0 True] show ?thesis by (simp add: set_led_def Let_def zero_locks_def)
qed

end
