(* ===== verification/Manager_State.thy ===== *)
theory Manager_State
  imports Udev_Monitor Lock_State "HOL-Library.Multiset"
begin

text \<open>
  \<open>internal/linuxinput/manager_linux.go\<close>, first part: the state of the device manager, the system calls
  it makes, and the operations on one device (probing, acquiring, synchronising its LEDs, closing).

  The kernel and the scheduler are a parameter, a record of functions: the answer to a call may depend
  on all the calls made before it, which the state keeps as its trace.  Where a call is made until it
  has nothing more to give (reading, writing, draining) the answers are a list, and after the last of
  them the kernel answers that nothing is left (or takes the whole record).  A trace entry records what
  the call did where that matters.  Log lines are not modelled.

  A \<open>*physicalDevice\<close> is shared between the maps of the manager, so the state has a store of devices and
  the maps hold their numbers.
\<close>

section \<open>State\<close>

type_synonym fd = int
type_synonym did = nat

record physical_device =
  pd_path :: device
  pd_gen :: generation
  pd_fd :: fd
  pd_frame :: "event list"
  pd_dropping :: bool
  pd_leds :: "bool list"

record retry =
  rt_gen :: generation
  rt_attempts :: nat
  rt_deadline :: int
  rt_scheduled :: bool

datatype sys_call =
    COpened device fd
  | CQuery fd
  | CLook device
  | CKeys fd
  | CDrain fd
  | CGrab fd bool bool \<comment> \<open>descriptor, on or off, whether it succeeded\<close>
  | CEpollAdd fd bool
  | CEpollDel fd
  | CClose fd
  | CWrite fd event
  | CRead fd
  | CSent "unit message"
  | CDropped "unit message" \<comment> \<open>the context was cancelled before the message was taken\<close>
  | CTime

record stat_info =
  st_dev :: u64
  st_ino :: u64
  st_rdev :: u64

record input_id =
  id_vendor :: u16
  id_product :: u16

datatype dev_read = DevData "u8 list" | DevErrno nat
datatype feedback_read = FbData "u8 list" | FbInterrupted | FbErrno nat

record kernel_answers =
  k_open :: "sys_call list \<Rightarrow> device \<Rightarrow> nat + fd"
  k_fstat :: "sys_call list \<Rightarrow> fd \<Rightarrow> nat + stat_info"
  k_stat :: "sys_call list \<Rightarrow> device \<Rightarrow> nat + stat_info"
  k_resolve :: "sys_call list \<Rightarrow> string \<Rightarrow> string option"
  k_seqnum :: "sys_call list \<Rightarrow> string option"
  k_ioctl :: "sys_call list \<Rightarrow> fd \<Rightarrow> u64 \<Rightarrow> nat + u8 list" \<comment> \<open>the buffer a query request fills\<close>
  k_keys :: "sys_call list \<Rightarrow> fd \<Rightarrow> nat + u8 list"
  k_drain :: "sys_call list \<Rightarrow> fd \<Rightarrow> read_result list"
  k_grab :: "sys_call list \<Rightarrow> fd \<Rightarrow> bool \<Rightarrow> nat option"
  k_epoll_add :: "sys_call list \<Rightarrow> fd \<Rightarrow> nat option"
  k_write :: "sys_call list \<Rightarrow> fd \<Rightarrow> write_result list"
  k_reads :: "sys_call list \<Rightarrow> fd \<Rightarrow> dev_read list"
  k_feedback :: "sys_call list \<Rightarrow> feedback_read list"
  k_recv :: "sys_call list \<Rightarrow> recv_result list"
  k_send :: "sys_call list \<Rightarrow> unit message \<Rightarrow> bool"
  k_cancelled :: "sys_call list \<Rightarrow> bool"
  k_now :: "sys_call list \<Rightarrow> int"
  k_order :: "sys_call list \<Rightarrow> device list \<Rightarrow> device list"

record manager_params =
  mp_virtual_fd :: fd
  mp_virtual_name :: string
  mp_allowed :: "string list"

record mstate =
  ms_devs :: "did \<Rightarrow> physical_device"
  ms_next :: did
  ms_bypath :: "(device, did) gomap"
  ms_byfd :: "(fd, did) gomap"
  ms_cands :: "(device, did) gomap"
  ms_retries :: "(device, retry) gomap"
  ms_latest :: "(string, u64) gomap"
  ms_check :: int
  ms_locks :: lock_state
  ms_trace :: "sys_call list"

abbreviation dv :: "mstate \<Rightarrow> did \<Rightarrow> physical_device" where "dv s d \<equiv> ms_devs s d"

definition upd_dev :: "did \<Rightarrow> (physical_device \<Rightarrow> physical_device) \<Rightarrow> mstate \<Rightarrow> mstate" where
  "upd_dev d f s = s\<lparr>ms_devs := (ms_devs s)(d := f (ms_devs s d))\<rparr>"

definition note_call :: "sys_call \<Rightarrow> mstate \<Rightarrow> mstate" where
  "note_call c s = s\<lparr>ms_trace := ms_trace s @ [c]\<rparr>"

text \<open>The order in which a \<open>range\<close> loop visits the keys of a map is any permutation of them.\<close>

definition range_order :: "kernel_answers \<Rightarrow> mstate \<Rightarrow> device list \<Rightarrow> device list" where
  "range_order K s ks = (let os = k_order K (ms_trace s) ks in if mset os = mset ks then os else ks)"

section \<open>System calls\<close>

definition keys_fd :: "kernel_answers \<Rightarrow> fd \<Rightarrow> mstate \<Rightarrow> (nat + (u16, bool) gomap) \<times> mstate" where
  "keys_fd K f s = (map_sum id current_keys (k_keys K (ms_trace s) f), note_call (CKeys f) s)"

definition grab_fd :: "kernel_answers \<Rightarrow> fd \<Rightarrow> bool \<Rightarrow> mstate \<Rightarrow> nat option \<times> mstate" where
  "grab_fd K f enabled s =
     (let r = k_grab K (ms_trace s) f enabled in (r, note_call (CGrab f enabled (r = None)) s))"

definition epoll_add_fd :: "kernel_answers \<Rightarrow> fd \<Rightarrow> mstate \<Rightarrow> nat option \<times> mstate" where
  "epoll_add_fd K f s = (let r = k_epoll_add K (ms_trace s) f in (r, note_call (CEpollAdd f (r = None)) s))"

text \<open>The queries of \<open>probeCandidate\<close>, each an ioctl with its own buffer.\<close>

definition device_name :: "kernel_answers \<Rightarrow> sys_call list \<Rightarrow> fd \<Rightarrow> nat + string" where
  "device_name K tr f = map_sum id (\<lambda>buffer. str_of_bytes (device_name_of buffer)) (k_ioctl K tr f (eviocgname 256))"

definition device_id :: "kernel_answers \<Rightarrow> sys_call list \<Rightarrow> fd \<Rightarrow> nat + input_id" where
  "device_id K tr f =
     map_sum id (\<lambda>buffer. \<lparr>id_vendor = u16_of_bytes (drop 2 buffer), id_product = u16_of_bytes (drop 4 buffer)\<rparr>)
       (k_ioctl K tr f (ior evdev_base 2 8))"

definition key_capabilities :: "kernel_answers \<Rightarrow> sys_call list \<Rightarrow> fd \<Rightarrow> nat + u8 list" where
  "key_capabilities K tr f = k_ioctl K tr f (eviocgbit (ucast EVKey) (of_nat key_bitmap_bytes))"

definition led_capabilities :: "kernel_answers \<Rightarrow> sys_call list \<Rightarrow> fd \<Rightarrow> nat + u8 list" where
  "led_capabilities K tr f = k_ioctl K tr f (eviocgbit (ucast EVLed) 1)"

definition drain_fd :: "kernel_answers \<Rightarrow> fd \<Rightarrow> mstate \<Rightarrow> (drain_error + unit) \<times> mstate" where
  "drain_fd K f s =
     ((case discard_queued (k_drain K (ms_trace s) f @ [ReadAgain]) of
         None \<Rightarrow> Inr () | Some (r, _) \<Rightarrow> r), note_call (CDrain f) s)"

definition write_fd :: "kernel_answers \<Rightarrow> fd \<Rightarrow> event \<Rightarrow> mstate \<Rightarrow> (write_error + unit) \<times> mstate" where
  "write_fd K f ev s =
     ((case write_event_fd ev [] (k_write K (ms_trace s) f @ [Wrote kernel_event_size]) of
         None \<Rightarrow> Inr () | Some (r, _) \<Rightarrow> r), note_call (CWrite f ev) s)"

text \<open>\<open>sendMessage\<close>: delivered, or the context was cancelled first.\<close>

definition send_message :: "kernel_answers \<Rightarrow> unit message \<Rightarrow> mstate \<Rightarrow> bool \<times> mstate" where
  "send_message K m s =
     (if k_send K (ms_trace s) m then (True, note_call (CSent m) s) else (False, note_call (CDropped m) s))"

text \<open>The cases \<open>None\<close> above do not occur: the scripts end with an answer that ends the loop.\<close>

lemma discard_returns: "discard_queued (script @ [ReadAgain]) \<noteq> None"
  by (induction script) (auto split: read_result.splits)

lemma write_returns: "write_event_fd ev taken (script @ [Wrote kernel_event_size]) \<noteq> None"
proof -
  have "write_loop bs retries taken (script @ [Wrote kernel_event_size]) \<noteq> None"
    if "length bs \<le> kernel_event_size" for bs retries taken
    using that
  proof (induction script arbitrary: bs retries taken)
    case Nil
    then show ?case by (cases bs) (simp_all add: kernel_event_size_def)
  next
    case (Cons r script)
    show ?case
    proof (cases bs)
      case (Cons b bs')
      then show ?thesis
        using Cons.prems Cons.IH[of bs] Cons.IH[of "drop n bs" for n] by (cases r) (auto split: if_splits)
    qed simp
  qed
  then show ?thesis by (simp add: write_event_fd_def)
qed

section \<open>LEDs\<close>

text \<open>The loop of \<open>syncDeviceLEDs\<close> over the codes still to do.\<close>

fun sync_leds_from :: "kernel_answers \<Rightarrow> did \<Rightarrow> u16 list \<Rightarrow> bool \<Rightarrow> mstate \<Rightarrow> (write_error + bool) \<times> mstate" where
  "sync_leds_from K d [] wrote s = (Inr wrote, s)"
| "sync_leds_from K d (code # codes) wrote s =
     (if \<not> pd_leds (dv s d) ! unat code \<or> \<not> lock_known (ms_locks s) code then sync_leds_from K d codes wrote s
      else case write_fd K (pd_fd (dv s d))
             \<lparr>ev_type = EVLed, ev_code = code, ev_value = (if lock_led (ms_locks s) code then 1 else 0)\<rparr> s of
             (Inl e, s') \<Rightarrow> (Inl e, s')
           | (Inr _, s') \<Rightarrow> sync_leds_from K d codes True s')"

definition sync_device_leds :: "kernel_answers \<Rightarrow> did \<Rightarrow> mstate \<Rightarrow> (write_error + unit) \<times> mstate" where
  "sync_device_leds K d s =
     (case sync_leds_from K d [LEDNumLock, LEDCapsLock, LEDScrollLock] False s of
        (Inl e, s') \<Rightarrow> (Inl e, s')
      | (Inr wrote, s') \<Rightarrow> if wrote then write_fd K (pd_fd (dv s' d)) syn_event s' else (Inr (), s'))"

definition sync_leds :: "kernel_answers \<Rightarrow> mstate \<Rightarrow> mstate" where
  "sync_leds K s =
     fold (\<lambda>p s. case gm_get (ms_bypath s) p of None \<Rightarrow> s | Some d \<Rightarrow> snd (sync_device_leds K d s))
       (range_order K s (gm_keys (ms_bypath s))) s"

section \<open>Closing\<close>

definition close_device_fd :: "kernel_answers \<Rightarrow> did \<Rightarrow> mstate \<Rightarrow> mstate" where
  "close_device_fd K d s =
     (let f = pd_fd (dv s d);
          s1 = note_call (CEpollDel f) s;
          (_, s2) = grab_fd K f False s1
      in note_call (CClose f) s2)"

definition close_candidate_fd :: "kernel_answers \<Rightarrow> did \<Rightarrow> mstate \<Rightarrow> mstate" where
  "close_candidate_fd K d s =
     (let f = pd_fd (dv s d); (_, s1) = grab_fd K f False s in note_call (CClose f) s1)"

definition remove_active :: "kernel_answers \<Rightarrow> did \<Rightarrow> mstate \<Rightarrow> mstate" where
  "remove_active K d s =
     (let s1 = close_device_fd K d s
      in s1\<lparr>ms_bypath := gm_del (pd_path (dv s1 d)) (ms_bypath s1), ms_byfd := gm_del (pd_fd (dv s1 d)) (ms_byfd s1)\<rparr>)"

definition remove_candidate :: "kernel_answers \<Rightarrow> did \<Rightarrow> mstate \<Rightarrow> mstate" where
  "remove_candidate K d s =
     (let s1 = close_candidate_fd K d s in s1\<lparr>ms_cands := gm_del (pd_path (dv s1 d)) (ms_cands s1)\<rparr>)"

section \<open>Retries\<close>

definition acquisition_retry_delay :: int where "acquisition_retry_delay = 100000000"
definition max_reacquisition_tries :: nat where "max_reacquisition_tries = 5"

definition new_retry :: "generation \<Rightarrow> retry" where
  "new_retry g = \<lparr>rt_gen = g, rt_attempts = 0, rt_deadline = 0, rt_scheduled = False\<rparr>"

definition begin_attempt :: "retry \<Rightarrow> bool \<times> retry" where
  "begin_attempt r =
     (if rt_attempts r \<ge> max_reacquisition_tries then (False, r)
      else (True, r\<lparr>rt_attempts := rt_attempts r + 1, rt_scheduled := False\<rparr>))"

definition zero_generation :: generation where
  "zero_generation = \<lparr>gn_devpath = [], gn_floor = 0, gn_observed = False\<rparr>"

definition schedule_retry :: "kernel_answers \<Rightarrow> device \<Rightarrow> generation \<Rightarrow> mstate \<Rightarrow> mstate" where
  "schedule_retry K path g s =
     (let st0 = (case gm_get (ms_retries s) path of None \<Rightarrow> new_retry zero_generation | Some r \<Rightarrow> r);
          st = (if rt_gen st0 \<noteq> g then new_retry g else st0)
      in if rt_attempts st \<ge> max_reacquisition_tries
         then s\<lparr>ms_retries := gm_put path (st\<lparr>rt_scheduled := False\<rparr>) (ms_retries s)\<rparr>
         else let now = k_now K (ms_trace s)
              in (note_call CTime s)\<lparr>ms_retries := gm_put path
                   (st\<lparr>rt_deadline := now + acquisition_retry_delay, rt_scheduled := True\<rparr>) (ms_retries s)\<rparr>)"

definition begin_retry :: "device \<Rightarrow> generation \<Rightarrow> mstate \<Rightarrow> bool \<times> mstate" where
  "begin_retry path g s =
     (case gm_get (ms_retries s) path of
        None \<Rightarrow> (True, s)
      | Some st0 \<Rightarrow>
          let st = (if rt_gen st0 \<noteq> g then new_retry g else st0);
              (permitted, st') = begin_attempt st
          in if permitted then (True, s\<lparr>ms_retries := gm_put path st' (ms_retries s)\<rparr>) else (False, s))"

section \<open>Opening and probing\<close>

datatype open_error = OpErrno nat | OpNodeChanged | OpIdentity identity_error | OpSequence sequence_error

definition same_node :: "stat_info \<Rightarrow> stat_info \<Rightarrow> bool" where
  "same_node l r \<longleftrightarrow> st_dev l = st_dev r \<and> st_ino l = st_ino r \<and> st_rdev l = st_rdev r"

definition validate_identity :: "kernel_answers \<Rightarrow> device \<Rightarrow> stat_info \<Rightarrow> mstate \<Rightarrow> (open_error + unit) \<times> mstate" where
  "validate_identity K path opened s =
     ((case k_stat K (ms_trace s) path of
         Inl e \<Rightarrow> Inl (OpErrno e)
       | Inr current \<Rightarrow> if same_node opened current then Inr () else Inl OpNodeChanged), note_call (CLook path) s)"

definition sysfs_gen :: "kernel_answers \<Rightarrow> device \<Rightarrow> mstate \<Rightarrow> (identity_error + generation) \<times> mstate" where
  "sysfs_gen K path s = (sysfs_generation (k_resolve K (ms_trace s)) path, note_call (CLook path) s)"

definition validate_opened :: "kernel_answers \<Rightarrow> fd \<Rightarrow> device \<Rightarrow> string \<Rightarrow> mstate \<Rightarrow> (open_error + unit) \<times> mstate" where
  "validate_opened K f path expected s =
     (case k_fstat K (ms_trace s) f of
        Inl e \<Rightarrow> (Inl (OpErrno e), note_call (CQuery f) s)
      | Inr opened \<Rightarrow>
          (case sysfs_gen K path (note_call (CQuery f) s) of
             (Inl e, s1) \<Rightarrow> (Inl (OpIdentity e), s1)
           | (Inr g, s1) \<Rightarrow>
               if gn_devpath g \<noteq> expected then (Inl OpNodeChanged, s1)
               else validate_identity K path opened s1))"

definition hex_digit :: "nat \<Rightarrow> char" where
  "hex_digit n = (if n < 10 then char_of (48 + n) else char_of (87 + n))"

text \<open>\<open>fmt.Sprintf("%04x:%04x", id.Vendor, id.Product)\<close>\<close>

definition hex4 :: "u16 \<Rightarrow> string" where
  "hex4 w = map (\<lambda>i. hex_digit (unat (drop_bit i w AND 0xf))) [12, 8, 4, 0]"

definition is_allowed_device :: "string list \<Rightarrow> input_id \<Rightarrow> u8 list \<Rightarrow> bool" where
  "is_allowed_device allowed i caps \<longleftrightarrow>
     (hex4 (id_vendor i) @ '':'' @ hex4 (id_product i)) \<in> set allowed \<and> list_ex (\<lambda>b. b \<noteq> 0) caps"

definition led_flags :: "nat + u8 list \<Rightarrow> bool list" where
  "led_flags r =
     (case r of Inl _ \<Rightarrow> replicate 3 False
      | Inr bits \<Rightarrow> map (bit_is_set bits) [LEDNumLock, LEDCapsLock, LEDScrollLock])"

definition new_device :: "device \<Rightarrow> generation \<Rightarrow> fd \<Rightarrow> bool list \<Rightarrow> mstate \<Rightarrow> did \<times> mstate" where
  "new_device path g f leds s =
     (ms_next s, s\<lparr>ms_devs := (ms_devs s)(ms_next s :=
        \<lparr>pd_path = path, pd_gen = g, pd_fd = f, pd_frame = [], pd_dropping = False, pd_leds = leds\<rparr>),
        ms_next := Suc (ms_next s)\<rparr>)"

definition classify_capabilities :: "nat + u8 list \<Rightarrow> nat + bool" where
  "classify_capabilities answer =
     (case answer of Inl e \<Rightarrow> Inl e | Inr caps \<Rightarrow> Inr (looks_like_keyboard caps \<or> looks_like_numpad caps))"

text \<open>What \<open>probeCandidate\<close> decides of a descriptor: an error, not a keyboard, or its LEDs.\<close>

definition probe_fd :: "kernel_answers \<Rightarrow> manager_params \<Rightarrow> fd \<Rightarrow> mstate \<Rightarrow> (open_error + bool list option) \<times> mstate" where
  "probe_fd K P f s =
     (let s1 = note_call (CQuery f) s in
      case device_name K (ms_trace s) f of
        Inl e \<Rightarrow> (Inl (OpErrno e), s1)
      | Inr name \<Rightarrow>
          if name = mp_virtual_name P then (Inr None, s1)
          else let s2 = note_call (CQuery f) s1;
                   caps = key_capabilities K (ms_trace s1) f in
            case classify_capabilities caps of
              Inl e \<Rightarrow> (Inl (OpErrno e), s2)
            | Inr keyboard \<Rightarrow>
                let ask = (\<not> keyboard \<and> mp_allowed P \<noteq> []);
                    s3 = (if ask then note_call (CQuery f) s2 else s2)
                in case (if ask then map_sum id (\<lambda>i. is_allowed_device (mp_allowed P) i (case caps of Inl _ \<Rightarrow> [] | Inr c \<Rightarrow> c))
                           (device_id K (ms_trace s2) f) else Inr keyboard) of
                     Inl e \<Rightarrow> (Inl (OpErrno e), s3)
                   | Inr usable \<Rightarrow>
                       if usable then (Inr (Some (led_flags (led_capabilities K (ms_trace s3) f))), note_call (CQuery f) s3)
                       else (Inr None, s3))"

definition probe_candidate :: "kernel_answers \<Rightarrow> manager_params \<Rightarrow> device \<Rightarrow> generation \<Rightarrow> fd \<Rightarrow> mstate \<Rightarrow>
    (open_error + did option) \<times> mstate" where
  "probe_candidate K P path g f s =
     (case probe_fd K P f s of
        (Inl e, s1) \<Rightarrow> (Inl e, note_call (CClose f) s1)
      | (Inr None, s1) \<Rightarrow> (Inr None, note_call (CClose f) s1)
      | (Inr (Some leds), s1) \<Rightarrow> let (d, s2) = new_device path g f leds s1 in (Inr (Some d), s2))"

definition open_node :: "kernel_answers \<Rightarrow> device \<Rightarrow> mstate \<Rightarrow> (nat + fd) \<times> mstate" where
  "open_node K path s =
     (case k_open K (ms_trace s) path of
        Inl e \<Rightarrow> (Inl e, note_call (CLook path) s)
      | Inr f \<Rightarrow> (Inr f, note_call (COpened path f) s))"

definition open_candidate :: "kernel_answers \<Rightarrow> manager_params \<Rightarrow> device \<Rightarrow> generation \<Rightarrow> mstate \<Rightarrow>
    (open_error + did option) \<times> mstate" where
  "open_candidate K P path g s =
     (case open_node K path s of
        (Inl e, s1) \<Rightarrow> (Inl (OpErrno e), s1)
      | (Inr f, s1) \<Rightarrow>
          (case validate_opened K f path (gn_devpath g) s1 of
             (Inl e, s2) \<Rightarrow> (Inl e, note_call (CClose f) s2)
           | (Inr _, s2) \<Rightarrow> probe_candidate K P path g f s2))"

text \<open>The generation of a node with the sequence number sampled after its identity.\<close>

definition sampled_generation :: "kernel_answers \<Rightarrow> device \<Rightarrow> mstate \<Rightarrow> (open_error + generation) \<times> mstate" where
  "sampled_generation K path s =
     (case sysfs_gen K path s of
        (Inl e, s1) \<Rightarrow> (Inl (OpIdentity e), s1)
      | (Inr g, s1) \<Rightarrow>
          (case kernel_uevent_sequence (k_seqnum K (ms_trace s1)) of
             Inl e \<Rightarrow> (Inl (OpSequence e), note_call (CLook path) s1)
           | Inr n \<Rightarrow> (Inr (g\<lparr>gn_floor := n\<rparr>), note_call (CLook path) s1)))"

text \<open>
  \<open>openEnumeratedCandidate\<close>: the device or the error, and the generation, which is absent where the code
  returns its zero value.  When \<open>open\<close> fails and so does the sampling, the two errors are joined.
\<close>

definition open_enumerated :: "kernel_answers \<Rightarrow> manager_params \<Rightarrow> device \<Rightarrow> mstate \<Rightarrow>
    ((open_error list + did option) \<times> generation option) \<times> mstate" where
  "open_enumerated K P path s =
     (case open_node K path s of
        (Inl e, s1) \<Rightarrow>
          (case sampled_generation K path s1 of
             (Inl e', s2) \<Rightarrow> ((Inl [OpErrno e, e'], None), s2)
           | (Inr g, s2) \<Rightarrow> ((Inl [OpErrno e], Some g), s2))
      | (Inr f, s1) \<Rightarrow>
          (case k_fstat K (ms_trace s1) f of
             Inl e \<Rightarrow> ((Inl [OpErrno e], None), note_call (CClose f) (note_call (CQuery f) s1))
           | Inr opened \<Rightarrow>
               (case sampled_generation K path (note_call (CQuery f) s1) of
                  (Inl e, s2) \<Rightarrow> ((Inl [e], None), note_call (CClose f) s2)
                | (Inr g, s2) \<Rightarrow>
                    (case validate_identity K path opened s2 of
                       (Inl e, s3) \<Rightarrow> ((Inl [e], Some g), note_call (CClose f) s3)
                     | (Inr _, s3) \<Rightarrow>
                         (case probe_candidate K P path g f s3 of
                            (Inl e, s4) \<Rightarrow> ((Inl [e], Some g), s4)
                          | (Inr d, s4) \<Rightarrow> ((Inr d, Some g), s4))))))"

section \<open>Acquiring\<close>

text \<open>\<open>acquireIdleDevice\<close>: an error, a device that stays a candidate, or the keys of the grabbed device.\<close>

datatype acquire_error =
    KeysFailed nat
  | DrainFailed drain_error
  | GrabFailed nat
  | UngrabFailed nat
  | EpollFailed nat

definition acquire_grabbed :: "kernel_answers \<Rightarrow> fd \<Rightarrow> mstate \<Rightarrow>
    (acquire_error + (u16, bool) gomap option) \<times> mstate" where
  "acquire_grabbed K f s =
     (case keys_fd K f s of
        (Inl e, s1) \<Rightarrow> (Inl (KeysFailed e), snd (grab_fd K f False s1))
      | (Inr pressed, s1) \<Rightarrow>
          if pressed \<noteq> [] then
            (case grab_fd K f False s1 of
               (Some e, s2) \<Rightarrow> (Inl (UngrabFailed e), s2)
             | (None, s2) \<Rightarrow> (Inr None, s2))
          else
            (case epoll_add_fd K f s1 of
               (Some e, s2) \<Rightarrow> (Inl (EpollFailed e), snd (grab_fd K f False s2))
             | (None, s2) \<Rightarrow> (Inr (Some pressed), s2)))"

definition acquire_idle :: "kernel_answers \<Rightarrow> did \<Rightarrow> mstate \<Rightarrow>
    (acquire_error + (u16, bool) gomap option) \<times> mstate" where
  "acquire_idle K d s =
     (let f = pd_fd (dv s d) in
      case keys_fd K f s of
        (Inl e, s1) \<Rightarrow> (Inl (KeysFailed e), s1)
      | (Inr p1, s1) \<Rightarrow>
          if p1 \<noteq> [] then (Inr None, s1)
          else (case drain_fd K f s1 of
                  (Inl e, s2) \<Rightarrow> (Inl (DrainFailed e), s2)
                | (Inr _, s2) \<Rightarrow>
                    (case keys_fd K f s2 of
                       (Inl e, s3) \<Rightarrow> (Inl (KeysFailed e), s3)
                     | (Inr p2, s3) \<Rightarrow>
                         if p2 \<noteq> [] then (Inr None, s3)
                         else (case grab_fd K f True s3 of
                                 (Some e, s4) \<Rightarrow> (Inl (GrabFailed e), s4)
                               | (None, s4) \<Rightarrow> acquire_grabbed K f s4))))"

end
