(* ===== verification/Manager_Handlers.thy ===== *)
theory Manager_Handlers
  imports Manager_State
begin

text \<open>
  \<open>internal/linuxinput/manager_linux.go\<close>, second part: the candidates, the udev events, reading an active
  keyboard, the feedback of the compositor, and the loop.  A handler returns an error when the run must
  stop, and the state it leaves.
\<close>

section \<open>Errors that end a run\<close>

datatype manager_error =
    Cancelled
  | NoUeventOrder
  | MonitorClosed
  | MonitorRead nat
  | MonitorPanic
  | FeedbackClosed
  | FeedbackRead nat
  | FeedbackDecode
  | WakeUnexpected
  | EpollWaitFailed nat

text \<open>A delivered message lets the handler go on.\<close>

definition send_or_stop :: "kernel_answers \<Rightarrow> unit message \<Rightarrow> mstate \<Rightarrow> (manager_error + unit) \<times> mstate" where
  "send_or_stop K m s = (case send_message K m s of (True, s') \<Rightarrow> (Inr (), s') | (False, s') \<Rightarrow> (Inl Cancelled, s'))"

section \<open>Candidates\<close>

datatype activate_error = AcquireFailed acquire_error | AnnounceCancelled

definition activate_device :: "kernel_answers \<Rightarrow> did \<Rightarrow> mstate \<Rightarrow> (activate_error + unit) \<times> mstate" where
  "activate_device K d s =
     (case acquire_idle K d s of
        (Inl e, s1) \<Rightarrow> (Inl (AcquireFailed e), s1)
      | (Inr None, s1) \<Rightarrow> (Inr (), s1)
      | (Inr (Some pressed), s1) \<Rightarrow>
          let path = pd_path (dv s1 d);
              s2 = s1\<lparr>ms_cands := gm_del path (ms_cands s1), ms_retries := gm_del path (ms_retries s1),
                      ms_bypath := gm_put path d (ms_bypath s1), ms_byfd := gm_put (pd_fd (dv s1 d)) d (ms_byfd s1)\<rparr>;
              (_, s3) = sync_device_leds K d s2
          in case send_message K (resync_message path pressed) s3 of
               (True, s4) \<Rightarrow> (Inr (), s4)
             | (False, s4) \<Rightarrow> (Inl AnnounceCancelled, s4))"

text \<open>A failed activation closes the device and schedules a retry.\<close>

definition activate_or_retry :: "kernel_answers \<Rightarrow> did \<Rightarrow> mstate \<Rightarrow> mstate" where
  "activate_or_retry K d s =
     (case activate_device K d s of
        (Inl _, s1) \<Rightarrow> (let s2 = remove_candidate K d s1 in schedule_retry K (pd_path (dv s2 d)) (pd_gen (dv s2 d)) s2)
      | (Inr _, s1) \<Rightarrow> s1)"

definition accept_candidate :: "kernel_answers \<Rightarrow> did \<Rightarrow> mstate \<Rightarrow> mstate" where
  "accept_candidate K d s =
     (let path = pd_path (dv s d); g = pd_gen (dv s d);
          s1 = s\<lparr>ms_cands := gm_put path d (ms_cands s)\<rparr>
      in case keys_fd K (pd_fd (dv s1 d)) s1 of
           (Inl e, s2) \<Rightarrow> schedule_retry K path g (remove_candidate K d s2)
         | (Inr pressed, s2) \<Rightarrow> if pressed \<noteq> [] then s2 else activate_or_retry K d s2)"

definition consider_node :: "kernel_answers \<Rightarrow> manager_params \<Rightarrow> device \<Rightarrow> generation \<Rightarrow> mstate \<Rightarrow> mstate" where
  "consider_node K P path g s =
     (if gm_get (ms_bypath s) path \<noteq> None \<or> gm_get (ms_cands s) path \<noteq> None then s
      else case open_candidate K P path g s of
             (Inl e, s1) \<Rightarrow>
               if e = OpNodeChanged then s1\<lparr>ms_retries := gm_del path (ms_retries s1)\<rparr>
               else schedule_retry K path g s1
           | (Inr None, s1) \<Rightarrow> s1\<lparr>ms_retries := gm_del path (ms_retries s1)\<rparr>
           | (Inr (Some d), s1) \<Rightarrow> accept_candidate K d s1)"

section \<open>Udev events\<close>

text \<open>An addition that a tracked device or a retry was waiting for: the device is known already.\<close>

definition adopts_add :: "generation \<Rightarrow> generation \<Rightarrow> bool" where
  "adopts_add current observed \<longleftrightarrow> gn_devpath current = gn_devpath observed \<and> \<not> gn_observed current"

definition adopt_retry_add :: "device_event \<Rightarrow> generation \<Rightarrow> mstate \<Rightarrow> generation \<times> mstate" where
  "adopt_retry_add ev g s =
     (case gm_get (ms_retries s) (de_path ev) of
        None \<Rightarrow> (g, s)
      | Some st \<Rightarrow>
          if adopts_add (rt_gen st) g then
            let g' = adopt_observed_add (rt_gen st) g
            in (g', s\<lparr>ms_retries := gm_put (de_path ev) (st\<lparr>rt_gen := g'\<rparr>) (ms_retries s)\<rparr>)
          else (g, s))"

definition adopting :: "(device, did) gomap \<Rightarrow> device \<Rightarrow> generation \<Rightarrow> mstate \<Rightarrow> did option" where
  "adopting m path g s =
     (case gm_get m path of None \<Rightarrow> None | Some d \<Rightarrow> if adopts_add (pd_gen (dv s d)) g then Some d else None)"

definition adopt_gen :: "did \<Rightarrow> generation \<Rightarrow> mstate \<Rightarrow> mstate" where
  "adopt_gen d g s = upd_dev d (\<lambda>p. p\<lparr>pd_gen := adopt_observed_add (pd_gen p) g\<rparr>) s"

text \<open>An addition that replaces what is tracked under its path.\<close>

definition replace_candidate :: "kernel_answers \<Rightarrow> device \<Rightarrow> mstate \<Rightarrow> mstate" where
  "replace_candidate K path s =
     (case gm_get (ms_cands s) path of None \<Rightarrow> s | Some d \<Rightarrow> remove_candidate K d s)"

definition replace_active :: "kernel_answers \<Rightarrow> device \<Rightarrow> mstate \<Rightarrow> (manager_error + unit) \<times> mstate" where
  "replace_active K path s =
     (case gm_get (ms_bypath s) path of
        None \<Rightarrow> (Inr (), s)
      | Some d \<Rightarrow> send_or_stop K (removed_message path) (remove_active K d s))"

definition handle_add :: "kernel_answers \<Rightarrow> manager_params \<Rightarrow> device_event \<Rightarrow> mstate \<Rightarrow> (manager_error + unit) \<times> mstate" where
  "handle_add K P ev s =
     (let path = de_path ev;
          (g, s1) = adopt_retry_add ev (generation_from_event ev) s
      in case adopting (ms_bypath s1) path g s1 of
           Some d \<Rightarrow> (Inr (), adopt_gen d g s1)
         | None \<Rightarrow>
             (case adopting (ms_cands s1) path g s1 of
                Some d \<Rightarrow>
                  let s2 = adopt_gen d g s1
                  in (Inr (), case gm_get (ms_retries s2) path of
                        None \<Rightarrow> s2
                      | Some st \<Rightarrow> s2\<lparr>ms_retries := gm_put path (st\<lparr>rt_gen := pd_gen (dv s2 d)\<rparr>) (ms_retries s2)\<rparr>)
              | None \<Rightarrow>
                  (case replace_active K path s1 of
                     (Inl e, s2) \<Rightarrow> (Inl e, s2)
                   | (Inr _, s2) \<Rightarrow>
                       let s3 = replace_candidate K path s2
                       in if gm_get (ms_bypath s3) path \<noteq> None \<or> gm_get (ms_cands s3) path \<noteq> None then (Inr (), s3)
                          else (case begin_retry path g s3 of
                                  (False, s4) \<Rightarrow> (Inr (), s4)
                                | (True, s4) \<Rightarrow> (Inr (), consider_node K P path g s4)))))"

definition handle_remove :: "kernel_answers \<Rightarrow> device_event \<Rightarrow> mstate \<Rightarrow> (manager_error + unit) \<times> mstate" where
  "handle_remove K ev s =
     (let path = de_path ev;
          s1 = (case gm_get (ms_retries s) path of
                  None \<Rightarrow> s
                | Some st \<Rightarrow> if matches_removal (rt_gen st) ev then s\<lparr>ms_retries := gm_del path (ms_retries s)\<rparr> else s);
          s2 = (case gm_get (ms_cands s1) path of
                  None \<Rightarrow> s1
                | Some d \<Rightarrow> if matches_removal (pd_gen (dv s1 d)) ev then remove_candidate K d s1 else s1)
      in case gm_get (ms_bypath s2) path of
           None \<Rightarrow> (Inr (), s2)
         | Some d \<Rightarrow>
             if matches_removal (pd_gen (dv s2 d)) ev
             then send_or_stop K (removed_message path) (remove_active K d s2)
             else (Inr (), s2))"

definition handle_udev_event :: "kernel_answers \<Rightarrow> manager_params \<Rightarrow> device_event \<Rightarrow> mstate \<Rightarrow> (manager_error + unit) \<times> mstate" where
  "handle_udev_event K P ev s =
     (let (fresh, latest) = accept_sequence ev (ms_latest s);
          s1 = s\<lparr>ms_latest := latest\<rparr>
      in if \<not> fresh then (Inr (), s1)
         else if de_action ev = ''remove'' then handle_remove K ev s1 else handle_add K P ev s1)"

fun handle_udev_events :: "kernel_answers \<Rightarrow> manager_params \<Rightarrow> device_event list \<Rightarrow> mstate \<Rightarrow> (manager_error + unit) \<times> mstate" where
  "handle_udev_events K P [] s = (Inr (), s)"
| "handle_udev_events K P (ev # evs) s =
     (case handle_udev_event K P ev s of
        (Inl e, s') \<Rightarrow> (Inl e, s')
      | (Inr _, s') \<Rightarrow> handle_udev_events K P evs s')"

text \<open>\<open>hangup\<close>: the descriptor reported an error or a hangup.\<close>

definition handle_udev_ready :: "kernel_answers \<Rightarrow> manager_params \<Rightarrow> bool \<Rightarrow> mstate \<Rightarrow> (manager_error + unit) \<times> mstate" where
  "handle_udev_ready K P hangup s =
     (if hangup then (Inl MonitorClosed, s)
      else case read_device_events [] (k_recv K (ms_trace s) @ [RecvAgain]) of
             None \<Rightarrow> (Inl MonitorPanic, s)
           | Some (evs, Some e) \<Rightarrow> (Inl (MonitorRead e), note_call CTime s)
           | Some (evs, None) \<Rightarrow> handle_udev_events K P evs (note_call CTime s))"

section \<open>Reading an active keyboard\<close>

datatype read_error = ReadCancelled | ReadErrno nat | ReadShort nat | ReadKeys nat

definition is_report :: "event \<Rightarrow> bool" where
  "is_report ev \<longleftrightarrow> ev_type ev = EVSyn \<and> ev_code ev = SynReport"

definition is_dropped :: "event \<Rightarrow> bool" where
  "is_dropped ev \<longleftrightarrow> ev_type ev = EVSyn \<and> ev_code ev = SynDropped"

text \<open>One event of the loop of \<open>readReady\<close>.\<close>

definition read_event :: "kernel_answers \<Rightarrow> did \<Rightarrow> event \<Rightarrow> mstate \<Rightarrow> (read_error + unit) \<times> mstate" where
  "read_event K d ev s =
     (let path = pd_path (dv s d) in
      if pd_dropping (dv s d) then
        (if is_report ev then
           (case keys_fd K (pd_fd (dv s d)) s of
              (Inl e, s1) \<Rightarrow> (Inl (ReadKeys e), s1)
            | (Inr pressed, s1) \<Rightarrow>
                (case send_message K (resync_message path pressed) s1 of
                   (False, s2) \<Rightarrow> (Inl ReadCancelled, s2)
                 | (True, s2) \<Rightarrow> (Inr (), upd_dev d (\<lambda>p. p\<lparr>pd_dropping := False\<rparr>) s2)))
         else (Inr (), s))
      else if is_dropped ev then (Inr (), upd_dev d (\<lambda>p. p\<lparr>pd_frame := [], pd_dropping := True\<rparr>) s)
      else
        let s1 = upd_dev d (\<lambda>p. p\<lparr>pd_frame := pd_frame p @ [ev]\<rparr>) s
        in if is_report ev then
             (case send_message K (frame_message \<lparr>fr_device = path, fr_events = pd_frame (dv s1 d)\<rparr>) s1 of
                (False, s2) \<Rightarrow> (Inl ReadCancelled, s2)
              | (True, s2) \<Rightarrow> (Inr (), upd_dev d (\<lambda>p. p\<lparr>pd_frame := []\<rparr>) s2))
           else (Inr (), s1))"

fun read_events :: "kernel_answers \<Rightarrow> did \<Rightarrow> event list \<Rightarrow> mstate \<Rightarrow> (read_error + unit) \<times> mstate" where
  "read_events K d [] s = (Inr (), s)"
| "read_events K d (ev # evs) s =
     (case read_event K d ev s of (Inl e, s') \<Rightarrow> (Inl e, s') | (Inr _, s') \<Rightarrow> read_events K d evs s')"

abbreviation EIO :: nat where "EIO \<equiv> 5"
abbreviation EAGAIN :: nat where "EAGAIN \<equiv> 11"
abbreviation ENODEV :: nat where "ENODEV \<equiv> 19"
abbreviation ENOENT :: nat where "ENOENT \<equiv> 2"

text \<open>The reads of \<open>readReady\<close>: whether the device is gone.\<close>

fun read_chunks :: "kernel_answers \<Rightarrow> did \<Rightarrow> dev_read list \<Rightarrow> mstate \<Rightarrow> (read_error + bool) \<times> mstate" where
  "read_chunks K d [] s = (Inr False, s)"
| "read_chunks K d (DevErrno e # reads) s =
     (if e = EAGAIN then (Inr False, s) else if e = ENODEV \<or> e = EIO then (Inr True, s) else (Inl (ReadErrno e), s))"
| "read_chunks K d (DevData bs # reads) s =
     (if bs = [] then (Inr True, s)
      else case decode_events bs of
             Inl (ShortRecord n) \<Rightarrow> (Inl (ReadShort n), s)
           | Inr evs \<Rightarrow>
               (case read_events K d evs s of
                  (Inl e, s') \<Rightarrow> (Inl e, s')
                | (Inr _, s') \<Rightarrow> read_chunks K d reads s'))"

definition read_ready :: "kernel_answers \<Rightarrow> did \<Rightarrow> mstate \<Rightarrow> (read_error + bool) \<times> mstate" where
  "read_ready K d s =
     (let f = pd_fd (dv s d) in read_chunks K d (k_reads K (ms_trace s) f) (note_call (CRead f) s))"

definition handle_device_ready :: "kernel_answers \<Rightarrow> fd \<Rightarrow> bool \<Rightarrow> mstate \<Rightarrow> (manager_error + unit) \<times> mstate" where
  "handle_device_ready K f hangup s =
     (case gm_get (ms_byfd s) f of
        None \<Rightarrow> (Inr (), s)
      | Some d \<Rightarrow>
          (case read_ready K d s of
             (Inl ReadCancelled, s1) \<Rightarrow> (Inl Cancelled, s1)
           | (r, s1) \<Rightarrow>
               let removed = (r = Inr True) in
               if r = Inr False \<and> \<not> hangup then (Inr (), s1)
               else (case send_or_stop K (removed_message (pd_path (dv s1 d))) (remove_active K d s1) of
                       (Inl e, s2) \<Rightarrow> (Inl e, s2)
                     | (Inr _, s2) \<Rightarrow>
                         (Inr (), if removed then s2
                                  else schedule_retry K (pd_path (dv s2 d)) (pd_gen (dv s2 d)) s2))))"

section \<open>Feedback of the compositor\<close>

text \<open>The LED values of the events, the later ones overwriting the earlier ones.\<close>

definition led_updates :: "event list \<Rightarrow> bool option list \<Rightarrow> bool option list" where
  "led_updates evs vals =
     fold (\<lambda>ev vs. if ev_type ev \<noteq> EVLed \<or> ev_code ev > LEDScrollLock then vs
                   else vs[unat (ev_code ev) := Some (ev_value ev \<noteq> 0)]) evs vals"

fun read_feedback :: "feedback_read list \<Rightarrow> bool option list \<Rightarrow> manager_error + bool option list" where
  "read_feedback [] vals = Inr vals"
| "read_feedback (FbInterrupted # rs) vals = read_feedback rs vals"
| "read_feedback (FbErrno e # rs) vals = (if e = EAGAIN then Inr vals else Inl (FeedbackRead e))"
| "read_feedback (FbData bs # rs) vals =
     (if bs = [] then Inl FeedbackClosed
      else case decode_events bs of
             Inl _ \<Rightarrow> Inl FeedbackDecode
           | Inr evs \<Rightarrow> read_feedback rs (led_updates evs vals))"

definition apply_led :: "u16 \<Rightarrow> bool option \<Rightarrow> bool \<times> lock_state \<Rightarrow> bool \<times> lock_state" where
  "apply_led code v acc =
     (case v of None \<Rightarrow> acc
      | Some b \<Rightarrow> let (c, locks) = set_led code b (snd acc) in (c \<or> fst acc, locks))"

definition apply_leds :: "bool option list \<Rightarrow> lock_state \<Rightarrow> bool \<times> lock_state" where
  "apply_leds vals locks =
     fold (\<lambda>code. apply_led code (vals ! unat code)) [LEDNumLock, LEDCapsLock, LEDScrollLock] (False, locks)"

definition handle_feedback_ready :: "kernel_answers \<Rightarrow> bool \<Rightarrow> mstate \<Rightarrow> (manager_error + unit) \<times> mstate" where
  "handle_feedback_ready K hangup s =
     (if hangup then (Inl FeedbackClosed, s)
      else case read_feedback (k_feedback K (ms_trace s)) (replicate 3 None) of
             Inl e \<Rightarrow> (Inl e, note_call CTime s)
           | Inr vals \<Rightarrow>
               let (changed, locks) = apply_leds vals (ms_locks s);
                   s1 = (note_call CTime s)\<lparr>ms_locks := locks\<rparr>
               in (Inr (), if changed then sync_leds K s1 else s1))"

section \<open>Maintenance\<close>

definition candidate_check_interval :: int where "candidate_check_interval = 20000000"

definition check_candidate :: "kernel_answers \<Rightarrow> device \<Rightarrow> mstate \<Rightarrow> mstate" where
  "check_candidate K path s =
     (case gm_get (ms_cands s) path of
        None \<Rightarrow> s
      | Some d \<Rightarrow>
          (case keys_fd K (pd_fd (dv s d)) s of
             (Inl e, s1) \<Rightarrow>
               let s2 = remove_candidate K d s1
               in if e = ENODEV \<or> e = ENOENT then s2 else schedule_retry K (pd_path (dv s2 d)) (pd_gen (dv s2 d)) s2
           | (Inr pressed, s1) \<Rightarrow> if pressed \<noteq> [] then s1 else activate_or_retry K d s1))"

definition check_candidates :: "kernel_answers \<Rightarrow> int \<Rightarrow> mstate \<Rightarrow> mstate" where
  "check_candidates K now s =
     (if now < ms_check s then s
      else (fold (check_candidate K) (range_order K s (gm_keys (ms_cands s))) s)
             \<lparr>ms_check := now + candidate_check_interval\<rparr>)"

definition process_retry :: "kernel_answers \<Rightarrow> manager_params \<Rightarrow> int \<Rightarrow> device \<Rightarrow> mstate \<Rightarrow> mstate" where
  "process_retry K P now path s =
     (case gm_get (ms_retries s) path of
        None \<Rightarrow> s
      | Some st \<Rightarrow>
          if \<not> rt_scheduled st \<or> now < rt_deadline st then s
          else (case begin_retry path (rt_gen st) s of
                  (False, s1) \<Rightarrow> s1
                | (True, s1) \<Rightarrow> consider_node K P path (rt_gen st) s1))"

definition process_retries :: "kernel_answers \<Rightarrow> manager_params \<Rightarrow> int \<Rightarrow> mstate \<Rightarrow> mstate" where
  "process_retries K P now s = fold (process_retry K P now) (range_order K s (gm_keys (ms_retries s))) s"

text \<open>\<open>epollTimeout\<close>: milliseconds to the earliest deadline, rounded up; \<open>-1\<close> to wait for ever.\<close>

definition earlier_deadline :: "retry \<Rightarrow> int option \<Rightarrow> int option" where
  "earlier_deadline st deadline =
     (if \<not> rt_scheduled st \<or> (case deadline of None \<Rightarrow> False | Some t \<Rightarrow> \<not> rt_deadline st < t) then deadline
      else Some (rt_deadline st))"

definition next_deadline :: "mstate \<Rightarrow> int option" where
  "next_deadline s =
     fold (\<lambda>(_, st). earlier_deadline st) (ms_retries s) (if ms_cands s \<noteq> [] then Some (ms_check s) else None)"

definition epoll_timeout :: "int \<Rightarrow> mstate \<Rightarrow> int" where
  "epoll_timeout now s =
     (case next_deadline s of
        None \<Rightarrow> -1
      | Some t \<Rightarrow> let delay = t - now in if delay \<le> 0 then 0 else (delay + 1000000 - 1) div 1000000)"

section \<open>The loop\<close>

record ready =
  rd_fd :: fd
  rd_hangup :: bool

record loop_fds =
  lf_monitor :: fd
  lf_wake :: fd

definition handle_wake_ready :: "kernel_answers \<Rightarrow> mstate \<Rightarrow> (manager_error + unit) \<times> mstate" where
  "handle_wake_ready K s = (Inl (if k_cancelled K (ms_trace s) then Cancelled else WakeUnexpected), s)"

definition handle_ready :: "kernel_answers \<Rightarrow> manager_params \<Rightarrow> loop_fds \<Rightarrow> ready \<Rightarrow> mstate \<Rightarrow> (manager_error + unit) \<times> mstate" where
  "handle_ready K P F r s =
     (if rd_fd r = lf_monitor F then handle_udev_ready K P (rd_hangup r) s
      else if rd_fd r = lf_wake F then handle_wake_ready K s
      else if rd_fd r = mp_virtual_fd P then handle_feedback_ready K (rd_hangup r) s
      else handle_device_ready K (rd_fd r) (rd_hangup r) s)"

fun handle_all :: "kernel_answers \<Rightarrow> manager_params \<Rightarrow> loop_fds \<Rightarrow> ready list \<Rightarrow> mstate \<Rightarrow> (manager_error + unit) \<times> mstate" where
  "handle_all K P F [] s = (Inr (), s)"
| "handle_all K P F (r # rs) s =
     (case handle_ready K P F r s of (Inl e, s') \<Rightarrow> (Inl e, s') | (Inr _, s') \<Rightarrow> handle_all K P F rs s')"

text \<open>The answer of one \<open>epoll_wait\<close>.\<close>

datatype epoll_answer = EpReady "ready list" | EpInterrupted | EpErrno nat

text \<open>One pass of \<open>loop\<close>: \<open>None\<close> in the result when the loop goes on, else what it returns.\<close>

definition loop_pass :: "kernel_answers \<Rightarrow> manager_params \<Rightarrow> loop_fds \<Rightarrow> epoll_answer \<Rightarrow> mstate \<Rightarrow>
    (manager_error + unit) option \<times> mstate" where
  "loop_pass K P F answer s =
     (if k_cancelled K (ms_trace s) then (Some (Inr ()), s)
      else let now = k_now K (ms_trace s);
               s1 = process_retries K P now (check_candidates K now (note_call CTime s))
           in case answer of
                EpInterrupted \<Rightarrow> (None, s1)
              | EpErrno e \<Rightarrow> (Some (Inl (EpollWaitFailed e)), s1)
              | EpReady rs \<Rightarrow>
                  (case handle_all K P F rs s1 of
                     (Inl e, s2) \<Rightarrow> (Some (Inl e), s2)
                   | (Inr _, s2) \<Rightarrow> (None, s2)))"

text \<open>The passes the answers allow; the result is \<open>None\<close> when the loop still runs after them.\<close>

fun run_loop :: "kernel_answers \<Rightarrow> manager_params \<Rightarrow> loop_fds \<Rightarrow> epoll_answer list \<Rightarrow> mstate \<Rightarrow>
    (manager_error + unit) option \<times> mstate" where
  "run_loop K P F [] s = (None, s)"
| "run_loop K P F (a # as) s =
     (case loop_pass K P F a s of
        (None, s') \<Rightarrow> run_loop K P F as s'
      | (Some r, s') \<Rightarrow> (Some r, s'))"

section \<open>Enumeration\<close>

definition is_sequence_failure :: "open_error \<Rightarrow> bool" where
  "is_sequence_failure e = (case e of OpSequence _ \<Rightarrow> True | _ \<Rightarrow> False)"

definition enumerate_path :: "kernel_answers \<Rightarrow> manager_params \<Rightarrow> device \<Rightarrow> mstate \<Rightarrow> (manager_error + unit) \<times> mstate" where
  "enumerate_path K P path s =
     (case open_enumerated K P path s of
        ((Inl es, g), s1) \<Rightarrow>
          if list_ex is_sequence_failure es
          then (Inl NoUeventOrder, s1)
          else if OpNodeChanged \<in> set es then (Inr (), s1)
          else (Inr (), case g of
                  None \<Rightarrow> s1
                | Some g' \<Rightarrow> if gn_devpath g' \<noteq> [] then schedule_retry K path g' s1 else s1)
      | ((Inr None, g), s1) \<Rightarrow> (Inr (), s1)
      | ((Inr (Some d), g), s1) \<Rightarrow> (Inr (), accept_candidate K d s1))"

fun enumerate_paths :: "kernel_answers \<Rightarrow> manager_params \<Rightarrow> device list \<Rightarrow> mstate \<Rightarrow> (manager_error + unit) \<times> mstate" where
  "enumerate_paths K P [] s = (Inr (), (note_call CTime s)\<lparr>ms_check := k_now K (ms_trace s)\<rparr>)"
| "enumerate_paths K P (p # ps) s =
     (case enumerate_path K P p s of (Inl e, s') \<Rightarrow> (Inl e, s') | (Inr _, s') \<Rightarrow> enumerate_paths K P ps s')"

section \<open>Shutdown\<close>

definition close_actives :: "kernel_answers \<Rightarrow> mstate \<Rightarrow> mstate" where
  "close_actives K s =
     fold (\<lambda>p s. case gm_get (ms_bypath s) p of None \<Rightarrow> s | Some d \<Rightarrow> remove_active K d s)
       (range_order K s (gm_keys (ms_bypath s))) s"

definition close_candidates :: "kernel_answers \<Rightarrow> mstate \<Rightarrow> mstate" where
  "close_candidates K s =
     fold (\<lambda>p s. case gm_get (ms_cands s) p of None \<Rightarrow> s | Some d \<Rightarrow> remove_candidate K d s)
       (range_order K s (gm_keys (ms_cands s))) s"

definition close_manager :: "kernel_answers \<Rightarrow> mstate \<Rightarrow> mstate" where
  "close_manager K s = close_candidates K (close_actives K s)"

definition new_manager_state :: mstate where
  "new_manager_state =
     \<lparr>ms_devs = (\<lambda>_. \<lparr>pd_path = [], pd_gen = zero_generation, pd_fd = -1, pd_frame = [], pd_dropping = False, pd_leds = []\<rparr>),
      ms_next = 0, ms_bypath = [], ms_byfd = [], ms_cands = [], ms_retries = [], ms_latest = [], ms_check = 0,
      ms_locks = zero_locks, ms_trace = []\<rparr>"

text \<open>\<open>Run\<close> after the state is made: enumeration, the loop, and the deferred \<open>close\<close>.\<close>

definition manager_run :: "kernel_answers \<Rightarrow> manager_params \<Rightarrow> loop_fds \<Rightarrow> device list \<Rightarrow> epoll_answer list \<Rightarrow>
    (manager_error + unit) option \<times> mstate" where
  "manager_run K P F paths answers =
     (case enumerate_paths K P paths new_manager_state of
        (Inl e, s) \<Rightarrow> (Some (Inl e), close_manager K s)
      | (Inr _, s) \<Rightarrow>
          (case run_loop K P F answers s of
             (None, s') \<Rightarrow> (None, s')
           | (Some r, s') \<Rightarrow> (Some r, close_manager K s')))"

end
