(* ===== verification/Manager_Invariant.thy ===== *)
theory Manager_Invariant
  imports Manager_Handlers
begin

text \<open>
  The invariant of the device manager.  What the calls of a trace did to the kernel and to the daemon is
  computed from the trace alone (\<open>ghost\<close>): the open descriptors, the grabbed and the watched ones, the
  devices announced to the daemon and not withdrawn, and whether every call was legal.  A call is illegal when it uses or
  closes a descriptor that is not open, or sends a frame or a removal of a device that was not
  announced.

  The invariant ties these sets to the maps of the manager.  It assumes of the kernel that \<open>open\<close> returns
  descriptors that are not open, and it holds as long as no first announcement of a device was lost to
  a cancellation (\<open>losses\<close>, read off the trace); what holds whatever was lost is in
  Manager_Tracking.
\<close>

section \<open>What a trace did\<close>

record ghost =
  gh_open :: "fd set"
  gh_grabbed :: "fd set"
  gh_watched :: "fd set"
  gh_announced :: "device set"
  gh_legal :: bool

definition msg_resync_device :: "unit message \<Rightarrow> device set" where
  "msg_resync_device m = (case msg_resync m of None \<Rightarrow> {} | Some r \<Rightarrow> {rs_device r})"

definition msg_removed_device :: "unit message \<Rightarrow> device set" where
  "msg_removed_device m = (if msg_removed m = [] then {} else {msg_removed m})"

definition msg_frame_device :: "unit message \<Rightarrow> device set" where
  "msg_frame_device m = (case msg_frame m of None \<Rightarrow> {} | Some fr \<Rightarrow> {fr_device fr})"

definition use_fd :: "fd \<Rightarrow> ghost \<Rightarrow> ghost" where
  "use_fd f g = g\<lparr>gh_legal := gh_legal g \<and> f \<in> gh_open g\<rparr>"

definition ghost_step :: "sys_call \<Rightarrow> ghost \<Rightarrow> ghost" where
  "ghost_step c g =
     (case c of
        COpened p f \<Rightarrow> g\<lparr>gh_open := insert f (gh_open g)\<rparr>
      | CQuery f \<Rightarrow> use_fd f g
      | CLook p \<Rightarrow> g
      | CKeys f \<Rightarrow> use_fd f g
      | CDrain f \<Rightarrow> use_fd f g
      | CGrab f on ok \<Rightarrow> (use_fd f g)\<lparr>gh_grabbed :=
          (if \<not> ok \<or> f \<notin> gh_open g then gh_grabbed g
           else if on then insert f (gh_grabbed g) else gh_grabbed g - {f})\<rparr>
      | CEpollAdd f ok \<Rightarrow> (use_fd f g)\<lparr>gh_watched :=
          (if ok \<and> f \<in> gh_open g then insert f (gh_watched g) else gh_watched g)\<rparr>
      | CEpollDel f \<Rightarrow> (use_fd f g)\<lparr>gh_watched := gh_watched g - {f}\<rparr>
      | CClose f \<Rightarrow> (use_fd f g)\<lparr>gh_open := gh_open g - {f}, gh_grabbed := gh_grabbed g - {f},
          gh_watched := gh_watched g - {f}\<rparr>
      | CWrite f ev \<Rightarrow> use_fd f g
      | CRead f \<Rightarrow> use_fd f g
      | CSent m \<Rightarrow> g\<lparr>gh_announced := (gh_announced g \<union> msg_resync_device m) - msg_removed_device m,
          gh_legal := gh_legal g \<and> msg_frame_device m \<union> msg_removed_device m \<subseteq> gh_announced g \<and>
            Ball (msg_resync_device m) is_abs\<rparr>
      | CDropped m \<Rightarrow> g\<lparr>gh_announced := gh_announced g - msg_removed_device m\<rparr>
      | CTime \<Rightarrow> g)"

definition ghost_start :: ghost where
  "ghost_start = \<lparr>gh_open = {}, gh_grabbed = {}, gh_watched = {}, gh_announced = {}, gh_legal = True\<rparr>"

definition ghost_of :: "sys_call list \<Rightarrow> ghost" where
  "ghost_of tr = fold ghost_step tr ghost_start"

abbreviation gst :: "mstate \<Rightarrow> ghost" where "gst s \<equiv> ghost_of (ms_trace s)"

lemma ghost_snoc [simp]: "ghost_of (tr @ [c]) = ghost_step c (ghost_of tr)"
  by (simp add: ghost_of_def)

lemma note_call_simps [simp]:
  "ms_devs (note_call c s) = ms_devs s" "ms_next (note_call c s) = ms_next s"
  "ms_bypath (note_call c s) = ms_bypath s" "ms_byfd (note_call c s) = ms_byfd s"
  "ms_cands (note_call c s) = ms_cands s" "ms_retries (note_call c s) = ms_retries s"
  "ms_locks (note_call c s) = ms_locks s" "ms_latest (note_call c s) = ms_latest s"
  "ms_check (note_call c s) = ms_check s" "ms_trace (note_call c s) = ms_trace s @ [c]"
  by (simp_all add: note_call_def)

text \<open>\<open>open\<close> returns a descriptor that is not open.\<close>

definition fresh_fds :: "kernel_answers \<Rightarrow> bool" where
  "fresh_fds K \<longleftrightarrow> (\<forall>tr path f. k_open K tr path = Inr f \<longrightarrow> f \<notin> gh_open (ghost_of tr))"

text \<open>Closing a descriptor ends its grab and its watch, so only open descriptors are grabbed or watched.\<close>

lemma grabbed_open: "gh_grabbed (ghost_of tr) \<union> gh_watched (ghost_of tr) \<subseteq> gh_open (ghost_of tr)"
proof (induction tr rule: rev_induct)
  case Nil
  then show ?case by (simp add: ghost_of_def ghost_start_def)
next
  case (snoc c tr)
  then show ?case by (cases c) (auto simp: ghost_step_def use_fd_def)
qed

text \<open>
  The first announcement of a device is its first resynchronization since it was last withdrawn.  It is
  lost when the context is cancelled before the daemon took it; \<open>losses\<close> counts the lost ones.
\<close>

definition named_step :: "sys_call \<Rightarrow> device set \<Rightarrow> device set" where
  "named_step c N =
     (case c of
        CSent m \<Rightarrow> (N \<union> msg_resync_device m) - msg_removed_device m
      | CDropped m \<Rightarrow> (N \<union> msg_resync_device m) - msg_removed_device m
      | _ \<Rightarrow> N)"

fun losses_from :: "device set \<Rightarrow> sys_call list \<Rightarrow> nat" where
  "losses_from N [] = 0"
| "losses_from N (c # tr) =
     (case c of CDropped m \<Rightarrow> if msg_resync_device m \<subseteq> N then 0 else 1 | _ \<Rightarrow> 0) + losses_from (named_step c N) tr"

definition named :: "sys_call list \<Rightarrow> device set" where
  "named tr = fold named_step tr {}"

definition losses :: "sys_call list \<Rightarrow> nat" where
  "losses tr = losses_from {} tr"

abbreviation lost_announcement :: "sys_call list \<Rightarrow> bool" where
  "lost_announcement tr \<equiv> losses tr \<noteq> 0"

lemma named_snoc [simp]: "named (tr @ [c]) = named_step c (named tr)"
  by (simp add: named_def)

lemma losses_from_append: "losses_from N (tr @ tr') = losses_from N tr + losses_from (fold named_step tr N) tr'"
  by (induction tr arbitrary: N) auto

lemma losses_snoc:
  "losses (tr @ [c]) = losses tr + (case c of CDropped m \<Rightarrow> if msg_resync_device m \<subseteq> named tr then 0 else 1 | _ \<Rightarrow> 0)"
  unfolding losses_def losses_from_append named_def by simp

lemma lost_append: "\<not> lost_announcement (tr @ tr') \<Longrightarrow> \<not> lost_announcement tr"
  by (simp add: losses_def losses_from_append)

text \<open>While none is lost, the devices announced and those named are the same.\<close>

lemma named_announced: "losses tr = 0 \<Longrightarrow> named tr = gh_announced (ghost_of tr)"
proof (induction tr rule: rev_induct)
  case Nil
  then show ?case by (simp add: named_def ghost_of_def ghost_start_def)
next
  case (snoc c tr)
  then show ?case by (cases c) (auto simp: losses_snoc named_step_def ghost_step_def use_fd_def split: if_splits)
qed

lemma lost_dropped: "losses (tr @ [CDropped m]) = 0 \<Longrightarrow> msg_resync_device m \<subseteq> gh_announced (ghost_of tr)"
  using named_announced[of tr] by (auto simp: losses_snoc split: if_splits)

section \<open>The invariant\<close>

definition fd_of :: "mstate \<Rightarrow> did \<Rightarrow> fd" where "fd_of s d = pd_fd (dv s d)"

definition actives :: "mstate \<Rightarrow> did set" where "actives s = {d. \<exists>p. gm_get (ms_bypath s) p = Some d}"
definition candidates :: "mstate \<Rightarrow> did set" where "candidates s = {d. \<exists>p. gm_get (ms_cands s) p = Some d}"
definition active_paths :: "mstate \<Rightarrow> device set" where "active_paths s = {p. gm_get (ms_bypath s) p \<noteq> None}"

definition entries_ok :: "mstate \<Rightarrow> bool" where
  "entries_ok s \<longleftrightarrow> (\<forall>p d. gm_get (ms_bypath s) p = Some d \<or> gm_get (ms_cands s) p = Some d \<longrightarrow>
     d < ms_next s \<and> pd_path (dv s d) = p \<and> is_abs p)"

definition apart :: "mstate \<Rightarrow> bool" where
  "apart s \<longleftrightarrow> (\<forall>p. gm_get (ms_bypath s) p = None \<or> gm_get (ms_cands s) p = None)"

definition byfd_ok :: "mstate \<Rightarrow> bool" where
  "byfd_ok s \<longleftrightarrow> inj_on (fd_of s) (actives s \<union> candidates s) \<and>
     (\<forall>f d. gm_get (ms_byfd s) f = Some d \<longleftrightarrow> d \<in> actives s \<and> fd_of s d = f)"

definition retries_ok :: "mstate \<Rightarrow> bool" where
  "retries_ok s \<longleftrightarrow> gm_wf (ms_retries s) \<and>
     (\<forall>p r. gm_get (ms_retries s) p = Some r \<longrightarrow> is_abs p \<and> rt_attempts r \<le> max_reacquisition_tries)"

definition shape :: "mstate \<Rightarrow> bool" where
  "shape s \<longleftrightarrow> gm_wf (ms_bypath s) \<and> gm_wf (ms_byfd s) \<and> gm_wf (ms_cands s) \<and>
     entries_ok s \<and> apart s \<and> byfd_ok s \<and> retries_ok s"

text \<open>\<open>X\<close>: descriptors that are open and not tracked yet; \<open>G\<close>, \<open>W\<close>: grabbed, watched and not active.\<close>

definition fdinv :: "fd set \<Rightarrow> fd set \<Rightarrow> fd set \<Rightarrow> mstate \<Rightarrow> bool" where
  "fdinv X G W s \<longleftrightarrow> shape s \<and>
     gh_open (gst s) = fd_of s ` (actives s \<union> candidates s) \<union> X \<and>
     X \<inter> fd_of s ` (actives s \<union> candidates s) = {} \<and>
     gh_grabbed (gst s) = fd_of s ` actives s \<union> G \<and> gh_watched (gst s) = fd_of s ` actives s \<union> W \<and>
     gh_legal (gst s)"

text \<open>Exactly the active devices are announced.\<close>

definition annok :: "mstate \<Rightarrow> bool" where
  "annok s \<longleftrightarrow> gh_announced (gst s) = active_paths s"

definition minv :: "fd set \<Rightarrow> fd set \<Rightarrow> fd set \<Rightarrow> mstate \<Rightarrow> bool" where
  "minv X G W s \<longleftrightarrow> fdinv X G W s \<and> annok s"

text \<open>States that differ in the parts the invariant does not read.\<close>

lemma entryD:
  assumes "entries_ok s" "gm_get (ms_bypath s) p = Some d \<or> gm_get (ms_cands s) p = Some d"
  shows "d < ms_next s" "pd_path (dv s d) = p" "is_abs p"
  using assms unfolding entries_ok_def by blast+

lemma entries_sub:
  assumes "entries_ok s" "ms_devs s' = ms_devs s" "ms_next s' = ms_next s"
    "\<And>p d. gm_get (ms_bypath s') p = Some d \<or> gm_get (ms_cands s') p = Some d \<Longrightarrow>
       gm_get (ms_bypath s) p = Some d \<or> gm_get (ms_cands s) p = Some d"
  shows "entries_ok s'"
  using assms(1,4) unfolding entries_ok_def assms(2,3) by blast

lemma tracked_entry:
  assumes "entries_ok s" "d \<in> actives s \<union> candidates s"
  shows "d < ms_next s" "is_abs (pd_path (dv s d))"
    "gm_get (ms_bypath s) (pd_path (dv s d)) = Some d \<or> gm_get (ms_cands s) (pd_path (dv s d)) = Some d"
proof -
  obtain p where "gm_get (ms_bypath s) p = Some d \<or> gm_get (ms_cands s) p = Some d"
    using assms(2) by (auto simp: actives_def candidates_def)
  moreover from this have "d < ms_next s \<and> pd_path (dv s d) = p \<and> is_abs p"
    using assms(1) unfolding entries_ok_def by blast
  ultimately show "d < ms_next s" "is_abs (pd_path (dv s d))"
    "gm_get (ms_bypath s) (pd_path (dv s d)) = Some d \<or> gm_get (ms_cands s) (pd_path (dv s d)) = Some d"
    by auto
qed

lemma shape_cong:
  assumes "shape s" "ms_bypath s' = ms_bypath s" "ms_byfd s' = ms_byfd s" "ms_cands s' = ms_cands s"
    "\<And>d. d < ms_next s \<Longrightarrow> pd_fd (dv s' d) = pd_fd (dv s d) \<and> pd_path (dv s' d) = pd_path (dv s d)"
    "ms_next s \<le> ms_next s'" "retries_ok s'"
  shows "shape s'" and "actives s' = actives s" "candidates s' = candidates s" "active_paths s' = active_paths s"
    and "d \<in> actives s \<union> candidates s \<Longrightarrow> fd_of s' d = fd_of s d"
proof -
  show sets: "actives s' = actives s" "candidates s' = candidates s" "active_paths s' = active_paths s"
    using assms(2,4) by (simp_all add: actives_def candidates_def active_paths_def)
  have ent: "entries_ok s" using assms(1) by (simp add: shape_def)
  have fd: "fd_of s' d = fd_of s d" if "d \<in> actives s \<union> candidates s" for d
    using assms(5) tracked_entry[OF ent that] by (simp add: fd_of_def)
  then show "d \<in> actives s \<union> candidates s \<Longrightarrow> fd_of s' d = fd_of s d" .
  have inj: "inj_on (fd_of s') (actives s \<union> candidates s) \<longleftrightarrow> inj_on (fd_of s) (actives s \<union> candidates s)"
    by (rule inj_on_cong) (rule fd)
  have "d \<in> actives s \<and> fd_of s' d = f \<longleftrightarrow> d \<in> actives s \<and> fd_of s d = f" for d f
    using fd[of d] by auto
  then have "byfd_ok s'" using assms(1) by (simp add: shape_def byfd_ok_def sets inj assms(3))
  moreover have "entries_ok s'"
    unfolding entries_ok_def assms(2,4)
  proof (intro allI impI)
    fix p d assume "gm_get (ms_bypath s) p = Some d \<or> gm_get (ms_cands s) p = Some d"
    then have "d < ms_next s \<and> pd_path (dv s d) = p \<and> is_abs p" using ent unfolding entries_ok_def by blast
    then show "d < ms_next s' \<and> pd_path (dv s' d) = p \<and> is_abs p" using assms(5)[of d] assms(6) by simp
  qed
  ultimately show "shape s'"
    using assms(1,7) by (simp add: shape_def assms(2,3,4) apart_def)
qed

lemma fdinv_cong:
  assumes "fdinv X G W s" "ms_bypath s' = ms_bypath s" "ms_byfd s' = ms_byfd s" "ms_cands s' = ms_cands s"
    "\<And>d. d < ms_next s \<Longrightarrow> pd_fd (dv s' d) = pd_fd (dv s d) \<and> pd_path (dv s' d) = pd_path (dv s d)"
    "ms_next s \<le> ms_next s'" "retries_ok s'" "gst s' = gst s"
  shows "fdinv X G W s'"
proof -
  have "shape s" using assms(1) by (simp add: fdinv_def)
  note c = shape_cong[OF this assms(2-7)]
  have "fd_of s' ` (actives s \<union> candidates s) = fd_of s ` (actives s \<union> candidates s)"
    "fd_of s' ` actives s = fd_of s ` actives s" using c(5) by (auto intro!: image_cong)
  then show ?thesis using assms(1) c(1) unfolding fdinv_def by (simp add: c(2-4) assms(8))
qed

lemma minv_cong:
  assumes "minv X G W s" "ms_bypath s' = ms_bypath s" "ms_byfd s' = ms_byfd s" "ms_cands s' = ms_cands s"
    "\<And>d. d < ms_next s \<Longrightarrow> pd_fd (dv s' d) = pd_fd (dv s d) \<and> pd_path (dv s' d) = pd_path (dv s d)"
    "ms_next s \<le> ms_next s'" "retries_ok s'" "gst s' = gst s"
  shows "minv X G W s'"
  using fdinv_cong[OF _ assms(2-8)] assms(1,2,8) by (simp add: minv_def annok_def active_paths_def)

section \<open>Calls that change nothing\<close>

definition legal_fd :: "fd \<Rightarrow> mstate \<Rightarrow> bool" where
  "legal_fd f s \<longleftrightarrow> gh_legal (gst s) \<and> f \<in> gh_open (gst s)"

definition quiet :: "mstate \<Rightarrow> mstate \<Rightarrow> bool" where
  "quiet s s' \<longleftrightarrow> s' = s\<lparr>ms_trace := ms_trace s'\<rparr> \<and> gst s' = gst s"

lemma quietD:
  assumes "quiet s s'"
  shows "gst s' = gst s" "ms_devs s' = ms_devs s" "ms_next s' = ms_next s" "ms_bypath s' = ms_bypath s"
    "ms_byfd s' = ms_byfd s" "ms_cands s' = ms_cands s" "ms_retries s' = ms_retries s"
    "ms_locks s' = ms_locks s" "ms_latest s' = ms_latest s" "ms_check s' = ms_check s"
proof -
  obtain tr where "s' = s\<lparr>ms_trace := tr\<rparr>" "gst s' = gst s" using assms by (auto simp: quiet_def)
  then show "gst s' = gst s" "ms_devs s' = ms_devs s" "ms_next s' = ms_next s" "ms_bypath s' = ms_bypath s"
    "ms_byfd s' = ms_byfd s" "ms_cands s' = ms_cands s" "ms_retries s' = ms_retries s"
    "ms_locks s' = ms_locks s" "ms_latest s' = ms_latest s" "ms_check s' = ms_check s" by simp_all
qed

lemma quiet_refl [simp]: "quiet s s"
  by (simp add: quiet_def)

lemma quiet_trans [trans]: "quiet s s' \<Longrightarrow> quiet s' s'' \<Longrightarrow> quiet s s''"
  unfolding quiet_def by (metis mstate.surjective mstate.update_convs(10))

lemma quiet_note: "ghost_step c (gst s) = gst s \<Longrightarrow> quiet s (note_call c s)"
  by (simp add: quiet_def note_call_def)

lemma use_legal: "legal_fd f s \<Longrightarrow> use_fd f (gst s) = gst s"
  by (simp add: legal_fd_def use_fd_def)

lemma quiet_calls:
  "legal_fd f s \<Longrightarrow> quiet s (note_call (CQuery f) s)" "legal_fd f s \<Longrightarrow> quiet s (note_call (CKeys f) s)"
  "legal_fd f s \<Longrightarrow> quiet s (note_call (CDrain f) s)" "legal_fd f s \<Longrightarrow> quiet s (note_call (CWrite f ev) s)"
  "legal_fd f s \<Longrightarrow> quiet s (note_call (CRead f) s)" "quiet s (note_call (CLook p) s)" "quiet s (note_call CTime s)"
  by (auto intro!: quiet_note simp: ghost_step_def use_legal)

lemma legal_quiet: "quiet s s' \<Longrightarrow> legal_fd f s' = legal_fd f s"
  by (simp add: legal_fd_def quietD)

lemma minv_quiet:
  assumes "minv X G W s" "quiet s s'"
  shows "minv X G W s'"
proof -
  note q = quietD[OF assms(2)]
  have "retries_ok s" using assms(1) by (simp add: minv_def fdinv_def shape_def)
  then have "retries_ok s'" by (simp add: retries_ok_def q)
  then show ?thesis by (intro minv_cong[OF assms(1)]) (simp_all add: q)
qed

lemma keys_quiet: "legal_fd f s \<Longrightarrow> keys_fd K f s = (r, s') \<Longrightarrow> quiet s s'"
  by (auto simp: keys_fd_def quiet_calls)

lemma drain_quiet: "legal_fd f s \<Longrightarrow> drain_fd K f s = (r, s') \<Longrightarrow> quiet s s'"
  by (auto simp: drain_fd_def quiet_calls)

lemma write_quiet: "legal_fd f s \<Longrightarrow> write_fd K f ev s = (r, s') \<Longrightarrow> quiet s s'"
  by (auto simp: write_fd_def quiet_calls)

lemma sync_from_quiet:
  "legal_fd (fd_of s d) s \<Longrightarrow> sync_leds_from K d codes wrote s = (r, s') \<Longrightarrow> quiet s s'"
proof (induction codes arbitrary: wrote s)
  case (Cons code codes)
  show ?case
  proof (cases "\<not> pd_leds (dv s d) ! unat code \<or> \<not> lock_known (ms_locks s) code")
    case True
    then show ?thesis using Cons by simp
  next
    case False
    define ev where "ev = \<lparr>ev_type = EVLed, ev_code = code, ev_value = (if lock_led (ms_locks s) code then 1 else 0 :: i32)\<rparr>"
    obtain w s1 where w: "write_fd K (pd_fd (dv s d)) ev s = (w, s1)" by (cases "write_fd K (pd_fd (dv s d)) ev s")
    have q: "quiet s s1" using write_quiet[OF _ w] Cons.prems(1) by (simp add: fd_of_def)
    have run: "(case w of Inl e \<Rightarrow> (Inl e, s1) | Inr _ \<Rightarrow> sync_leds_from K d codes True s1) = (r, s')"
      using Cons.prems(2) False w by (simp add: ev_def)
    show ?thesis
    proof (cases w)
      case (Inl e)
      then show ?thesis using run q by simp
    next
      case (Inr u)
      have "legal_fd (fd_of s1 d) s1" using Cons.prems(1) legal_quiet[OF q] quietD(2)[OF q] by (simp add: fd_of_def)
      from Cons.IH[OF this] run Inr have "quiet s1 s'" by simp
      with q show ?thesis by (rule quiet_trans)
    qed
  qed
qed simp

lemma sync_device_quiet:
  assumes "legal_fd (fd_of s d) s" "sync_device_leds K d s = (r, s')"
  shows "quiet s s'"
proof -
  obtain w s1 where w: "sync_leds_from K d [LEDNumLock, LEDCapsLock, LEDScrollLock] False s = (w, s1)"
    by (cases "sync_leds_from K d [LEDNumLock, LEDCapsLock, LEDScrollLock] False s")
  have q: "quiet s s1" by (rule sync_from_quiet[OF assms(1) w])
  have "legal_fd (pd_fd (dv s1 d)) s1" using assms(1) legal_quiet[OF q] quietD(2)[OF q] by (simp add: fd_of_def)
  then show ?thesis
    using assms(2) q w write_quiet[of "pd_fd (dv s1 d)" s1 K syn_event]
    by (auto simp: sync_device_leds_def split: sum.splits if_splits intro: quiet_trans)
qed

lemma minv_legal:
  assumes "minv X G W s" "d \<in> actives s \<union> candidates s"
  shows "legal_fd (fd_of s d) s"
  using assms by (auto simp: minv_def fdinv_def legal_fd_def)

lemma active_member: "gm_get (ms_bypath s) p = Some d \<Longrightarrow> d \<in> actives s"
  and candidate_member: "gm_get (ms_cands s) p = Some d \<Longrightarrow> d \<in> candidates s"
  by (auto simp: actives_def candidates_def)

lemma sync_leds_quiet:
  assumes "minv X G W s"
  shows "quiet s (sync_leds K s)"
proof -
  have "quiet s (fold (\<lambda>p s. case gm_get (ms_bypath s) p of None \<Rightarrow> s | Some d \<Rightarrow> snd (sync_device_leds K d s)) ps s1)"
    if "quiet s s1" for ps s1
    using that
  proof (induction ps arbitrary: s1)
    case (Cons p ps)
    have inv: "minv X G W s1" using minv_quiet[OF assms Cons.prems] .
    have "quiet s1 (case gm_get (ms_bypath s1) p of None \<Rightarrow> s1 | Some d \<Rightarrow> snd (sync_device_leds K d s1))"
      using sync_device_quiet[of s1 _ K] minv_legal[OF inv] active_member[of s1 p]
      by (cases "gm_get (ms_bypath s1) p") (auto, metis UnI1 prod.collapse)
    with Cons show ?case by (auto intro: quiet_trans)
  qed simp
  from this[of s] show ?thesis by (simp add: sync_leds_def)
qed

section \<open>Acquiring a candidate\<close>

lemma exI2: "P a b \<Longrightarrow> \<exists>x y. P x y"
  by blast

definition only_trace :: "mstate \<Rightarrow> mstate \<Rightarrow> bool" where
  "only_trace s s' \<longleftrightarrow> s' = s\<lparr>ms_trace := ms_trace s'\<rparr>"

lemma only_traceD:
  assumes "only_trace s s'"
  shows "ms_devs s' = ms_devs s" "ms_next s' = ms_next s" "ms_bypath s' = ms_bypath s"
    "ms_byfd s' = ms_byfd s" "ms_cands s' = ms_cands s" "ms_retries s' = ms_retries s"
    "ms_locks s' = ms_locks s" "ms_latest s' = ms_latest s" "ms_check s' = ms_check s"
proof -
  obtain tr where "s' = s\<lparr>ms_trace := tr\<rparr>" using assms by (auto simp: only_trace_def)
  then show "ms_devs s' = ms_devs s" "ms_next s' = ms_next s" "ms_bypath s' = ms_bypath s"
    "ms_byfd s' = ms_byfd s" "ms_cands s' = ms_cands s" "ms_retries s' = ms_retries s"
    "ms_locks s' = ms_locks s" "ms_latest s' = ms_latest s" "ms_check s' = ms_check s" by simp_all
qed

lemma only_trace_refl [simp]: "only_trace s s"
  by (simp add: only_trace_def)

lemma only_trace_note [simp]: "only_trace s (note_call c s)"
  by (simp add: only_trace_def note_call_def)

lemma only_trace_trans [trans]: "only_trace s s' \<Longrightarrow> only_trace s' s'' \<Longrightarrow> only_trace s s''"
  unfolding only_trace_def by (metis mstate.surjective mstate.update_convs(10))

lemma quiet_only_trace: "quiet s s' \<Longrightarrow> only_trace s s'"
  by (simp add: quiet_def only_trace_def)

lemma grab_effect:
  assumes "legal_fd f s" "grab_fd K f on s = (r, s')"
  shows "only_trace s s' \<and> legal_fd f s' \<and> gst s' = (gst s)\<lparr>gh_grabbed :=
    (if r \<noteq> None then gh_grabbed (gst s) else if on then insert f (gh_grabbed (gst s)) else gh_grabbed (gst s) - {f})\<rparr>"
  using assms by (auto simp: grab_fd_def Let_def ghost_step_def use_legal) (auto simp: legal_fd_def ghost_step_def use_fd_def)

lemma epoll_effect:
  assumes "legal_fd f s" "epoll_add_fd K f s = (r, s')"
  shows "only_trace s s' \<and> legal_fd f s' \<and> gst s' = (gst s)\<lparr>gh_watched :=
    (if r = None then insert f (gh_watched (gst s)) else gh_watched (gst s))\<rparr>"
  using assms by (auto simp: epoll_add_fd_def Let_def ghost_step_def use_legal) (auto simp: legal_fd_def ghost_step_def use_fd_def)

text \<open>A candidate is grabbed and watched exactly when acquiring it succeeds; an error may leave it grabbed.\<close>

definition acquired :: "fd \<Rightarrow> mstate \<Rightarrow> acquire_error + (u16, bool) gomap option \<Rightarrow> mstate \<Rightarrow> bool" where
  "acquired f s r s' \<longleftrightarrow> only_trace s s' \<and>
     (\<exists>G W. G \<subseteq> {f} \<and> W \<subseteq> {f} \<and>
        gst s' = (gst s)\<lparr>gh_grabbed := gh_grabbed (gst s) \<union> G, gh_watched := gh_watched (gst s) \<union> W\<rparr> \<and>
        (case r of Inl e \<Rightarrow> True
         | Inr None \<Rightarrow> G = {} \<and> W = {}
         | Inr (Some p) \<Rightarrow> p = [] \<and> G = {f} \<and> W = {f}))"

lemma acquired_quiet: "quiet s s' \<Longrightarrow> (\<And>p. r \<noteq> Inr (Some p)) \<Longrightarrow> acquired f s r s'"
  unfolding acquired_def
  by (intro conjI exI2[where a = "{}" and b = "{}"]) (auto simp: quiet_only_trace quietD split: sum.split option.split)

lemma acquire_grabbed_effect:
  assumes "legal_fd f s" "f \<notin> gh_watched (gst s)" "acquire_grabbed K f s = (r, s')"
  shows "only_trace s s' \<and> (\<exists>G W. G \<subseteq> {f} \<and> W \<subseteq> {f} \<and>
    gst s' = (gst s)\<lparr>gh_grabbed := gh_grabbed (gst s) - {f} \<union> G, gh_watched := gh_watched (gst s) \<union> W\<rparr> \<and>
    (f \<in> gh_grabbed (gst s) \<longrightarrow>
      (case r of Inl e \<Rightarrow> True | Inr None \<Rightarrow> G = {} \<and> W = {} | Inr (Some p) \<Rightarrow> p = [] \<and> G = {f} \<and> W = {f})))"
proof -
  obtain kr s1 where k: "keys_fd K f s = (kr, s1)" by (cases "keys_fd K f s")
  have q: "quiet s s1" using keys_quiet[OF assms(1) k] .
  have l1: "legal_fd f s1" using assms(1) legal_quiet[OF q] by simp
  have same: "gst s1 = gst s" "only_trace s s1" using q by (simp_all add: quietD quiet_only_trace)
  obtain gr s2 where g: "grab_fd K f False s1 = (gr, s2)" by (cases "grab_fd K f False s1")
  note ge = grab_effect[OF l1 g]
  obtain er s3 where e: "epoll_add_fd K f s1 = (er, s3)" by (cases "epoll_add_fd K f s1")
  note ee = epoll_effect[OF l1 e]
  obtain hr s4 where h: "grab_fd K f False s3 = (hr, s4)" by (cases "grab_fd K f False s3")
  note he = grab_effect[OF conjunct1[OF conjunct2[OF ee]] h]
  have t2: "only_trace s s2" and t3: "only_trace s s3" and t4: "only_trace s s4"
    using same(2) ge ee he only_trace_trans by blast+
  show ?thesis
  proof (cases kr)
    case (Inl x)
    then have r: "r = Inl (KeysFailed x)" "s' = s2" using assms(3) k g by (simp_all add: acquire_grabbed_def)
    show ?thesis using t2 ge same r
      by (intro conjI exI2[where a = "gh_grabbed (gst s2) \<inter> {f}" and b = "{}"]) (auto simp: r(1) Un_Diff_Int)
  next
    case (Inr pressed)
    show ?thesis
    proof (cases "pressed = []")
      case False
      then show ?thesis using assms(3) k g Inr t2 ge same
        by (intro conjI exI2[where a = "gh_grabbed (gst s2) \<inter> {f}" and b = "{}"])
          (auto simp: acquire_grabbed_def Un_Diff_Int split: option.splits)
    next
      case True
      show ?thesis
      proof (cases er)
        case None
        then have r: "r = Inr (Some pressed)" "s' = s3" using assms(3) k e Inr True by (simp_all add: acquire_grabbed_def)
        show ?thesis using t3 ee same r None True
          by (intro conjI exI2[where a = "gh_grabbed (gst s) \<inter> {f}" and b = "{f}"]) (auto simp: Un_Diff_Int)
      next
        case (Some x)
        then have r: "r = Inl (EpollFailed x)" "s' = s4" using assms(3) k e h Inr True by (simp_all add: acquire_grabbed_def)
        show ?thesis using t4 ee he same r Some
          by (intro conjI exI2[where a = "gh_grabbed (gst s4) \<inter> {f}" and b = "{}"]) (auto simp: r(1) Un_Diff_Int)
      qed
    qed
  qed
qed

lemma acquire_idle_effect:
  assumes f: "f = fd_of s d" and "legal_fd f s" "f \<notin> gh_grabbed (gst s)" "f \<notin> gh_watched (gst s)"
    "acquire_idle K d s = (r, s')"
  shows "acquired f s r s'"
proof -
  obtain k1 s1 where k1: "keys_fd K f s = (k1, s1)" by (cases "keys_fd K f s")
  have q1: "quiet s s1" and l1: "legal_fd f s1"
    using keys_quiet[OF assms(2) k1] assms(2) legal_quiet by auto
  obtain d2 s2 where d2: "drain_fd K f s1 = (d2, s2)" by (cases "drain_fd K f s1")
  have q2: "quiet s s2" and l2: "legal_fd f s2"
    using quiet_trans[OF q1 drain_quiet[OF l1 d2]] l1 legal_quiet[OF drain_quiet[OF l1 d2]] by auto
  obtain k3 s3 where k3: "keys_fd K f s2 = (k3, s3)" by (cases "keys_fd K f s2")
  have q3: "quiet s s3" and l3: "legal_fd f s3"
    using quiet_trans[OF q2 keys_quiet[OF l2 k3]] l2 legal_quiet[OF keys_quiet[OF l2 k3]] by auto
  obtain g4 s4 where g4: "grab_fd K f True s3 = (g4, s4)" by (cases "grab_fd K f True s3")
  note ge = grab_effect[OF l3 g4]
  show ?thesis
  proof (cases "\<exists>u. k1 = Inr [] \<and> d2 = Inr u \<and> k3 = Inr [] \<and> g4 = None")
    case True
    then have run: "acquire_grabbed K f s4 = (r, s')"
      using assms(5) k1 d2 k3 g4 by (auto simp: acquire_idle_def f fd_of_def)
    have w4: "f \<notin> gh_watched (gst s4)" using ge q3 assms(4) by (simp add: quietD)
    from acquire_grabbed_effect[OF _ w4 run] ge
    obtain G W where t: "only_trace s4 s'" and GW: "G \<subseteq> {f}" "W \<subseteq> {f}"
      and g: "gst s' = (gst s4)\<lparr>gh_grabbed := gh_grabbed (gst s4) - {f} \<union> G, gh_watched := gh_watched (gst s4) \<union> W\<rparr>"
      and c: "f \<in> gh_grabbed (gst s4) \<longrightarrow>
        (case r of Inl e \<Rightarrow> True | Inr None \<Rightarrow> G = {} \<and> W = {} | Inr (Some p) \<Rightarrow> p = [] \<and> G = {f} \<and> W = {f})"
      by blast
    have g4': "gst s4 = (gst s)\<lparr>gh_grabbed := insert f (gh_grabbed (gst s))\<rparr>" using ge True q3 by (simp add: quietD)
    have "only_trace s s'" using quiet_only_trace[OF q3] ge t only_trace_trans by blast
    moreover have "gst s' = (gst s)\<lparr>gh_grabbed := gh_grabbed (gst s) \<union> G, gh_watched := gh_watched (gst s) \<union> W\<rparr>"
      using assms(3) by (simp add: g g4')
    ultimately show ?thesis unfolding acquired_def using GW c g4' by (intro conjI exI2[where a = G and b = W]) simp_all
  next
    case False
    have fd: "pd_fd (dv s d) = f" by (simp add: f fd_of_def)
    have run: "(case k1 of Inl e \<Rightarrow> (Inl (KeysFailed e), s1)
       | Inr p1 \<Rightarrow> if p1 \<noteq> [] then (Inr None, s1)
         else (case d2 of Inl e \<Rightarrow> (Inl (DrainFailed e), s2)
          | Inr _ \<Rightarrow> (case k3 of Inl e \<Rightarrow> (Inl (KeysFailed e), s3)
             | Inr p2 \<Rightarrow> if p2 \<noteq> [] then (Inr None, s3)
               else (case g4 of Some e \<Rightarrow> (Inl (GrabFailed e), s4) | None \<Rightarrow> acquire_grabbed K f s4)))) = (r, s')"
      using assms(5) by (simp add: acquire_idle_def fd k1 d2 k3 g4 cong: sum.case_cong option.case_cong if_cong)
    have q4: "quiet s s4" if "g4 = Some e" for e
    proof -
      have "gst s4 = gst s3" "only_trace s3 s4" using ge that by simp_all
      then show ?thesis using q3 only_trace_trans[OF quiet_only_trace[OF q3]] by (simp add: quiet_def only_trace_def)
    qed
    have "quiet s s' \<and> (\<forall>p. r \<noteq> Inr (Some p))"
    proof (cases k1)
      case (Inl e)
      then show ?thesis using run q1 by auto
    next
      case k1: (Inr p1)
      show ?thesis
      proof (cases d2)
        case (Inl e)
        then show ?thesis using run q1 q2 k1 by (auto split: if_splits)
      next
        case d2: (Inr u)
        show ?thesis
        proof (cases k3)
          case (Inl e)
          then show ?thesis using run q1 q3 k1 d2 by (auto split: if_splits)
        next
          case (Inr p2)
          then show ?thesis using run q1 q3 q4 k1 d2 False by (cases g4) (auto split: if_splits)
        qed
      qed
    qed
    then show ?thesis by (auto intro: acquired_quiet)
  qed
qed

section \<open>Removing devices\<close>

lemma close_effect:
  assumes "legal_fd f s"
  shows "gst (note_call (CClose f) (snd (grab_fd K f False s))) =
    (gst s)\<lparr>gh_open := gh_open (gst s) - {f}, gh_grabbed := gh_grabbed (gst s) - {f},
      gh_watched := gh_watched (gst s) - {f}\<rparr>"
proof -
  obtain r s' where g: "grab_fd K f False s = (r, s')" by (cases "grab_fd K f False s")
  note e = grab_effect[OF assms g]
  then have "ghost_step (CClose f) (gst s') = (gst s')\<lparr>gh_open := gh_open (gst s') - {f},
      gh_grabbed := gh_grabbed (gst s') - {f}, gh_watched := gh_watched (gst s') - {f}\<rparr>"
    using use_legal[of f s'] by (simp add: ghost_step_def)
  then have "gst (note_call (CClose f) s') = (gst s')\<lparr>gh_open := gh_open (gst s') - {f},
      gh_grabbed := gh_grabbed (gst s') - {f}, gh_watched := gh_watched (gst s') - {f}\<rparr>" by simp
  also have "\<dots> = (gst s)\<lparr>gh_open := gh_open (gst s) - {f}, gh_grabbed := gh_grabbed (gst s) - {f},
      gh_watched := gh_watched (gst s) - {f}\<rparr>" using e by simp
  finally show ?thesis by (simp add: g del: note_call_simps)
qed

lemma close_candidate_effect:
  assumes "legal_fd (fd_of s d) s"
  shows "only_trace s (close_candidate_fd K d s)"
    "gst (close_candidate_fd K d s) = (gst s)\<lparr>gh_open := gh_open (gst s) - {fd_of s d},
      gh_grabbed := gh_grabbed (gst s) - {fd_of s d}, gh_watched := gh_watched (gst s) - {fd_of s d}\<rparr>"
proof -
  obtain r s' where g: "grab_fd K (fd_of s d) False s = (r, s')" by (cases "grab_fd K (fd_of s d) False s")
  have e: "close_candidate_fd K d s = note_call (CClose (fd_of s d)) s'"
    using g by (simp add: close_candidate_fd_def fd_of_def Let_def)
  show "only_trace s (close_candidate_fd K d s)"
    unfolding e using grab_effect[OF assms g] only_trace_trans only_trace_note by blast
  show "gst (close_candidate_fd K d s) = (gst s)\<lparr>gh_open := gh_open (gst s) - {fd_of s d},
      gh_grabbed := gh_grabbed (gst s) - {fd_of s d}, gh_watched := gh_watched (gst s) - {fd_of s d}\<rparr>"
    unfolding e using close_effect[OF assms, of K] g by simp
qed

lemma close_device_effect:
  assumes "legal_fd (fd_of s d) s"
  shows "only_trace s (close_device_fd K d s)"
    "gst (close_device_fd K d s) = (gst s)\<lparr>gh_open := gh_open (gst s) - {fd_of s d},
      gh_grabbed := gh_grabbed (gst s) - {fd_of s d}, gh_watched := gh_watched (gst s) - {fd_of s d}\<rparr>"
proof -
  let ?s1 = "note_call (CEpollDel (fd_of s d)) s"
  have e: "close_device_fd K d s = close_candidate_fd K d ?s1"
    by (simp add: close_device_fd_def close_candidate_fd_def fd_of_def Let_def)
  have g: "gst ?s1 = (gst s)\<lparr>gh_watched := gh_watched (gst s) - {fd_of s d}\<rparr>"
    using assms by (simp add: ghost_step_def use_legal)
  have l: "legal_fd (fd_of ?s1 d) ?s1" using assms g by (simp add: legal_fd_def fd_of_def)
  have f: "fd_of ?s1 d = fd_of s d" by (simp add: fd_of_def)
  show "only_trace s (close_device_fd K d s)"
    unfolding e using close_candidate_effect(1)[OF l, of K] only_trace_trans only_trace_note by blast
  show "gst (close_device_fd K d s) = (gst s)\<lparr>gh_open := gh_open (gst s) - {fd_of s d},
      gh_grabbed := gh_grabbed (gst s) - {fd_of s d}, gh_watched := gh_watched (gst s) - {fd_of s d}\<rparr>"
    unfolding e using close_candidate_effect(2)[OF l, of K] unfolding f g by simp
qed

lemma member_path:
  assumes "entries_ok s"
  shows "d \<in> actives s \<longleftrightarrow> gm_get (ms_bypath s) (pd_path (dv s d)) = Some d"
    "d \<in> candidates s \<longleftrightarrow> gm_get (ms_cands s) (pd_path (dv s d)) = Some d"
  using assms unfolding entries_ok_def actives_def candidates_def by blast+

lemma apart_members: "entries_ok s \<Longrightarrow> apart s \<Longrightarrow> actives s \<inter> candidates s = {}"
  using member_path[of s] unfolding apart_def by (metis disjoint_iff option.distinct(1))

lemma fd_apart:
  assumes "shape s" "d \<in> actives s \<union> candidates s" "D \<subseteq> actives s \<union> candidates s" "d \<notin> D"
  shows "fd_of s d \<notin> fd_of s ` D"
proof
  assume "fd_of s d \<in> fd_of s ` D"
  then obtain e where e: "e \<in> D" "fd_of s d = fd_of s e" by auto
  have "inj_on (fd_of s) (actives s \<union> candidates s)" using assms(1) by (simp add: shape_def byfd_ok_def)
  then have "d = e" using e assms(2,3) by (auto dest: inj_onD)
  with e(1) assms(4) show False by simp
qed

lemma del_members:
  assumes own: "gm_get m q = Some d" and unique: "\<And>p. gm_get m p = Some d \<Longrightarrow> p = q"
  shows "{x. \<exists>p. gm_get (gm_del q m) p = Some x} = {x. \<exists>p. gm_get m p = Some x} - {d}"
proof (intro set_eqI iffI)
  fix x assume "x \<in> {x. \<exists>p. gm_get (gm_del q m) p = Some x}"
  then obtain p where "p \<noteq> q" "gm_get m p = Some x" by (auto split: if_splits)
  then show "x \<in> {x. \<exists>p. gm_get m p = Some x} - {d}" using unique[of p] by auto
next
  fix x assume "x \<in> {x. \<exists>p. gm_get m p = Some x} - {d}"
  then obtain p where "gm_get m p = Some x" "x \<noteq> d" by auto
  then show "x \<in> {x. \<exists>p. gm_get (gm_del q m) p = Some x}" using own by (auto intro!: exI[of _ p])
qed

lemma remove_candidate_fdinv:
  fixes K :: kernel_answers and s :: mstate and d :: did
  assumes "fdinv X G W s" "d \<in> candidates s"
  defines "s' \<equiv> remove_candidate K d s"
  shows "fdinv X (G - {fd_of s d}) (W - {fd_of s d}) s'"
    "gst s' = (gst s)\<lparr>gh_open := gh_open (gst s) - {fd_of s d}, gh_grabbed := gh_grabbed (gst s) - {fd_of s d},
      gh_watched := gh_watched (gst s) - {fd_of s d}\<rparr>"
    "ms_bypath s' = ms_bypath s" "ms_devs s' = ms_devs s" "ms_retries s' = ms_retries s"
    "ms_cands s' = gm_del (pd_path (dv s d)) (ms_cands s)" "ms_next s' = ms_next s"
proof -
  have sh: "shape s" and ent: "entries_ok s" and ap: "apart s" using assms(1) by (simp_all add: fdinv_def shape_def)
  have legal: "legal_fd (fd_of s d) s" using assms(1,2) by (auto simp: fdinv_def legal_fd_def)
  note ce = close_candidate_effect[OF legal, of K]
  note t = only_traceD[OF ce(1)]
  have s': "ms_bypath s' = ms_bypath s" "ms_byfd s' = ms_byfd s" "ms_devs s' = ms_devs s" "ms_next s' = ms_next s"
    "ms_retries s' = ms_retries s" "ms_cands s' = gm_del (pd_path (dv s d)) (ms_cands s)"
    by (simp_all add: s'_def remove_candidate_def Let_def t)
  then show "ms_bypath s' = ms_bypath s" "ms_devs s' = ms_devs s" "ms_retries s' = ms_retries s"
    "ms_cands s' = gm_del (pd_path (dv s d)) (ms_cands s)" "ms_next s' = ms_next s" by simp_all
  show g: "gst s' = (gst s)\<lparr>gh_open := gh_open (gst s) - {fd_of s d}, gh_grabbed := gh_grabbed (gst s) - {fd_of s d},
      gh_watched := gh_watched (gst s) - {fd_of s d}\<rparr>"
    using ce(2) by (simp add: s'_def remove_candidate_def Let_def)
  have fdo: "fd_of s' = fd_of s" by (simp add: fd_of_def fun_eq_iff s'(3))
  have act: "actives s' = actives s" by (simp add: actives_def s'(1))
  have own: "gm_get (ms_cands s) (pd_path (dv s d)) = Some d" using member_path(2)[OF ent] assms(2) by simp
  have cand: "candidates s' = candidates s - {d}"
  proof -
    have "gm_get (ms_cands s) p = Some d \<Longrightarrow> p = pd_path (dv s d)" for p
      using entryD(2)[OF ent, of p d] by blast
    then show ?thesis using del_members[OF own] by (simp add: candidates_def s'(6) del: gm_rules)
  qed
  have nact: "d \<notin> actives s" using apart_members[OF ent ap] assms(2) by auto
  have "shape s'"
    unfolding shape_def
  proof (intro conjI)
    show "gm_wf (ms_bypath s')" "gm_wf (ms_byfd s')" "gm_wf (ms_cands s')"
      using sh by (simp_all add: s' shape_def)
    show "entries_ok s'"
      by (rule entries_sub[OF ent s'(3,4)]) (auto simp: s' split: if_splits)
    show "apart s'" using ap by (auto simp: apart_def s')
    show "retries_ok s'" using sh by (simp add: shape_def retries_ok_def s')
    have "inj_on (fd_of s) (actives s \<union> (candidates s - {d}))"
      using sh by (auto simp: shape_def byfd_ok_def intro: inj_on_subset)
    then show "byfd_ok s'" using sh by (simp add: shape_def byfd_ok_def act cand fdo s'(2))
  qed
  moreover have "fd_of s d \<notin> fd_of s ` actives s" using fd_apart[OF sh _ _ nact] assms(2) by auto
  moreover have "fd_of s d \<notin> fd_of s ` (actives s \<union> (candidates s - {d}))"
    using fd_apart[OF sh, of d "actives s \<union> (candidates s - {d})"] assms(2) nact by auto
  moreover have "fd_of s d \<notin> X" using assms(1,2) by (auto simp: fdinv_def)
  ultimately show "fdinv X (G - {fd_of s d}) (W - {fd_of s d}) s'"
    using assms(1,2) unfolding fdinv_def act cand fdo g by auto
qed

lemma remove_active_fdinv:
  fixes K :: kernel_answers and s :: mstate and d :: did
  assumes "fdinv X {} {} s" "d \<in> actives s"
  defines "s' \<equiv> remove_active K d s"
  shows "fdinv X {} {} s'"
    "gst s' = (gst s)\<lparr>gh_open := gh_open (gst s) - {fd_of s d}, gh_grabbed := gh_grabbed (gst s) - {fd_of s d},
      gh_watched := gh_watched (gst s) - {fd_of s d}\<rparr>"
    "ms_bypath s' = gm_del (pd_path (dv s d)) (ms_bypath s)" "ms_devs s' = ms_devs s" "ms_retries s' = ms_retries s"
    "ms_cands s' = ms_cands s" "ms_next s' = ms_next s"
proof -
  have sh: "shape s" and ent: "entries_ok s" and ap: "apart s" using assms(1) by (simp_all add: fdinv_def shape_def)
  have legal: "legal_fd (fd_of s d) s" using assms(1,2) by (auto simp: fdinv_def legal_fd_def)
  note ce = close_device_effect[OF legal, of K]
  note t = only_traceD[OF ce(1)]
  have s': "ms_cands s' = ms_cands s" "ms_byfd s' = gm_del (fd_of s d) (ms_byfd s)" "ms_devs s' = ms_devs s"
    "ms_next s' = ms_next s" "ms_retries s' = ms_retries s" "ms_bypath s' = gm_del (pd_path (dv s d)) (ms_bypath s)"
    by (simp_all add: s'_def remove_active_def Let_def t fd_of_def)
  then show "ms_bypath s' = gm_del (pd_path (dv s d)) (ms_bypath s)" "ms_devs s' = ms_devs s" "ms_retries s' = ms_retries s"
    "ms_cands s' = ms_cands s" "ms_next s' = ms_next s" by simp_all
  show g: "gst s' = (gst s)\<lparr>gh_open := gh_open (gst s) - {fd_of s d}, gh_grabbed := gh_grabbed (gst s) - {fd_of s d},
      gh_watched := gh_watched (gst s) - {fd_of s d}\<rparr>"
    using ce(2) by (simp add: s'_def remove_active_def Let_def)
  have fdo: "fd_of s' = fd_of s" by (simp add: fd_of_def fun_eq_iff s'(3))
  have cand: "candidates s' = candidates s" by (simp add: candidates_def s'(1))
  have own: "gm_get (ms_bypath s) (pd_path (dv s d)) = Some d" using member_path(1)[OF ent] assms(2) by simp
  have act: "actives s' = actives s - {d}"
  proof -
    have "gm_get (ms_bypath s) p = Some d \<Longrightarrow> p = pd_path (dv s d)" for p
      using entryD(2)[OF ent, of p d] by blast
    then show ?thesis using del_members[OF own] by (simp add: actives_def s'(6) del: gm_rules)
  qed
  have ncand: "d \<notin> candidates s" using apart_members[OF ent ap] assms(2) by auto
  have fdd: "fd_of s d \<notin> fd_of s ` (actives s - {d})" and fdc: "fd_of s d \<notin> fd_of s ` candidates s"
    using fd_apart[OF sh, of d "actives s - {d}"] fd_apart[OF sh, of d "candidates s"] assms(2) ncand by auto
  have ne: "e \<in> actives s \<Longrightarrow> e \<noteq> d \<Longrightarrow> fd_of s e \<noteq> fd_of s d" for e
    using fdd by (metis DiffI image_eqI singletonD)
  have img: "fd_of s ` (actives s - {d}) = fd_of s ` actives s - {fd_of s d}"
    "fd_of s ` (actives s - {d} \<union> candidates s) = fd_of s ` (actives s \<union> candidates s) - {fd_of s d}"
    using fdc assms(2) by (auto simp: image_Un dest: ne)
  have "shape s'"
    unfolding shape_def
  proof (intro conjI)
    show "gm_wf (ms_bypath s')" "gm_wf (ms_byfd s')" "gm_wf (ms_cands s')"
      using sh by (simp_all add: s' shape_def)
    show "entries_ok s'"
      by (rule entries_sub[OF ent s'(3,4)]) (auto simp: s' split: if_splits)
    show "apart s'" using ap by (auto simp: apart_def s')
    show "retries_ok s'" using sh by (simp add: shape_def retries_ok_def s')
    have inj: "inj_on (fd_of s) (actives s - {d} \<union> candidates s)"
      using sh by (auto simp: shape_def byfd_ok_def intro: inj_on_subset)
    have "gm_get (ms_byfd s') f = Some e \<longleftrightarrow> e \<in> actives s - {d} \<and> fd_of s e = f" for f e
      using sh ne unfolding shape_def byfd_ok_def s'(2) by (auto split: if_splits)
    then show "byfd_ok s'" using inj by (simp add: byfd_ok_def act cand fdo)
  qed
  moreover have "fd_of s d \<notin> X" using assms(1,2) by (auto simp: fdinv_def)
  ultimately show "fdinv X {} {} s'"
    using assms(1,2) img unfolding fdinv_def act cand fdo g by auto
qed

end
