(* ===== verification/Manager_Traces.thy ===== *)
theory Manager_Traces
  imports Manager_Invariant
begin

text \<open>
  Every operation of the device manager only adds to the trace, whatever the kernel answers: an
  announcement that was lost stays lost.
\<close>

definition later :: "mstate \<Rightarrow> mstate \<Rightarrow> bool" where
  "later s s' \<longleftrightarrow> (\<exists>tr. ms_trace s' = ms_trace s @ tr)"

abbreviation lost :: "mstate \<Rightarrow> bool" where "lost s \<equiv> lost_announcement (ms_trace s)"

named_theorems later_intros "operations that add to the trace"

lemma later_refl [simp]: "later s s"
  by (simp add: later_def)

lemma later_trans: "later s s' \<Longrightarrow> later s' s'' \<Longrightarrow> later s s''"
  by (auto simp: later_def)

lemma lost_later: "later s s' \<Longrightarrow> \<not> lost s' \<Longrightarrow> \<not> lost s"
  using lost_append by (fastforce simp: later_def)

lemma later_updates [simp]:
  "later s0 (s\<lparr>ms_devs := x1\<rparr>) = later s0 s" "later s0 (s\<lparr>ms_next := x2\<rparr>) = later s0 s"
  "later s0 (s\<lparr>ms_bypath := x3\<rparr>) = later s0 s" "later s0 (s\<lparr>ms_byfd := x4\<rparr>) = later s0 s"
  "later s0 (s\<lparr>ms_cands := x5\<rparr>) = later s0 s" "later s0 (s\<lparr>ms_retries := x6\<rparr>) = later s0 s"
  "later s0 (s\<lparr>ms_latest := x7\<rparr>) = later s0 s" "later s0 (s\<lparr>ms_check := x8\<rparr>) = later s0 s"
  "later s0 (s\<lparr>ms_locks := x9\<rparr>) = later s0 s" "later s0 (upd_dev d f s) = later s0 s"
  by (simp_all add: later_def upd_dev_def)

lemma later_note [later_intros]: "later s0 s \<Longrightarrow> later s0 (note_call c s)"
  by (auto simp: later_def)

lemma later_fold:
  assumes "\<And>x s. later s0 s \<Longrightarrow> later s0 (h x s)"
  shows "later s0 s \<Longrightarrow> later s0 (fold h xs s)"
  by (induction xs arbitrary: s) (auto intro: assms)

section \<open>Calls on one descriptor\<close>

lemma later_calls [later_intros]:
  assumes "later s0 s"
  shows "later s0 (snd (keys_fd K f s))" "later s0 (snd (grab_fd K f on s))" "later s0 (snd (epoll_add_fd K f s))"
    "later s0 (snd (drain_fd K f s))" "later s0 (snd (write_fd K f ev s))" "later s0 (snd (send_message K m s))"
  using assms
  by (simp_all add: keys_fd_def grab_fd_def epoll_add_fd_def drain_fd_def write_fd_def send_message_def Let_def later_note)

lemma later_sync_from: "later s0 s \<Longrightarrow> later s0 (snd (sync_leds_from K d codes wrote s))"
proof (induction codes arbitrary: wrote s)
  case (Cons code codes)
  then show ?case
    using Cons.IH[OF later_calls(5)[OF Cons.prems]] later_calls(5)[OF Cons.prems]
    by (simp add: case_prod_unfold split: sum.split)
qed simp

lemma later_sync_device [later_intros]: "later s0 s \<Longrightarrow> later s0 (snd (sync_device_leds K d s))"
  by (auto simp: sync_device_leds_def case_prod_unfold simp del: sync_leds_from.simps split: sum.split
      intro!: later_intros later_sync_from)

lemma later_sync [later_intros]: "later s0 s \<Longrightarrow> later s0 (sync_leds K s)"
  unfolding sync_leds_def by (rule later_fold) (auto split: option.splits intro: later_intros)

lemma later_closing [later_intros]:
  assumes "later s0 s"
  shows "later s0 (remove_active K d s)" "later s0 (remove_candidate K d s)"
  using assms
  by (auto simp: remove_active_def remove_candidate_def close_device_fd_def close_candidate_fd_def Let_def
      case_prod_unfold intro!: later_intros)

lemma later_retries [later_intros]:
  assumes "later s0 s"
  shows "later s0 (schedule_retry K path g s)" "later s0 (snd (begin_retry path g s))"
  using assms
  by (auto simp: schedule_retry_def begin_retry_def Let_def case_prod_unfold split: option.split intro!: later_intros)

lemma later_identity [later_intros]:
  assumes "later s0 s"
  shows "later s0 (snd (validate_identity K path st s))" "later s0 (snd (sysfs_gen K path s))"
  using assms by (auto simp: validate_identity_def sysfs_gen_def intro: later_intros)

lemma later_opening [later_intros]:
  assumes "later s0 s"
  shows "later s0 (snd (validate_opened K f path e s))" "later s0 (snd (sampled_generation K path s))"
    "later s0 (snd (open_node K path s))"
  using assms
  by (auto simp: validate_opened_def sampled_generation_def open_node_def case_prod_unfold split: sum.split
      intro!: later_intros)

lemma later_probe [later_intros]: "later s0 s \<Longrightarrow> later s0 (snd (probe_fd K P f s))"
  by (auto simp: probe_fd_def Let_def split: sum.split intro!: later_intros)

lemma later_probe_candidate [later_intros]: "later s0 s \<Longrightarrow> later s0 (snd (probe_candidate K P path g f s))"
  by (auto simp: probe_candidate_def new_device_def case_prod_unfold split: sum.split option.split intro!: later_intros)

lemma later_open [later_intros]:
  assumes "later s0 s"
  shows "later s0 (snd (open_candidate K P path g s))" "later s0 (snd (open_enumerated K P path s))"
  using assms
  by (auto simp: open_candidate_def open_enumerated_def case_prod_unfold split: sum.split intro!: later_intros)

lemma later_acquire [later_intros]: "later s0 s \<Longrightarrow> later s0 (snd (acquire_idle K d s))"
  by (auto simp: acquire_idle_def acquire_grabbed_def Let_def case_prod_unfold split: sum.split option.split
      intro!: later_intros)

section \<open>Handlers\<close>

lemma later_send [later_intros]: "later s0 s \<Longrightarrow> later s0 (snd (send_or_stop K m s))"
  by (auto simp: send_or_stop_def case_prod_unfold split: bool.split intro!: later_intros)

lemma later_activate [later_intros]: "later s0 s \<Longrightarrow> later s0 (snd (activate_device K d s))"
  by (auto simp: activate_device_def Let_def case_prod_unfold split: sum.split option.split bool.split intro!: later_intros)

lemma later_activate_or_retry [later_intros]: "later s0 s \<Longrightarrow> later s0 (activate_or_retry K d s)"
  by (auto simp: activate_or_retry_def Let_def case_prod_unfold split: sum.split intro!: later_intros)

lemma later_accept [later_intros]: "later s0 s \<Longrightarrow> later s0 (accept_candidate K d s)"
  by (auto simp: accept_candidate_def Let_def case_prod_unfold split: sum.split intro!: later_intros)

lemma later_consider [later_intros]: "later s0 s \<Longrightarrow> later s0 (consider_node K P path g s)"
  by (auto simp: consider_node_def Let_def case_prod_unfold split: sum.split option.split intro!: later_intros)

lemma later_adopt [later_intros]:
  assumes "later s0 s"
  shows "later s0 (snd (adopt_retry_add ev g s))" "later s0 (adopt_gen d g s)"
  using assms by (auto simp: adopt_retry_add_def adopt_gen_def Let_def split: option.split)

lemma later_replace [later_intros]:
  assumes "later s0 s"
  shows "later s0 (replace_candidate K path s)" "later s0 (snd (replace_active K path s))"
  using assms by (auto simp: replace_candidate_def replace_active_def split: option.split intro!: later_intros)

lemma later_add [later_intros]: "later s0 s \<Longrightarrow> later s0 (snd (handle_add K P ev s))"
  by (auto simp: handle_add_def Let_def case_prod_unfold split: sum.split option.split bool.split intro!: later_intros)

lemma later_removal [later_intros]: "later s0 s \<Longrightarrow> later s0 (snd (handle_remove K ev s))"
  by (auto simp: handle_remove_def Let_def split: option.split intro!: later_intros)

lemma later_udev_event [later_intros]: "later s0 s \<Longrightarrow> later s0 (snd (handle_udev_event K P ev s))"
  by (auto simp: handle_udev_event_def Let_def case_prod_unfold intro!: later_intros)

lemma later_udev_events [later_intros]: "later s0 s \<Longrightarrow> later s0 (snd (handle_udev_events K P evs s))"
  by (induction evs arbitrary: s) (auto simp: case_prod_unfold split: sum.split intro!: later_intros)

lemma later_udev_ready [later_intros]: "later s0 s \<Longrightarrow> later s0 (snd (handle_udev_ready K P hangup s))"
  by (auto simp: handle_udev_ready_def split: option.split intro!: later_intros)

lemma later_read_event [later_intros]: "later s0 s \<Longrightarrow> later s0 (snd (read_event K d ev s))"
  by (auto simp: read_event_def Let_def case_prod_unfold split: sum.split bool.split intro!: later_intros)

lemma later_read_events [later_intros]: "later s0 s \<Longrightarrow> later s0 (snd (read_events K d evs s))"
  by (induction evs arbitrary: s) (auto simp: case_prod_unfold split: sum.split intro!: later_intros)

lemma later_read_chunks [later_intros]: "later s0 s \<Longrightarrow> later s0 (snd (read_chunks K d reads s))"
proof (induction reads arbitrary: s)
  case (Cons r reads)
  show ?case
    using Cons.prems Cons.IH[OF later_read_events[OF Cons.prems]]
    by (cases r) (auto simp: case_prod_unfold split: sum.split decode_error.split intro: later_read_events)
qed simp

lemma later_read_ready [later_intros]: "later s0 s \<Longrightarrow> later s0 (snd (read_ready K d s))"
  by (auto simp: read_ready_def Let_def intro!: later_intros)

lemma later_device_ready [later_intros]: "later s0 s \<Longrightarrow> later s0 (snd (handle_device_ready K f hangup s))"
  by (auto simp: handle_device_ready_def Let_def case_prod_unfold split: option.split sum.split read_error.split
      intro!: later_intros)

lemma later_feedback [later_intros]: "later s0 s \<Longrightarrow> later s0 (snd (handle_feedback_ready K hangup s))"
  by (auto simp: handle_feedback_ready_def Let_def case_prod_unfold split: sum.split intro!: later_intros)

lemma later_check [later_intros]: "later s0 s \<Longrightarrow> later s0 (check_candidate K path s)"
  by (auto simp: check_candidate_def Let_def case_prod_unfold split: option.split sum.split intro!: later_intros)

lemma later_checks [later_intros]: "later s0 s \<Longrightarrow> later s0 (check_candidates K now s)"
  using later_fold[of s0 "check_candidate K"] later_check by (simp add: check_candidates_def)

lemma later_retry [later_intros]: "later s0 s \<Longrightarrow> later s0 (process_retry K P now path s)"
  by (auto simp: process_retry_def case_prod_unfold split: option.split bool.split intro!: later_intros)

lemma later_process [later_intros]: "later s0 s \<Longrightarrow> later s0 (process_retries K P now s)"
  unfolding process_retries_def by (rule later_fold) (rule later_retry)

lemma later_ready [later_intros]: "later s0 s \<Longrightarrow> later s0 (snd (handle_ready K P F r s))"
  by (auto simp: handle_ready_def handle_wake_ready_def intro!: later_intros)

lemma later_all [later_intros]: "later s0 s \<Longrightarrow> later s0 (snd (handle_all K P F rs s))"
  by (induction rs arbitrary: s) (auto simp: case_prod_unfold split: sum.split intro!: later_intros)

lemma later_pass [later_intros]: "later s0 s \<Longrightarrow> later s0 (snd (loop_pass K P F a s))"
  by (auto simp: loop_pass_def Let_def case_prod_unfold split: epoll_answer.split sum.split intro!: later_intros)

lemma later_loop [later_intros]: "later s0 s \<Longrightarrow> later s0 (snd (run_loop K P F as s))"
  by (induction as arbitrary: s) (auto simp: case_prod_unfold split: option.split intro!: later_intros)

lemma later_enumerate [later_intros]: "later s0 s \<Longrightarrow> later s0 (snd (enumerate_path K P path s))"
  by (auto simp: enumerate_path_def case_prod_unfold split: sum.split option.split intro!: later_intros)

lemma later_enumerates [later_intros]: "later s0 s \<Longrightarrow> later s0 (snd (enumerate_paths K P ps s))"
  by (induction ps arbitrary: s) (auto simp: case_prod_unfold split: sum.split intro!: later_intros)

lemma later_close [later_intros]: "later s0 s \<Longrightarrow> later s0 (close_manager K s)"
  unfolding close_manager_def close_actives_def close_candidates_def
  by (rule later_fold, auto split: option.split intro!: later_intros)+

end
