(* ===== verification/Manager_Tracking.thy ===== *)
theory Manager_Tracking
  imports Manager_Traces
begin

text \<open>
  What the device manager keeps whatever the kernel answers and whatever announcements are lost: every
  open descriptor belongs to a device in its maps, the maps agree with the devices, every message sent
  names devices by absolute paths, and no retry counter exceeds its limit.  No assumption on the kernel is
  needed; that descriptors are closed once and used while open is in Manager_Steps.
\<close>

section \<open>The invariant\<close>

definition abs_message :: "unit message \<Rightarrow> bool" where
  "abs_message m \<longleftrightarrow> Ball (msg_frame_device m \<union> msg_resync_device m \<union> msg_removed_device m) is_abs"

definition sent_abs :: "sys_call list \<Rightarrow> bool" where
  "sent_abs tr \<longleftrightarrow> (\<forall>m. CSent m \<in> set tr \<longrightarrow> abs_message m)"

definition byfd_sound :: "mstate \<Rightarrow> bool" where
  "byfd_sound s \<longleftrightarrow> (\<forall>f d. gm_get (ms_byfd s) f = Some d \<longrightarrow> d \<in> actives s \<and> fd_of s d = f)"

text \<open>\<open>X\<close>: descriptors that may be open and belong to no device of the maps.\<close>

definition tracked :: "fd set \<Rightarrow> mstate \<Rightarrow> bool" where
  "tracked X s \<longleftrightarrow> entries_ok s \<and> apart s \<and> byfd_sound s \<and> retries_ok s \<and> sent_abs (ms_trace s) \<and>
     gh_open (gst s) \<subseteq> X \<union> fd_of s ` (actives s \<union> candidates s)"

lemma trackedD:
  assumes "tracked X s"
  shows "entries_ok s" "apart s" "byfd_sound s" "retries_ok s" "sent_abs (ms_trace s)"
    "gh_open (gst s) \<subseteq> X \<union> fd_of s ` (actives s \<union> candidates s)"
  using assms by (simp_all add: tracked_def)

text \<open>States that differ in the parts the invariant does not read.\<close>

lemma tracked_cong:
  assumes "tracked X s" "ms_bypath s' = ms_bypath s" "ms_byfd s' = ms_byfd s" "ms_cands s' = ms_cands s"
    "\<And>d. d < ms_next s \<Longrightarrow> pd_fd (dv s' d) = pd_fd (dv s d) \<and> pd_path (dv s' d) = pd_path (dv s d)"
    "ms_next s \<le> ms_next s'" "retries_ok s'" "sent_abs (ms_trace s')" "gh_open (gst s') \<subseteq> Y \<union> gh_open (gst s)"
  shows "tracked (Y \<union> X) s'"
proof -
  note t = trackedD[OF assms(1)]
  have sets: "actives s' = actives s" "candidates s' = candidates s"
    by (simp_all add: actives_def candidates_def assms(2,4))
  have fd: "fd_of s' d = fd_of s d" if "d \<in> actives s \<union> candidates s" for d
    using assms(5) tracked_entry[OF t(1) that] by (simp add: fd_of_def)
  have img: "fd_of s' ` (actives s \<union> candidates s) = fd_of s ` (actives s \<union> candidates s)" using fd by (rule image_cong[OF refl])
  have "entries_ok s'"
    unfolding entries_ok_def assms(2,4)
  proof (intro allI impI)
    fix p d assume "gm_get (ms_bypath s) p = Some d \<or> gm_get (ms_cands s) p = Some d"
    from entryD[OF t(1) this] show "d < ms_next s' \<and> pd_path (dv s' d) = p \<and> is_abs p"
      using assms(5)[of d] assms(6) by simp
  qed
  moreover have "byfd_sound s'" using t(3) fd by (simp add: byfd_sound_def assms(3) sets)
  moreover have "apart s'" using t(2) by (simp add: apart_def assms(2,4))
  moreover have "gh_open (gst s') \<subseteq> (Y \<union> X) \<union> fd_of s' ` (actives s' \<union> candidates s')"
    using t(6) assms(9) unfolding sets img by blast
  ultimately show ?thesis using assms(7,8) by (simp add: tracked_def)
qed

section \<open>Calls that leave the maps alone\<close>

text \<open>The operations that only call the kernel, each call one of \<open>C\<close>.\<close>

definition calls_only :: "(sys_call \<Rightarrow> bool) \<Rightarrow> mstate \<Rightarrow> mstate \<Rightarrow> bool" where
  "calls_only C s s' \<longleftrightarrow> only_trace s s' \<and> (\<exists>tr. ms_trace s' = ms_trace s @ tr \<and> list_all C tr)"

text \<open>Calls that open or close nothing and send nothing; and those that open nothing and send sound messages.\<close>

definition plain_call :: "sys_call \<Rightarrow> bool" where
  "plain_call c =
     (case c of COpened p f \<Rightarrow> False | CClose f \<Rightarrow> False | CSent m \<Rightarrow> False | CDropped m \<Rightarrow> False | _ \<Rightarrow> True)"

definition harmless_call :: "sys_call \<Rightarrow> bool" where
  "harmless_call c = (case c of COpened p f \<Rightarrow> False | CSent m \<Rightarrow> abs_message m | _ \<Rightarrow> True)"

abbreviation plain :: "mstate \<Rightarrow> mstate \<Rightarrow> bool" where "plain \<equiv> calls_only plain_call"
abbreviation harmless :: "mstate \<Rightarrow> mstate \<Rightarrow> bool" where "harmless \<equiv> calls_only harmless_call"

definition allows :: "(sys_call \<Rightarrow> bool) \<Rightarrow> bool" where
  "allows C \<longleftrightarrow> (\<forall>c. plain_call c \<longrightarrow> C c)"

lemma allows_both: "allows plain_call" "allows harmless_call"
  by (auto simp: allows_def plain_call_def harmless_call_def split: sys_call.splits)

named_theorems call_intros "operations that make calls only"

lemma calls_refl [simp]: "calls_only C s s"
  by (simp add: calls_only_def)

lemma calls_trace: "calls_only C s s' \<Longrightarrow> only_trace s s'"
  by (simp add: calls_only_def)

lemma calls_note: "calls_only C s0 s \<Longrightarrow> C c \<Longrightarrow> calls_only C s0 (note_call c s)"
  by (auto simp: calls_only_def intro: only_trace_trans)

lemma calls_notes [call_intros]:
  assumes "allows C" "calls_only C s0 s"
  shows "calls_only C s0 (note_call (CQuery f) s)" "calls_only C s0 (note_call (CLook p) s)"
    "calls_only C s0 (note_call (CKeys f) s)" "calls_only C s0 (note_call (CDrain f) s)"
    "calls_only C s0 (note_call (CGrab f on ok) s)" "calls_only C s0 (note_call (CEpollAdd f ok) s)"
    "calls_only C s0 (note_call (CEpollDel f) s)" "calls_only C s0 (note_call (CWrite f ev) s)"
    "calls_only C s0 (note_call (CRead f) s)" "calls_only C s0 (note_call CTime s)"
  using assms by (simp_all add: allows_def plain_call_def calls_note)

lemma calls_fd [call_intros]:
  assumes "allows C" "calls_only C s0 s"
  shows "calls_only C s0 (snd (keys_fd K f s))" "calls_only C s0 (snd (grab_fd K f on s))"
    "calls_only C s0 (snd (epoll_add_fd K f s))" "calls_only C s0 (snd (drain_fd K f s))"
    "calls_only C s0 (snd (write_fd K f ev s))"
  using assms
  by (simp_all add: keys_fd_def grab_fd_def epoll_add_fd_def drain_fd_def write_fd_def Let_def calls_notes)

lemma calls_sync_from: "allows C \<Longrightarrow> calls_only C s0 s \<Longrightarrow> calls_only C s0 (snd (sync_leds_from K d codes wrote s))"
proof (induction codes arbitrary: wrote s)
  case (Cons code codes)
  note w = calls_fd(5)[OF Cons.prems]
  show ?case
    using Cons.IH[OF Cons.prems(1) w] Cons.IH[OF Cons.prems] w by (simp add: case_prod_unfold split: sum.split)
qed simp

lemma calls_sync_device [call_intros]:
  "allows C \<Longrightarrow> calls_only C s0 s \<Longrightarrow> calls_only C s0 (snd (sync_device_leds K d s))"
  by (auto simp: sync_device_leds_def case_prod_unfold simp del: sync_leds_from.simps split: sum.split
      intro!: call_intros calls_sync_from)

lemma calls_fold:
  assumes "\<And>x s. calls_only C s0 s \<Longrightarrow> calls_only C s0 (h x s)"
  shows "calls_only C s0 s \<Longrightarrow> calls_only C s0 (fold h xs s)"
  by (induction xs arbitrary: s) (auto intro: assms)

lemma calls_sync [call_intros]: "allows C \<Longrightarrow> calls_only C s0 s \<Longrightarrow> calls_only C s0 (sync_leds K s)"
  unfolding sync_leds_def by (rule calls_fold) (auto split: option.splits intro: call_intros)

lemma calls_identity [call_intros]:
  assumes "allows C" "calls_only C s0 s"
  shows "calls_only C s0 (snd (validate_identity K path st s))" "calls_only C s0 (snd (sysfs_gen K path s))"
  using assms by (auto simp: validate_identity_def sysfs_gen_def intro: call_intros)

lemma calls_opening [call_intros]:
  assumes "allows C" "calls_only C s0 s"
  shows "calls_only C s0 (snd (validate_opened K f path e s))" "calls_only C s0 (snd (sampled_generation K path s))"
  using assms
  by (auto simp: validate_opened_def sampled_generation_def case_prod_unfold split: sum.split intro!: call_intros)

lemma calls_probe [call_intros]: "allows C \<Longrightarrow> calls_only C s0 s \<Longrightarrow> calls_only C s0 (snd (probe_fd K P f s))"
  by (auto simp: probe_fd_def Let_def split: sum.split intro!: call_intros)

lemma calls_acquire [call_intros]: "allows C \<Longrightarrow> calls_only C s0 s \<Longrightarrow> calls_only C s0 (snd (acquire_idle K d s))"
  by (auto simp: acquire_idle_def acquire_grabbed_def Let_def case_prod_unfold split: sum.split option.split
      intro!: call_intros)

text \<open>The two instances.\<close>

lemmas plain_calls = call_intros[OF allows_both(1)]

lemmas harmless_refl = calls_refl[of harmless_call]
lemmas harmless_only = calls_trace[of harmless_call]
lemmas harmless_plain =
  calls_notes[OF allows_both(2)] calls_fd[OF allows_both(2)] calls_sync_device[OF allows_both(2)]
  calls_sync[OF allows_both(2)] calls_identity[OF allows_both(2)] calls_opening[OF allows_both(2)]
  calls_probe[OF allows_both(2)] calls_acquire[OF allows_both(2)]
lemmas harmless_calls = calls_fd[OF allows_both(2)]
lemmas harmless_sync_device = calls_sync_device[OF allows_both(2)]
lemmas harmless_sync = calls_sync[OF allows_both(2)]
lemmas harmless_identity = calls_identity[OF allows_both(2)]
lemmas harmless_opening = calls_opening[OF allows_both(2)]
lemmas harmless_probe = calls_probe[OF allows_both(2)]
lemmas harmless_acquire = calls_acquire[OF allows_both(2)]

lemma harmless_close: "harmless s0 s \<Longrightarrow> harmless s0 (note_call (CClose f) s)"
  and harmless_time: "harmless s0 s \<Longrightarrow> harmless s0 (note_call CTime s)"
  by (simp_all add: calls_note harmless_call_def)

lemma harmless_send: "harmless s0 s \<Longrightarrow> abs_message m \<Longrightarrow> harmless s0 (snd (send_message K m s))"
  by (simp add: send_message_def calls_note harmless_call_def)

lemma harmless_closing:
  assumes "harmless s0 s"
  shows "harmless s0 (close_device_fd K d s)" "harmless s0 (close_candidate_fd K d s)"
  using assms
  by (auto simp: close_device_fd_def close_candidate_fd_def Let_def case_prod_unfold intro!: harmless_close harmless_plain)

lemma open_shrinks: "list_all harmless_call tr' \<Longrightarrow> gh_open (ghost_of (tr @ tr')) \<subseteq> gh_open (ghost_of tr)"
proof (induction tr' rule: rev_induct)
  case (snoc c tr')
  have "gh_open (ghost_of ((tr @ tr') @ [c])) \<subseteq> gh_open (ghost_of (tr @ tr'))"
    using snoc.prems unfolding ghost_snoc by (cases c) (auto simp: harmless_call_def ghost_step_def use_fd_def)
  then show ?case using snoc by auto
qed simp

lemma harmless_effect:
  assumes "harmless s s'"
  shows "gh_open (gst s') \<subseteq> gh_open (gst s)" "sent_abs (ms_trace s) \<Longrightarrow> sent_abs (ms_trace s')"
proof -
  obtain tr where tr: "ms_trace s' = ms_trace s @ tr" "list_all harmless_call tr" using assms by (auto simp: calls_only_def)
  show "gh_open (gst s') \<subseteq> gh_open (gst s)" using open_shrinks[OF tr(2)] by (simp add: tr(1))
  have "CSent m \<in> set tr \<Longrightarrow> abs_message m" for m using tr(2) by (auto simp: list_all_iff harmless_call_def)
  then show "sent_abs (ms_trace s) \<Longrightarrow> sent_abs (ms_trace s')" by (auto simp: sent_abs_def tr(1))
qed

lemma tracked_harmless:
  assumes "tracked X s" "harmless s s'"
  shows "tracked X s'"
proof -
  note o = only_traceD[OF harmless_only[OF assms(2)]]
  have "retries_ok s'" using trackedD(4)[OF assms(1)] by (simp add: retries_ok_def o)
  moreover have "sent_abs (ms_trace s')" using harmless_effect(2)[OF assms(2)] trackedD(5)[OF assms(1)] .
  moreover have "gh_open (gst s') \<subseteq> {} \<union> gh_open (gst s)" using harmless_effect(1)[OF assms(2)] by simp
  ultimately have "tracked ({} \<union> X) s'" by (intro tracked_cong[OF assms(1)]) (simp_all add: o)
  then show ?thesis by simp
qed

section \<open>Messages and retries\<close>

lemma message_devices [simp]:
  "msg_resync_device (resync_message p m) = {p}" "msg_removed_device (resync_message p m) = {}"
  "msg_frame_device (resync_message p m) = {}"
  "msg_resync_device (removed_message p) = {}" "p \<noteq> [] \<Longrightarrow> msg_removed_device (removed_message p) = {p}"
  "msg_frame_device (removed_message p) = {}"
  "msg_resync_device (frame_message fr) = {}" "msg_removed_device (frame_message fr) = {}"
  "msg_frame_device (frame_message fr) = {fr_device fr}"
  by (simp_all add: msg_resync_device_def msg_removed_device_def msg_frame_device_def resync_message_def
      removed_message_def frame_message_def)

lemma not_abs_empty [simp]: "\<not> is_abs []"
  by (simp add: is_abs_def has_prefix_def)

lemma abs_messages [simp]:
  "abs_message (resync_message p m) \<longleftrightarrow> is_abs p" "is_abs p \<Longrightarrow> abs_message (removed_message p)"
  "abs_message (frame_message fr) \<longleftrightarrow> is_abs (fr_device fr)"
  by (cases "p = []"; simp add: abs_message_def)+

lemma retries_ok_put:
  "retries_ok s \<Longrightarrow> is_abs p \<Longrightarrow> rt_attempts r \<le> max_reacquisition_tries \<Longrightarrow>
     retries_ok (s\<lparr>ms_retries := gm_put p r (ms_retries s)\<rparr>)"
  by (simp add: retries_ok_def)

lemma retries_ok_del: "retries_ok s \<Longrightarrow> retries_ok (s\<lparr>ms_retries := gm_del p (ms_retries s)\<rparr>)"
  by (simp add: retries_ok_def)

lemma tracked_retries:
  assumes "tracked X s" "retries_ok (s\<lparr>ms_retries := m\<rparr>)"
  shows "tracked X (s\<lparr>ms_retries := m\<rparr>)"
  using assms
  by (simp add: tracked_def entries_ok_def apart_def byfd_sound_def actives_def candidates_def fd_of_def[abs_def])

lemma tracked_maps:
  assumes "tracked X s"
  shows "tracked X (s\<lparr>ms_latest := l\<rparr>)" "tracked X (s\<lparr>ms_check := t\<rparr>)" "tracked X (s\<lparr>ms_locks := locks\<rparr>)"
  using assms
  by (simp_all add: tracked_def entries_ok_def apart_def byfd_sound_def retries_ok_def actives_def candidates_def
      fd_of_def[abs_def])

lemma tracked_upd:
  assumes "tracked X s" "\<And>p. pd_fd (h p) = pd_fd p \<and> pd_path (h p) = pd_path p"
  shows "tracked X (upd_dev d h s)"
proof -
  have "tracked ({} \<union> X) (upd_dev d h s)"
    using trackedD(4,5)[OF assms(1)] assms(2)
    by (intro tracked_cong[OF assms(1)]) (auto simp: upd_dev_def retries_ok_def)
  then show ?thesis by simp
qed

lemma tracked_schedule:
  assumes "tracked X s" "is_abs path"
  shows "tracked X (schedule_retry K path g s)"
proof -
  define st0 where "st0 = (case gm_get (ms_retries s) path of None \<Rightarrow> new_retry zero_generation | Some r \<Rightarrow> r)"
  define st where "st = (if rt_gen st0 \<noteq> g then new_retry g else st0)"
  have ok: "retries_ok s" using trackedD(4)[OF assms(1)] .
  have st: "rt_attempts st \<le> max_reacquisition_tries"
    using ok by (auto simp: st_def st0_def new_retry_def retries_ok_def split: option.split)
  let ?t = "note_call CTime s"
  have t: "tracked X ?t" using tracked_harmless[OF assms(1)] harmless_time[OF harmless_refl] .
  have "tracked X (s\<lparr>ms_retries := gm_put path (st\<lparr>rt_scheduled := False\<rparr>) (ms_retries s)\<rparr>)"
    using retries_ok_put[OF ok assms(2)] st by (intro tracked_retries[OF assms(1)]) simp
  moreover have "tracked X (?t\<lparr>ms_retries := gm_put path (st\<lparr>rt_deadline := n, rt_scheduled := True\<rparr>) (ms_retries s)\<rparr>)" for n
    using retries_ok_put[OF trackedD(4)[OF t] assms(2)] st by (intro tracked_retries[OF t]) simp
  ultimately show ?thesis
    unfolding schedule_retry_def st0_def[symmetric] st_def[symmetric] Let_def by simp
qed

lemma tracked_begin:
  assumes "tracked X s"
  shows "tracked X (snd (begin_retry path g s))"
proof (cases "gm_get (ms_retries s) path")
  case None
  then show ?thesis using assms by (simp add: begin_retry_def)
next
  case (Some st0)
  have ok: "retries_ok s" using trackedD(4)[OF assms] .
  then have path: "is_abs path" using Some by (simp add: retries_ok_def)
  let ?st = "if rt_gen st0 \<noteq> g then new_retry g else st0"
  obtain c st' where b: "begin_attempt ?st = (c, st')" by (cases "begin_attempt ?st")
  have "c \<Longrightarrow> rt_attempts st' \<le> max_reacquisition_tries"
    using b by (auto simp: begin_attempt_def split: if_splits)
  then show ?thesis
    using assms Some b retries_ok_put[OF ok path, of st'] tracked_retries[OF assms]
    by (auto simp: begin_retry_def Let_def split: if_splits)
qed

section \<open>Devices that leave or change maps\<close>

lemma only_trace_sets:
  assumes "only_trace s s'"
  shows "actives s' = actives s" "candidates s' = candidates s" "active_paths s' = active_paths s" "fd_of s' = fd_of s"
    "shape s' = shape s"
proof -
  show f: "fd_of s' = fd_of s" by (simp add: fd_of_def fun_eq_iff only_traceD[OF assms])
  show a: "actives s' = actives s" "candidates s' = candidates s" "active_paths s' = active_paths s"
    by (simp_all add: actives_def candidates_def active_paths_def only_traceD[OF assms])
  show "shape s' = shape s"
    by (simp add: shape_def entries_ok_def apart_def byfd_ok_def retries_ok_def a f only_traceD[OF assms])
qed

text \<open>A device closed in \<open>s1\<close> is dropped from the maps.\<close>

lemma close_harmless:
  "harmless s (close_device_fd K d s) \<and> fd_of s d \<notin> gh_open (gst (close_device_fd K d s))"
  "harmless s (close_candidate_fd K d s) \<and> fd_of s d \<notin> gh_open (gst (close_candidate_fd K d s))"
  using harmless_closing[OF harmless_refl]
  by (simp_all add: close_device_fd_def close_candidate_fd_def case_prod_unfold Let_def ghost_step_def use_fd_def fd_of_def)

lemma tracked_remove_active:
  assumes "tracked X s" "gm_get (ms_bypath s) path = Some d"
  shows "tracked X (remove_active K d s)" "ms_devs (remove_active K d s) = ms_devs s"
    "ms_cands (remove_active K d s) = ms_cands s" "ms_bypath (remove_active K d s) = gm_del path (ms_bypath s)"
proof -
  note t = trackedD[OF assms(1)]
  let ?t = "remove_active K d s"
  define s1 where "s1 = close_device_fd K d s"
  have c: "harmless s s1" "fd_of s d \<notin> gh_open (gst s1)" using close_harmless(1) by (simp_all add: s1_def)
  note o = only_traceD[OF harmless_only[OF c(1)]]
  have path: "pd_path (dv s d) = path" using entryD(2)[OF t(1)] assms(2) by blast
  have f: "ms_devs ?t = ms_devs s" "ms_next ?t = ms_next s" "ms_cands ?t = ms_cands s" "ms_retries ?t = ms_retries s"
    "ms_bypath ?t = gm_del path (ms_bypath s)" "ms_byfd ?t = gm_del (fd_of s d) (ms_byfd s)" "ms_trace ?t = ms_trace s1"
    by (simp_all add: remove_active_def Let_def s1_def[symmetric] o path fd_of_def)
  then show "ms_devs ?t = ms_devs s" "ms_cands ?t = ms_cands s" "ms_bypath ?t = gm_del path (ms_bypath s)" by simp_all
  have fdo: "fd_of ?t = fd_of s" by (simp add: fd_of_def fun_eq_iff f(1))
  have "gm_get (ms_bypath s) p = Some d \<Longrightarrow> p = path" for p using entryD(2)[OF t(1), of p d] path by simp
  then have act: "actives ?t = actives s - {d}"
    using del_members[OF assms(2)] by (simp add: actives_def f(5) del: gm_rules)
  have cand: "candidates ?t = candidates s" by (simp add: candidates_def f(3))
  have "entries_ok ?t" by (rule entries_sub[OF t(1) f(1,2)]) (auto simp: f split: if_splits)
  moreover have "apart ?t" using t(2) by (auto simp: apart_def f)
  moreover have "byfd_sound ?t" using t(3) by (auto simp: byfd_sound_def f(6) act fdo split: if_splits)
  moreover have "retries_ok ?t" using t(4) by (simp add: retries_ok_def f)
  moreover have "sent_abs (ms_trace ?t)" using harmless_effect(2)[OF c(1) t(5)] by (simp add: f)
  moreover have "gh_open (gst ?t) \<subseteq> X \<union> fd_of ?t ` (actives ?t \<union> candidates ?t)"
    using t(6) harmless_effect(1)[OF c(1)] c(2) unfolding act cand fdo f(7) by blast
  ultimately show "tracked X ?t" by (simp add: tracked_def)
qed

lemma tracked_remove_candidate:
  assumes "tracked X s" "gm_get (ms_cands s) (pd_path (dv s d)) \<in> {None, Some d}"
  shows "tracked X (remove_candidate K d s)" "ms_devs (remove_candidate K d s) = ms_devs s"
    "ms_bypath (remove_candidate K d s) = ms_bypath s"
    "ms_cands (remove_candidate K d s) = gm_del (pd_path (dv s d)) (ms_cands s)"
proof -
  note t = trackedD[OF assms(1)]
  let ?t = "remove_candidate K d s"
  define s1 where "s1 = close_candidate_fd K d s"
  have c: "harmless s s1" "fd_of s d \<notin> gh_open (gst s1)" using close_harmless(2) by (simp_all add: s1_def)
  note o = only_traceD[OF harmless_only[OF c(1)]]
  have f: "ms_devs ?t = ms_devs s" "ms_next ?t = ms_next s" "ms_retries ?t = ms_retries s"
    "ms_cands ?t = gm_del (pd_path (dv s d)) (ms_cands s)"
    "ms_bypath ?t = ms_bypath s" "ms_byfd ?t = ms_byfd s" "ms_trace ?t = ms_trace s1"
    by (simp_all add: remove_candidate_def Let_def s1_def[symmetric] o)
  then show "ms_devs ?t = ms_devs s" "ms_bypath ?t = ms_bypath s"
    "ms_cands ?t = gm_del (pd_path (dv s d)) (ms_cands s)" by simp_all
  have fdo: "fd_of ?t = fd_of s" by (simp add: fd_of_def fun_eq_iff f(1))
  have act: "actives ?t = actives s" by (simp add: actives_def f(5))
  have cand: "candidates s - {d} \<subseteq> candidates ?t"
  proof
    fix e assume e: "e \<in> candidates s - {d}"
    then obtain p where p: "gm_get (ms_cands s) p = Some e" by (auto simp: candidates_def)
    moreover have "p \<noteq> pd_path (dv s d)" using p e assms(2) by auto
    ultimately show "e \<in> candidates ?t" by (auto simp: candidates_def f(4))
  qed
  have "entries_ok ?t" by (rule entries_sub[OF t(1) f(1,2)]) (auto simp: f split: if_splits)
  moreover have "apart ?t" using t(2) by (auto simp: apart_def f)
  moreover have "byfd_sound ?t" using t(3) by (simp add: byfd_sound_def f(6) act fdo)
  moreover have "retries_ok ?t" using t(4) by (simp add: retries_ok_def f)
  moreover have "sent_abs (ms_trace ?t)" using harmless_effect(2)[OF c(1) t(5)] by (simp add: f)
  moreover have "gh_open (gst ?t) \<subseteq> X \<union> fd_of ?t ` (actives ?t \<union> candidates ?t)"
    using t(6) harmless_effect(1)[OF c(1)] c(2) cand unfolding act fdo f(7) by blast
  ultimately show "tracked X ?t" by (simp add: tracked_def)
qed

text \<open>Moving an acquired candidate to the active devices.\<close>

definition promote :: "did \<Rightarrow> mstate \<Rightarrow> mstate" where
  "promote d s =
     (let path = pd_path (dv s d) in
      s\<lparr>ms_cands := gm_del path (ms_cands s), ms_retries := gm_del path (ms_retries s),
        ms_bypath := gm_put path d (ms_bypath s), ms_byfd := gm_put (pd_fd (dv s d)) d (ms_byfd s)\<rparr>)"

lemma tracked_promote:
  assumes "tracked X s" "gm_get (ms_cands s) (pd_path (dv s d)) = Some d"
  shows "tracked X (promote d s)"
proof -
  note t = trackedD[OF assms(1)]
  define path where "path = pd_path (dv s d)"
  let ?t = "promote d s"
  have own: "gm_get (ms_cands s) path = Some d" using assms(2) by (simp add: path_def)
  then have none: "gm_get (ms_bypath s) path = None" using t(2) unfolding apart_def by (metis option.distinct(1))
  have f: "ms_devs ?t = ms_devs s" "ms_next ?t = ms_next s" "ms_cands ?t = gm_del path (ms_cands s)"
    "ms_bypath ?t = gm_put path d (ms_bypath s)" "ms_byfd ?t = gm_put (fd_of s d) d (ms_byfd s)"
    "ms_retries ?t = gm_del path (ms_retries s)" "ms_trace ?t = ms_trace s"
    by (simp_all add: promote_def Let_def path_def fd_of_def)
  have fdo: "fd_of ?t = fd_of s" by (simp add: fd_of_def fun_eq_iff f(1))
  have act: "actives ?t = insert d (actives s)"
    using none by (auto simp: actives_def f(4)) (metis option.distinct(1))
  have "gm_get (ms_cands s) q = Some d \<Longrightarrow> q = path" for q using entryD(2)[OF t(1), of q d] by (auto simp: path_def)
  then have cand: "candidates ?t = candidates s - {d}"
    using del_members[OF own] by (simp add: candidates_def f(3) del: gm_rules)
  have "entries_ok ?t" by (rule entries_sub[OF t(1) f(1,2)]) (use own in \<open>auto simp: f split: if_splits\<close>)
  moreover have "apart ?t" using t(2) by (auto simp: apart_def f)
  moreover have "byfd_sound ?t" using t(3) by (auto simp: byfd_sound_def f(5) act fdo split: if_splits)
  moreover have "retries_ok ?t" using t(4) by (simp add: retries_ok_def f)
  moreover have "gh_open (gst ?t) \<subseteq> X \<union> fd_of ?t ` (actives ?t \<union> candidates ?t)"
    using t(6) unfolding act cand fdo f(7) by blast
  ultimately show ?thesis using t(5) by (simp add: tracked_def f(7))
qed

section \<open>Candidates\<close>

lemma activate_by_promote:
  "activate_device K d s =
     (case acquire_idle K d s of
        (Inl e, s1) \<Rightarrow> (Inl (AcquireFailed e), s1)
      | (Inr None, s1) \<Rightarrow> (Inr (), s1)
      | (Inr (Some pressed), s1) \<Rightarrow>
          (case send_message K (resync_message (pd_path (dv s1 d)) pressed) (snd (sync_device_leds K d (promote d s1))) of
             (True, s4) \<Rightarrow> (Inr (), s4)
           | (False, s4) \<Rightarrow> (Inl AnnounceCancelled, s4)))"
  by (simp add: activate_device_def promote_def Let_def case_prod_unfold split: sum.split option.split)

text \<open>Accepting a device changes the maps under its own path only.\<close>

definition elsewhere_same :: "device \<Rightarrow> mstate \<Rightarrow> mstate \<Rightarrow> bool" where
  "elsewhere_same path s s' \<longleftrightarrow> ms_devs s' = ms_devs s \<and>
     (\<forall>q. q \<noteq> path \<longrightarrow> gm_get (ms_bypath s') q = gm_get (ms_bypath s) q \<and> gm_get (ms_cands s') q = gm_get (ms_cands s) q)"

lemma elsewhere_trace: "only_trace s s' \<Longrightarrow> elsewhere_same path s s'"
  by (simp add: elsewhere_same_def only_traceD)

lemma elsewhere_trans: "elsewhere_same path s s' \<Longrightarrow> elsewhere_same path s' s'' \<Longrightarrow> elsewhere_same path s s''"
  by (simp add: elsewhere_same_def)

lemma elsewhere_schedule: "elsewhere_same path s (schedule_retry K p g s)"
  by (simp add: elsewhere_same_def schedule_retry_def Let_def)

lemma elsewhere_remove: "pd_path (dv s d) = path \<Longrightarrow> elsewhere_same path s (remove_candidate K d s)"
  by (simp add: elsewhere_same_def remove_candidate_def close_candidate_fd_def grab_fd_def Let_def)

lemma elsewhere_promote: "pd_path (dv s d) = path \<Longrightarrow> elsewhere_same path s (promote d s)"
  by (simp add: elsewhere_same_def promote_def Let_def)

lemma send_only: "send_message K m s = (r, s') \<Longrightarrow> only_trace s s'"
  by (auto simp: send_message_def split: if_splits)

lemma tracked_activate:
  assumes "tracked X s" "gm_get (ms_cands s) path = Some d" "activate_device K d s = (r, s')"
  shows "tracked X s'" "gm_get (ms_cands s') path \<in> {None, Some d}"
proof -
  have ent: "pd_path (dv s d) = path" "is_abs path" using entryD[OF trackedD(1)[OF assms(1)]] assms(2) by blast+
  obtain ar s1 where a: "acquire_idle K d s = (ar, s1)" by (cases "acquire_idle K d s")
  have h1: "harmless s s1" using harmless_acquire[OF harmless_refl, of s K d] a by simp
  note t1 = tracked_harmless[OF assms(1) h1] and o1 = only_traceD[OF harmless_only[OF h1]]
  have "tracked X s' \<and> gm_get (ms_cands s') path \<in> {None, Some d}"
  proof (cases "\<exists>p. ar = Inr (Some p)")
    case False
    then have "s' = s1" using assms(3) a by (auto simp: activate_by_promote split: sum.splits option.splits)
    then show ?thesis using t1 assms(2) o1 by simp
  next
    case True
    then obtain p where p: "ar = Inr (Some p)" by blast
    let ?s3 = "snd (sync_device_leds K d (promote d s1))"
    have d1: "pd_path (dv s1 d) = path" by (simp add: o1 ent)
    have s': "s' = snd (send_message K (resync_message path p) ?s3)"
      using assms(3) a p d1 by (simp add: activate_by_promote case_prod_unfold split: bool.splits)
    have t2: "tracked X (promote d s1)" using tracked_promote[OF t1] assms(2) d1 by (simp add: o1)
    have "harmless (promote d s1) s'"
      unfolding s' using ent(2) by (intro harmless_send harmless_sync_device harmless_refl) simp
    note t3 = tracked_harmless[OF t2 this] and o3 = only_traceD[OF harmless_only[OF this]]
    then show ?thesis by (simp add: promote_def Let_def d1)
  qed
  then show "tracked X s'" "gm_get (ms_cands s') path \<in> {None, Some d}" by auto
qed

lemma elsewhere_activate:
  assumes "pd_path (dv s d) = path" "activate_device K d s = (r, s')"
  shows "elsewhere_same path s s'"
proof -
  obtain ar s1 where a: "acquire_idle K d s = (ar, s1)" by (cases "acquire_idle K d s")
  have h1: "harmless s s1" using harmless_acquire[OF harmless_refl, of s K d] a by simp
  note e1 = elsewhere_trace[OF harmless_only[OF h1], of path]
  show ?thesis
  proof (cases "\<exists>p. ar = Inr (Some p)")
    case False
    then show ?thesis using assms(2) a e1 by (auto simp: activate_by_promote split: sum.splits option.splits)
  next
    case True
    then obtain p where p: "ar = Inr (Some p)" by blast
    let ?s3 = "snd (sync_device_leds K d (promote d s1))"
    have d1: "pd_path (dv s1 d) = path" using assms(1) only_traceD(1)[OF harmless_only[OF h1]] by simp
    have s': "s' = snd (send_message K (resync_message path p) ?s3)"
      using assms(2) a p d1 by (simp add: activate_by_promote case_prod_unfold split: bool.splits)
    have "only_trace (promote d s1) ?s3" using harmless_only harmless_sync_device harmless_refl by blast
    moreover have "only_trace ?s3 s'" using send_only unfolding s' by (metis prod.collapse)
    ultimately have "elsewhere_same path (promote d s1) s'" using elsewhere_trace only_trace_trans by blast
    then show ?thesis using elsewhere_trans[OF elsewhere_trans[OF e1 elsewhere_promote[OF d1]]] by blast
  qed
qed

lemma elsewhere_activate_or_retry:
  assumes "pd_path (dv s d) = path"
  shows "elsewhere_same path s (activate_or_retry K d s)"
proof -
  obtain r s1 where a: "activate_device K d s = (r, s1)" by (cases "activate_device K d s")
  note e = elsewhere_activate[OF assms a]
  have "pd_path (dv s1 d) = path" using e assms by (simp add: elsewhere_same_def)
  from elsewhere_trans[OF elsewhere_trans[OF e elsewhere_remove[OF this]] elsewhere_schedule] e
  show ?thesis by (simp add: activate_or_retry_def a Let_def split: sum.split)
qed

lemma tracked_activate_or_retry:
  assumes "tracked X s" "gm_get (ms_cands s) path = Some d"
  shows "tracked X (activate_or_retry K d s)"
proof -
  have ent: "pd_path (dv s d) = path" "is_abs path" using entryD[OF trackedD(1)[OF assms(1)]] assms(2) by blast+
  obtain r s1 where a: "activate_device K d s = (r, s1)" by (cases "activate_device K d s")
  note t1 = tracked_activate[OF assms a]
  have p1: "pd_path (dv s1 d) = path" using elsewhere_activate[OF ent(1) a] ent(1) by (simp add: elsewhere_same_def)
  note rm = tracked_remove_candidate[OF t1(1), of d K, unfolded p1, OF t1(2)]
  have "tracked X (schedule_retry K path (pd_gen (dv s1 d)) (remove_candidate K d s1))"
    using tracked_schedule[OF rm(1) ent(2)] .
  then show ?thesis using t1(1) by (simp add: activate_or_retry_def a Let_def rm(2) p1 split: sum.split)
qed

lemma tracked_new_candidate:
  assumes "tracked {fd_of s d} s" "d < ms_next s" "pd_path (dv s d) = path" "is_abs path"
    "gm_get (ms_bypath s) path = None" "gm_get (ms_cands s) path = None"
  shows "tracked {} (s\<lparr>ms_cands := gm_put path d (ms_cands s)\<rparr>)"
proof -
  note t = trackedD[OF assms(1)]
  let ?t = "s\<lparr>ms_cands := gm_put path d (ms_cands s)\<rparr>"
  have act: "actives ?t = actives s" by (simp add: actives_def)
  have cand: "candidates ?t = insert d (candidates s)"
    using assms(6) by (auto simp: candidates_def) (metis option.distinct(1))
  have fdo: "fd_of ?t = fd_of s" by (simp add: fd_of_def fun_eq_iff)
  have "entries_ok ?t"
    unfolding entries_ok_def
  proof (intro allI impI)
    fix q e assume "gm_get (ms_bypath ?t) q = Some e \<or> gm_get (ms_cands ?t) q = Some e"
    then have "(q = path \<and> e = d) \<or> gm_get (ms_bypath s) q = Some e \<or> gm_get (ms_cands s) q = Some e"
      by (auto split: if_splits)
    then show "e < ms_next ?t \<and> pd_path (dv ?t e) = q \<and> is_abs q"
      using assms(2-4) entryD[OF t(1), of q e] by auto
  qed
  moreover have "apart ?t" using t(2) assms(5) by (auto simp: apart_def)
  moreover have "byfd_sound ?t" using t(3) by (simp add: byfd_sound_def act fdo)
  moreover have "retries_ok ?t" using t(4) by (simp add: retries_ok_def)
  moreover have "gh_open (gst ?t) \<subseteq> {} \<union> fd_of ?t ` (actives ?t \<union> candidates ?t)"
    using t(6) unfolding act cand fdo by auto
  ultimately show ?thesis using t(5) by (simp add: tracked_def)
qed

lemma tracked_accept:
  assumes "tracked {fd_of s d} s" "d < ms_next s" "pd_path (dv s d) = path" "is_abs path"
    "gm_get (ms_bypath s) path = None" "gm_get (ms_cands s) path = None"
  shows "tracked {} (accept_candidate K d s)" "elsewhere_same path s (accept_candidate K d s)"
proof -
  let ?s1 = "s\<lparr>ms_cands := gm_put path d (ms_cands s)\<rparr>"
  note t1 = tracked_new_candidate[OF assms]
  obtain r s2 where k: "keys_fd K (pd_fd (dv ?s1 d)) ?s1 = (r, s2)" by (cases "keys_fd K (pd_fd (dv ?s1 d)) ?s1")
  have h: "harmless ?s1 s2" using harmless_calls(1)[OF harmless_refl, of ?s1 K "pd_fd (dv ?s1 d)"] k by simp
  note t2 = tracked_harmless[OF t1 h] and o2 = only_traceD[OF harmless_only[OF h]]
  have own: "gm_get (ms_cands s2) path = Some d" and p2: "pd_path (dv s2 d) = path" by (simp_all add: o2 assms(3))
  note rm = tracked_remove_candidate[OF t2, of d K, unfolded p2]
  have e2: "elsewhere_same path s s2"
    using elsewhere_trace[OF harmless_only[OF h], of path] by (simp add: elsewhere_same_def)
  note def' = accept_candidate_def[of K d s, unfolded Let_def assms(3) k prod.case]
  show "tracked {} (accept_candidate K d s)"
    using t2 tracked_schedule[OF rm(1) assms(4)] own tracked_activate_or_retry[OF t2 own] by (simp add: def' split: sum.split)
  show "elsewhere_same path s (accept_candidate K d s)"
    using e2 elsewhere_trans[OF elsewhere_trans[OF e2 elsewhere_remove[OF p2]] elsewhere_schedule]
      elsewhere_trans[OF e2 elsewhere_activate_or_retry[OF p2]] by (simp add: def' split: sum.split)
qed

section \<open>Opening\<close>

text \<open>What opening a node leaves: the descriptor closed, or one device more that is not tracked yet.\<close>

definition opened_one :: "device \<Rightarrow> mstate \<Rightarrow> did option \<Rightarrow> mstate \<Rightarrow> bool" where
  "opened_one path s r s' \<longleftrightarrow> ms_bypath s' = ms_bypath s \<and> ms_cands s' = ms_cands s \<and>
     (case r of None \<Rightarrow> tracked {} s'
      | Some d \<Rightarrow> tracked {fd_of s' d} s' \<and> d < ms_next s' \<and> pd_path (dv s' d) = path)"

lemma tracked_opened: "tracked {} s \<Longrightarrow> tracked {f} (note_call (COpened path f) s)"
proof -
  assume t: "tracked {} s"
  have "tracked ({f} \<union> {}) (note_call (COpened path f) s)"
    using trackedD(4,5)[OF t]
    by (intro tracked_cong[OF t]) (auto simp: retries_ok_def sent_abs_def ghost_step_def)
  then show ?thesis by simp
qed

lemma tracked_closed: "tracked {f} s \<Longrightarrow> tracked {} (note_call (CClose f) s)"
proof -
  assume t: "tracked {f} s"
  have h: "harmless s (note_call (CClose f) s)" by (rule harmless_close) simp
  have "f \<notin> gh_open (gst (note_call (CClose f) s))" by (simp add: ghost_step_def)
  then show ?thesis
    using tracked_harmless[OF t h] by (auto simp: tracked_def)
qed

lemma tracked_new_device:
  assumes "tracked {f} s"
  shows "opened_one path s (Some (ms_next s)) (snd (new_device path g f leds s))"
proof -
  let ?d = "ms_next s" and ?t = "snd (new_device path g f leds s)"
  have s2: "ms_bypath ?t = ms_bypath s" "ms_byfd ?t = ms_byfd s" "ms_cands ?t = ms_cands s"
    "ms_next ?t = Suc ?d" "ms_retries ?t = ms_retries s" "ms_trace ?t = ms_trace s"
    "dv ?t ?d = \<lparr>pd_path = path, pd_gen = g, pd_fd = f, pd_frame = [], pd_dropping = False, pd_leds = leds\<rparr>"
    "\<And>d. d < ?d \<Longrightarrow> dv ?t d = dv s d"
    by (simp_all add: new_device_def)
  have "retries_ok ?t" using trackedD(4)[OF assms] by (simp add: retries_ok_def s2)
  then have "tracked ({} \<union> {f}) ?t" using trackedD(5)[OF assms] by (intro tracked_cong[OF assms]) (simp_all add: s2)
  then show ?thesis by (simp add: opened_one_def s2(1,3,4,7) fd_of_def)
qed

lemma probe_candidate_one:
  assumes "tracked {f} s" "probe_candidate K P path g f s = (r, s')"
  shows "opened_one path s (case r of Inr (Some d) \<Rightarrow> Some d | _ \<Rightarrow> None) s'"
proof -
  obtain pr s1 where pr: "probe_fd K P f s = (pr, s1)" by (cases "probe_fd K P f s")
  have h: "harmless s s1" using harmless_probe[OF harmless_refl, of s K P f] pr by simp
  note t1 = tracked_harmless[OF assms(1) h] and o1 = only_traceD[OF harmless_only[OF h]]
  show ?thesis
  proof (cases "\<exists>leds. pr = Inr (Some leds)")
    case False
    then have "s' = note_call (CClose f) s1" "\<And>d. r \<noteq> Inr (Some d)"
      using assms(2) pr by (auto simp: probe_candidate_def split: sum.splits option.splits)
    then show ?thesis using tracked_closed[OF t1] by (auto simp: opened_one_def o1 split: sum.splits option.splits)
  next
    case True
    then obtain leds where leds: "pr = Inr (Some leds)" by blast
    then have "r = Inr (Some (ms_next s1))" "s' = snd (new_device path g f leds s1)"
      using assms(2) pr by (auto simp: probe_candidate_def new_device_def)
    then show ?thesis using tracked_new_device[OF t1, of path g leds] by (simp add: opened_one_def o1)
  qed
qed

lemma opened_one_start: "opened_one path s1 r s' \<Longrightarrow> harmless s s1 \<Longrightarrow> opened_one path s r s'"
  using only_traceD[OF harmless_only] by (simp add: opened_one_def)

lemma closed_one: "tracked {f} s \<Longrightarrow> opened_one path s None (note_call (CClose f) s)"
  using tracked_closed by (simp add: opened_one_def)

lemma opened_one_note: "opened_one path (note_call c s) r s' = opened_one path s r s'"
  by (simp add: opened_one_def)

lemma harmless_one: "tracked {} s \<Longrightarrow> harmless s s' \<Longrightarrow> opened_one path s None s'"
  using only_traceD[OF harmless_only] tracked_harmless by (simp add: opened_one_def)

lemma open_candidate_one:
  assumes "tracked {} s" "open_candidate K P path g s = (r, s')"
  shows "opened_one path s (case r of Inr (Some d) \<Rightarrow> Some d | _ \<Rightarrow> None) s'"
proof (cases "k_open K (ms_trace s) path")
  case (Inl e)
  then show ?thesis
    using assms(2) harmless_one[OF assms(1) harmless_plain(2)[OF harmless_refl]]
    by (auto simp: open_candidate_def open_node_def)
next
  case (Inr f)
  let ?s1 = "note_call (COpened path f) s"
  note t1 = tracked_opened[OF assms(1), of f path]
  obtain vr s2 where v: "validate_opened K f path (gn_devpath g) ?s1 = (vr, s2)"
    by (cases "validate_opened K f path (gn_devpath g) ?s1")
  have h: "harmless ?s1 s2"
    using harmless_opening(1)[OF harmless_refl, of ?s1 K f path "gn_devpath g"] v by simp
  note t2 = tracked_harmless[OF t1 h]
  have "opened_one path ?s1 (case r of Inr (Some d) \<Rightarrow> Some d | _ \<Rightarrow> None) s'"
  proof (cases vr)
    case (Inl e)
    then show ?thesis
      using assms(2) \<open>k_open K (ms_trace s) path = Inr f\<close> v opened_one_start[OF closed_one[OF t2] h]
      by (auto simp: open_candidate_def open_node_def)
  next
    case (Inr u)
    then have "probe_candidate K P path g f s2 = (r, s')"
      using assms(2) \<open>k_open K (ms_trace s) path = Inr f\<close> v by (simp add: open_candidate_def open_node_def)
    from opened_one_start[OF probe_candidate_one[OF t2 this] h] show ?thesis .
  qed
  then show ?thesis by (simp add: opened_one_note)
qed

lemma open_enumerated_one:
  assumes "tracked {} s" "open_enumerated K P path s = ((r, g), s')"
  shows "opened_one path s (case r of Inr (Some d) \<Rightarrow> Some d | _ \<Rightarrow> None) s'"
proof (cases "k_open K (ms_trace s) path")
  case (Inl e)
  have h: "harmless s (snd (sampled_generation K path (note_call (CLook path) s)))"
    by (intro harmless_opening(2) harmless_plain(2) harmless_refl)
  show ?thesis
    using assms(2) Inl harmless_one[OF assms(1) h]
    by (auto simp: open_enumerated_def open_node_def split: prod.splits sum.splits)
next
  case (Inr f)
  let ?s1 = "note_call (COpened path f) s"
  let ?sq = "note_call (CQuery f) ?s1"
  note t1 = tracked_opened[OF assms(1), of f path]
  have hq: "harmless ?s1 ?sq" by (intro harmless_plain(1) harmless_refl)
  obtain gr s2 where gr: "sampled_generation K path ?sq = (gr, s2)" by (cases "sampled_generation K path ?sq")
  have h2: "harmless ?s1 s2" using harmless_opening(2)[OF hq, of K path] gr by simp
  have closed: "opened_one path s None (note_call (CClose f) t)" if "harmless ?s1 t" for t
    using opened_one_start[OF closed_one[OF tracked_harmless[OF t1 that]] that] by (simp add: opened_one_note)
  note e = open_enumerated_def[of K P path s, unfolded open_node_def Inr sum.case prod.case]
  show ?thesis
  proof (cases "k_fstat K (ms_trace s @ [COpened path f]) f")
    case (Inl x)
    then show ?thesis using assms(2) closed[OF hq] by (auto simp: e)
  next
    case fst: (Inr st)
    show ?thesis
    proof (cases gr)
      case (Inl x)
      then show ?thesis using assms(2) closed[OF h2] by (auto simp: e fst gr)
    next
      case (Inr gen)
      obtain v s3 where v: "validate_identity K path st s2 = (v, s3)" by (cases "validate_identity K path st s2")
      have h3: "harmless ?s1 s3" using harmless_identity(1)[OF h2, of K path st] v by simp
      show ?thesis
      proof (cases v)
        case (Inl x)
        then show ?thesis using assms(2) closed[OF h3] Inr by (auto simp: e fst gr v)
      next
        case ok: (Inr u)
        obtain pr s4 where pr: "probe_candidate K P path gen f s3 = (pr, s4)" by (cases "probe_candidate K P path gen f s3")
        have "opened_one path s (case pr of Inr (Some d) \<Rightarrow> Some d | _ \<Rightarrow> None) s4"
          using opened_one_start[OF probe_candidate_one[OF tracked_harmless[OF t1 h3] pr] h3] by (simp add: opened_one_note)
        then show ?thesis using assms(2) Inr ok by (cases pr) (auto simp: e fst gr v pr)
      qed
    qed
  qed
qed

lemma tracked_consider:
  assumes "tracked {} s" "is_abs path"
  shows "tracked {} (consider_node K P path g s)"
proof (cases "gm_get (ms_bypath s) path \<noteq> None \<or> gm_get (ms_cands s) path \<noteq> None")
  case True
  then show ?thesis using assms(1) by (simp add: consider_node_def)
next
  case False
  obtain r s1 where r: "open_candidate K P path g s = (r, s1)" by (cases "open_candidate K P path g s")
  note opn = open_candidate_one[OF assms(1) r]
  note e = consider_node_def[of K P path g s, unfolded r prod.case]
  show ?thesis
  proof (cases "\<exists>d. r = Inr (Some d)")
    case True
    then obtain d where d: "r = Inr (Some d)" by blast
    then show ?thesis using opn False tracked_accept(1)[of s1 d path K] assms(2) by (simp add: e opened_one_def)
  next
    case nodev: False
    then have t1: "tracked {} s1" using opn by (auto simp: opened_one_def split: sum.splits option.splits)
    have del: "tracked {} (s1\<lparr>ms_retries := gm_del path (ms_retries s1)\<rparr>)"
      using retries_ok_del[OF trackedD(4)[OF t1]] by (intro tracked_retries[OF t1])
    show ?thesis
      using False nodev del tracked_schedule[OF t1 assms(2)] by (auto simp: e split: sum.splits option.splits)
  qed
qed

section \<open>Udev events\<close>

lemma tracked_send:
  assumes "tracked X s" "abs_message m"
  shows "tracked X (snd (send_message K m s))" "tracked X (snd (send_or_stop K m s))"
  using tracked_harmless[OF assms(1) harmless_send[OF harmless_refl assms(2), of s K]]
  by (simp_all add: send_or_stop_def case_prod_unfold split: bool.split)

lemma tracked_adopt_retry:
  assumes "tracked X s"
  shows "tracked X (snd (adopt_retry_add ev g s))"
proof (cases "gm_get (ms_retries s) (de_path ev)")
  case None
  then show ?thesis using assms by (simp add: adopt_retry_add_def)
next
  case (Some st)
  note ok = trackedD(4)[OF assms]
  have "is_abs (de_path ev)" "rt_attempts st \<le> max_reacquisition_tries" using ok Some by (simp_all add: retries_ok_def)
  then show ?thesis
    using assms Some tracked_retries[OF assms] retries_ok_put[OF ok, of "de_path ev"]
    by (simp add: adopt_retry_add_def Let_def)
qed

lemma tracked_adopt_gen: "tracked X s \<Longrightarrow> tracked X (adopt_gen d g s)"
  unfolding adopt_gen_def by (rule tracked_upd) simp_all

lemma tracked_removed:
  assumes "tracked X s" "gm_get (ms_bypath s) path = Some d"
  shows "tracked X (snd (send_or_stop K (removed_message path) (remove_active K d s)))"
  using entryD(3)[OF trackedD(1)[OF assms(1)], of path d] assms(2)
  by (intro tracked_send(2) tracked_remove_active(1)[OF assms]) simp

lemma tracked_replace:
  assumes "tracked X s"
  shows "tracked X (snd (replace_active K path s))" "tracked X (replace_candidate K path s)"
proof -
  show "tracked X (snd (replace_active K path s))"
    using assms tracked_removed[OF assms] by (simp add: replace_active_def split: option.split)
  have "tracked X (remove_candidate K d s)" if d: "gm_get (ms_cands s) path = Some d" for d
    using entryD(2)[OF trackedD(1)[OF assms], of path d] d by (intro tracked_remove_candidate(1)[OF assms]) simp
  then show "tracked X (replace_candidate K path s)" using assms by (simp add: replace_candidate_def split: option.split)
qed

lemma tracked_add:
  assumes "tracked {} s" "is_abs (de_path ev)"
  shows "tracked {} (snd (handle_add K P ev s))"
proof -
  obtain g s1 where a: "adopt_retry_add ev (generation_from_event ev) s = (g, s1)"
    by (cases "adopt_retry_add ev (generation_from_event ev) s")
  have t1: "tracked {} s1" using tracked_adopt_retry[OF assms(1), of ev "generation_from_event ev"] a by simp
  define path where "path = de_path ev"
  note e = handle_add_def[of K P ev s, unfolded Let_def a prod.case, folded path_def]
  let ?s2 = "snd (replace_active K path s1)"
  let ?s3 = "replace_candidate K path ?s2"
  have t3: "tracked {} ?s2" "tracked {} ?s3" using tracked_replace[OF t1] tracked_replace[OF tracked_replace(1)[OF t1]] by blast+
  have t4: "tracked {} (snd (begin_retry path g ?s3))" using tracked_begin[OF t3(2)] .
  have t5: "tracked {} (consider_node K P path g (snd (begin_retry path g ?s3)))"
    using tracked_consider[OF t4] assms(2) by (simp add: path_def)
  have adopted: "tracked {} (adopt_gen d g s1)" for d using tracked_adopt_gen[OF t1] .
  have "tracked {} (s2\<lparr>ms_retries := gm_put path (st\<lparr>rt_gen := h\<rparr>) (ms_retries s2)\<rparr>)"
    if "tracked {} s2" "gm_get (ms_retries s2) path = Some st" for s2 st h
    using retries_ok_put[OF trackedD(4)[OF that(1)], of path "st\<lparr>rt_gen := h\<rparr>"] that trackedD(4)[OF that(1)]
    by (intro tracked_retries) (simp_all add: retries_ok_def)
  then have again: "tracked {} ((adopt_gen d g s1)\<lparr>ms_retries := gm_put path (st\<lparr>rt_gen := h\<rparr>) (ms_retries (adopt_gen d g s1))\<rparr>)"
    if "gm_get (ms_retries (adopt_gen d g s1)) path = Some st" for d st h
    using adopted that by blast
  show ?thesis
    using adopted again t3 t4 t5
    by (simp add: e case_prod_unfold split: option.split sum.split bool.split)
qed

lemma tracked_handle_remove:
  assumes "tracked {} s"
  shows "tracked {} (snd (handle_remove K ev s))"
proof -
  define path where "path = de_path ev"
  define s1 where "s1 = (case gm_get (ms_retries s) path of
      None \<Rightarrow> s
    | Some st \<Rightarrow> if matches_removal (rt_gen st) ev then s\<lparr>ms_retries := gm_del path (ms_retries s)\<rparr> else s)"
  define s2 where "s2 = (case gm_get (ms_cands s1) path of
      None \<Rightarrow> s1
    | Some d \<Rightarrow> if matches_removal (pd_gen (dv s1 d)) ev then remove_candidate K d s1 else s1)"
  have t1: "tracked {} s1"
    using assms tracked_retries[OF assms retries_ok_del[OF trackedD(4)[OF assms]]]
    by (simp add: s1_def split: option.split)
  have "tracked {} (remove_candidate K d s1)" if d: "gm_get (ms_cands s1) path = Some d" for d
    using entryD(2)[OF trackedD(1)[OF t1], of path d] d by (intro tracked_remove_candidate(1)[OF t1]) simp
  then have t2: "tracked {} s2" using t1 by (simp add: s2_def split: option.split)
  note e = handle_remove_def[of K ev s, unfolded Let_def, folded path_def, folded s1_def, folded s2_def]
  show ?thesis using t2 tracked_removed[OF t2] by (simp add: e split: option.split)
qed

lemma tracked_udev_event:
  assumes "tracked {} s" "is_abs (de_path ev)"
  shows "tracked {} (snd (handle_udev_event K P ev s))"
proof -
  have t1: "tracked {} (s\<lparr>ms_latest := snd (accept_sequence ev (ms_latest s))\<rparr>)" using tracked_maps(1)[OF assms(1)] .
  show ?thesis
    using t1 tracked_handle_remove[OF t1] tracked_add[OF t1 assms(2)] by (simp add: handle_udev_event_def case_prod_unfold Let_def)
qed

lemma tracked_udev_events:
  "tracked {} s \<Longrightarrow> (\<And>ev. ev \<in> set evs \<Longrightarrow> is_abs (de_path ev)) \<Longrightarrow> tracked {} (snd (handle_udev_events K P evs s))"
proof (induction evs arbitrary: s)
  case (Cons ev evs)
  have "tracked {} (snd (handle_udev_event K P ev s))" using tracked_udev_event[OF Cons.prems(1)] Cons.prems(2) by simp
  then show ?case using Cons by (simp add: case_prod_unfold split: sum.split)
qed simp

lemma read_events_paths:
  assumes "read_device_events [] script = Some (evs, err)" "ev \<in> set evs"
  shows "is_abs (de_path ev)"
proof -
  obtain ds where "evs = List.map_filter accepted_event ds" using read_events_exact[OF assms(1)] by auto
  then obtain r where r: "accepted_event r = Some ev" using assms(2) by (auto simp: List.map_filter_def)
  obtain d :: datagram where "parse_device_event (dg_bytes d) = Some (Some ev)" using accepted_event_root[OF r] by auto
  then have "event_ok ev" by (auto simp: parse_device_event_def event_of_values_ok split: option.splits)
  then show ?thesis by (auto simp: event_ok_def is_abs_def has_prefix_def)
qed

lemma tracked_udev_ready:
  assumes "tracked {} s"
  shows "tracked {} (snd (handle_udev_ready K P hangup s))"
proof -
  have t: "tracked {} (note_call CTime s)" using tracked_harmless[OF assms harmless_time[OF harmless_refl]] .
  show ?thesis
    using assms t tracked_udev_events[OF t read_events_paths]
    by (auto simp: handle_udev_ready_def split: option.splits)
qed

section \<open>Reading an active keyboard\<close>

definition reads_on :: "did \<Rightarrow> mstate \<Rightarrow> mstate \<Rightarrow> bool" where
  "reads_on d s s' \<longleftrightarrow> tracked {} s' \<and> ms_bypath s' = ms_bypath s"

lemma reads_on_active: "reads_on d s s' \<Longrightarrow> d \<in> actives s \<Longrightarrow> d \<in> actives s'"
  by (simp add: reads_on_def actives_def)

lemma reads_on_trans: "reads_on d s s' \<Longrightarrow> reads_on d s' s'' \<Longrightarrow> reads_on d s s''"
  by (simp add: reads_on_def)

lemma reads_on_harmless: "tracked {} s \<Longrightarrow> harmless s s' \<Longrightarrow> reads_on d s s'"
  using tracked_harmless only_traceD(3)[OF harmless_only] by (simp add: reads_on_def)

lemma reads_on_upd:
  "tracked {} s \<Longrightarrow> (\<And>p. pd_fd (h p) = pd_fd p \<and> pd_path (h p) = pd_path p) \<Longrightarrow> reads_on d s (upd_dev d h s)"
  using tracked_upd by (simp add: reads_on_def upd_dev_def)

lemma reads_on_event:
  assumes "tracked {} s" "d \<in> actives s"
  shows "reads_on d s (snd (read_event K d ev s))"
proof -
  have path: "is_abs (pd_path (dv s d))" using tracked_entry(2)[OF trackedD(1)[OF assms(1)]] assms(2) by simp
  have r0: "reads_on d s s" using assms(1) by (simp add: reads_on_def)
  let ?k = "snd (keys_fd K (pd_fd (dv s d)) s)"
  have h: "harmless s ?k" by (rule harmless_calls(1)) simp
  have "harmless s (snd (send_message K (resync_message (pd_path (dv s d)) pressed) ?k))" for pressed
    using path by (intro harmless_send h) simp
  note r2 = reads_on_harmless[OF assms(1) this]
  have r3: "reads_on d s (upd_dev d f (snd (send_message K (resync_message (pd_path (dv s d)) pressed) ?k)))"
    if "\<And>p. pd_fd (f p) = pd_fd p \<and> pd_path (f p) = pd_path p" for pressed f
    using reads_on_trans[OF r2 reads_on_upd] r2 that by (simp add: reads_on_def)
  let ?s1 = "upd_dev d (\<lambda>p. p\<lparr>pd_frame := pd_frame p @ [ev]\<rparr>) s"
  have r1: "reads_on d s ?s1" using reads_on_upd[OF assms(1)] by simp
  have path1: "pd_path (dv ?s1 d) = pd_path (dv s d)" by (simp add: upd_dev_def)
  let ?m = "frame_message \<lparr>fr_device = pd_path (dv s d), fr_events = pd_frame (dv ?s1 d)\<rparr>"
  have "harmless ?s1 (snd (send_message K ?m ?s1))" using path by (intro harmless_send harmless_refl) simp
  then have r4: "reads_on d ?s1 (snd (send_message K ?m ?s1))" using r1 by (intro reads_on_harmless) (simp_all add: reads_on_def)
  have r5: "reads_on d (snd (send_message K ?m ?s1)) (upd_dev d (\<lambda>p. p\<lparr>pd_frame := []\<rparr>) (snd (send_message K ?m ?s1)))"
    using r4 by (intro reads_on_upd) (simp_all add: reads_on_def)
  have r6: "reads_on d s (upd_dev d (\<lambda>p. p\<lparr>pd_frame := [], pd_dropping := True\<rparr>) s)" using reads_on_upd[OF assms(1)] by simp
  show ?thesis
    using r0 r1 r2 r3 r6 reads_on_harmless[OF assms(1) h] reads_on_trans[OF r1 r4] reads_on_trans[OF reads_on_trans[OF r1 r4] r5]
    by (simp add: read_event_def Let_def case_prod_unfold split: sum.split bool.split)
qed

lemma reads_on_events: "tracked {} s \<Longrightarrow> d \<in> actives s \<Longrightarrow> reads_on d s (snd (read_events K d evs s))"
proof (induction evs arbitrary: s)
  case (Cons ev evs)
  note r = reads_on_event[OF Cons.prems, of K ev]
  have "tracked {} (snd (read_event K d ev s))" using r by (simp add: reads_on_def)
  from Cons.IH[OF this reads_on_active[OF r Cons.prems(2)]] r show ?case
    by (auto simp: case_prod_unfold split: sum.split intro: reads_on_trans)
qed (simp add: reads_on_def)

lemma reads_on_chunks: "tracked {} s \<Longrightarrow> d \<in> actives s \<Longrightarrow> reads_on d s (snd (read_chunks K d reads s))"
proof (induction reads arbitrary: s)
  case (Cons r reads)
  have r0: "reads_on d s s" using Cons.prems(1) by (simp add: reads_on_def)
  have re: "reads_on d s (snd (read_events K d evs s))" for evs using reads_on_events[OF Cons.prems] .
  have "reads_on d s (snd (read_chunks K d reads (snd (read_events K d evs s))))" for evs
    using reads_on_trans[OF re Cons.IH[OF _ reads_on_active[OF re Cons.prems(2)]]] re by (simp add: reads_on_def)
  then show ?case using r0 re by (cases r) (auto simp: case_prod_unfold split: sum.split decode_error.split)
qed (simp add: reads_on_def)

lemma reads_on_ready:
  assumes "tracked {} s" "d \<in> actives s"
  shows "reads_on d s (snd (read_ready K d s))"
proof -
  have r: "reads_on d s (note_call (CRead (pd_fd (dv s d))) s)"
    using reads_on_harmless[OF assms(1) harmless_plain(9)[OF harmless_refl]] .
  have "tracked {} (note_call (CRead (pd_fd (dv s d))) s)" using r by (simp add: reads_on_def)
  from reads_on_trans[OF r reads_on_chunks[OF this reads_on_active[OF r assms(2)]]]
  show ?thesis by (simp add: read_ready_def Let_def)
qed

lemma tracked_device_ready:
  assumes "tracked {} s"
  shows "tracked {} (snd (handle_device_ready K f hangup s))"
proof (cases "gm_get (ms_byfd s) f")
  case None
  then show ?thesis using assms by (simp add: handle_device_ready_def)
next
  case (Some d)
  have d: "d \<in> actives s" using trackedD(3)[OF assms] Some by (simp add: byfd_sound_def)
  obtain r s1 where r: "read_ready K d s = (r, s1)" by (cases "read_ready K d s")
  have r1: "reads_on d s s1" using reads_on_ready[OF assms d, of K] r by simp
  then have t1: "tracked {} s1" by (simp add: reads_on_def)
  have d1: "d \<in> actives s1" using reads_on_active[OF r1 d] .
  have own: "gm_get (ms_bypath s1) (pd_path (dv s1 d)) = Some d" using member_path(1)[OF trackedD(1)[OF t1]] d1 by simp
  have path: "is_abs (pd_path (dv s1 d))" using tracked_entry(2)[OF trackedD(1)[OF t1]] d1 by simp
  let ?s2 = "snd (send_or_stop K (removed_message (pd_path (dv s1 d))) (remove_active K d s1))"
  have t2: "tracked {} ?s2" using tracked_removed[OF t1 own] .
  have devs: "ms_devs ?s2 = ms_devs s1"
    using only_traceD(1)[OF send_only[OF surjective_pairing]] tracked_remove_active(2)[OF t1 own, of K]
    by (simp add: send_or_stop_def case_prod_unfold split: bool.split)
  have t3: "tracked {} (schedule_retry K (pd_path (dv ?s2 d)) (pd_gen (dv ?s2 d)) ?s2)"
    using tracked_schedule[OF t2] path by (simp add: devs)
  show ?thesis
    using t1 t2 t3 by (simp add: handle_device_ready_def Some r case_prod_unfold Let_def split: sum.split read_error.split)
qed

section \<open>Feedback, maintenance and the loop\<close>

lemma tracked_feedback:
  assumes "tracked {} s"
  shows "tracked {} (snd (handle_feedback_ready K hangup s))"
proof -
  have t: "tracked {} (note_call CTime s)" using tracked_harmless[OF assms harmless_time[OF harmless_refl]] .
  note l = tracked_maps(3)[OF t]
  show ?thesis
    using assms t l tracked_harmless[OF l harmless_sync[OF harmless_refl]]
    by (simp add: handle_feedback_ready_def Let_def case_prod_unfold split: sum.split)
qed

lemma tracked_check:
  assumes "tracked {} s"
  shows "tracked {} (check_candidate K path s)"
proof (cases "gm_get (ms_cands s) path")
  case None
  then show ?thesis using assms by (simp add: check_candidate_def)
next
  case (Some d)
  obtain r s1 where k: "keys_fd K (pd_fd (dv s d)) s = (r, s1)" by (cases "keys_fd K (pd_fd (dv s d)) s")
  have h: "harmless s s1" using harmless_calls(1)[OF harmless_refl, of s K "pd_fd (dv s d)"] k by simp
  note t1 = tracked_harmless[OF assms h]
  have own: "gm_get (ms_cands s1) path = Some d" using Some only_traceD[OF harmless_only[OF h]] by simp
  have ent: "pd_path (dv s1 d) = path" "is_abs path" using entryD[OF trackedD(1)[OF t1]] own by blast+
  note rm = tracked_remove_candidate[OF t1, of d K, unfolded ent(1)]
  have t2: "tracked {} (remove_candidate K d s1)" and devs: "ms_devs (remove_candidate K d s1) = ms_devs s1"
    using rm own by simp_all
  show ?thesis
    using t1 t2 tracked_activate_or_retry[OF t1 own] tracked_schedule[OF t2 ent(2)]
    by (simp add: check_candidate_def Some k Let_def devs ent(1) split: sum.split)
qed

lemma tracked_fold:
  assumes "\<And>x s. tracked X s \<Longrightarrow> tracked X (h x s)"
  shows "tracked X s \<Longrightarrow> tracked X (fold h xs s)"
  by (induction xs arbitrary: s) (auto intro: assms)

lemma tracked_checks: "tracked {} s \<Longrightarrow> tracked {} (check_candidates K now s)"
  using tracked_fold[of "{}" "check_candidate K"] tracked_check tracked_maps(2) by (simp add: check_candidates_def)

lemma tracked_retry:
  assumes "tracked {} s"
  shows "tracked {} (process_retry K P now path s)"
proof (cases "gm_get (ms_retries s) path")
  case None
  then show ?thesis using assms(1) by (simp add: process_retry_def)
next
  case (Some st)
  then have path: "is_abs path" using trackedD(4)[OF assms] by (simp add: retries_ok_def)
  note t1 = tracked_begin[OF assms, of path "rt_gen st"]
  show ?thesis
    using assms t1 tracked_consider[OF t1 path] by (simp add: process_retry_def Some case_prod_unfold split: bool.split)
qed

lemma tracked_process: "tracked {} s \<Longrightarrow> tracked {} (process_retries K P now s)"
  unfolding process_retries_def by (rule tracked_fold) (rule tracked_retry)

lemma tracked_ready: "tracked {} s \<Longrightarrow> tracked {} (snd (handle_ready K P F r s))"
  using tracked_udev_ready tracked_feedback tracked_device_ready by (simp add: handle_ready_def handle_wake_ready_def)

lemma tracked_all: "tracked {} s \<Longrightarrow> tracked {} (snd (handle_all K P F rs s))"
proof (induction rs arbitrary: s)
  case (Cons r rs)
  then show ?case using tracked_ready[OF Cons.prems] by (simp add: case_prod_unfold split: sum.split)
qed simp

lemma tracked_pass:
  assumes "tracked {} s"
  shows "tracked {} (snd (loop_pass K P F a s))"
proof -
  have "tracked {} (note_call CTime s)" using tracked_harmless[OF assms harmless_time[OF harmless_refl]] .
  note t1 = tracked_process[OF tracked_checks[OF this]]
  show ?thesis
    using assms t1 tracked_all[OF t1] by (simp add: loop_pass_def Let_def case_prod_unfold split: epoll_answer.split sum.split)
qed

lemma tracked_loop: "tracked {} s \<Longrightarrow> tracked {} (snd (run_loop K P F as s))"
proof (induction as arbitrary: s)
  case (Cons a as)
  then show ?case using tracked_pass[OF Cons.prems] by (simp add: case_prod_unfold split: option.split)
qed simp

section \<open>A run\<close>

lemma tracked_enumerate:
  assumes "tracked {} s" "is_abs path" "gm_get (ms_bypath s) path = None" "gm_get (ms_cands s) path = None"
    "enumerate_path K P path s = (r, s')"
  shows "tracked {} s'"
    "q \<noteq> path \<Longrightarrow> gm_get (ms_bypath s') q = gm_get (ms_bypath s) q \<and> gm_get (ms_cands s') q = gm_get (ms_cands s) q"
proof -
  obtain opn g s1 where o1: "open_enumerated K P path s = ((opn, g), s1)" by (metis prod.exhaust)
  note e = enumerate_path_def[of K P path s, unfolded o1 prod.case]
  note op = open_enumerated_one[OF assms(1) o1]
  have both: "tracked {} s' \<and> (q \<noteq> path \<longrightarrow>
      gm_get (ms_bypath s') q = gm_get (ms_bypath s) q \<and> gm_get (ms_cands s') q = gm_get (ms_cands s) q)"
  proof (cases "\<exists>d. opn = Inr (Some d)")
    case True
    then obtain d where d: "opn = Inr (Some d)" by blast
    have op1: "opened_one path s (Some d) s1" using op by (simp add: d)
    have s': "s' = accept_candidate K d s1" using assms(5) by (simp add: e d)
    have "tracked {} s' \<and> elsewhere_same path s1 s'"
      unfolding s' using op1 assms(2-4) by (intro conjI tracked_accept) (simp_all add: opened_one_def)
    then show ?thesis using op1 by (simp add: elsewhere_same_def opened_one_def)
  next
    case False
    then have t1: "tracked {} s1" and same: "ms_bypath s1 = ms_bypath s" "ms_cands s1 = ms_cands s"
      using op by (auto simp: opened_one_def split: sum.splits option.splits)
    have "elsewhere_same path s1 s'" "tracked {} s'"
      using assms(5) False t1 tracked_schedule[OF t1 assms(2)] elsewhere_schedule[of path s1] elsewhere_trace[of s1 s1 path]
      by (auto simp: e split: sum.splits option.splits if_splits)
    then show ?thesis using same by (simp add: elsewhere_same_def)
  qed
  then show "tracked {} s'"
    "q \<noteq> path \<Longrightarrow> gm_get (ms_bypath s') q = gm_get (ms_bypath s) q \<and> gm_get (ms_cands s') q = gm_get (ms_cands s) q"
    by auto
qed

lemma tracked_enumerates:
  "tracked {} s \<Longrightarrow> distinct ps \<Longrightarrow> list_all is_abs ps \<Longrightarrow>
    (\<And>p. p \<in> set ps \<Longrightarrow> gm_get (ms_bypath s) p = None \<and> gm_get (ms_cands s) p = None) \<Longrightarrow>
    tracked {} (snd (enumerate_paths K P ps s))"
proof (induction ps arbitrary: s)
  case Nil
  have t: "tracked {} (note_call CTime s)" using tracked_harmless[OF Nil(1) harmless_time[OF harmless_refl]] .
  then show ?case using tracked_maps(2)[OF t] by simp
next
  case (Cons p ps)
  obtain r s1 where r: "enumerate_path K P p s = (r, s1)" by (cases "enumerate_path K P p s")
  have free: "is_abs p" "gm_get (ms_bypath s) p = None" "gm_get (ms_cands s) p = None" using Cons.prems(3,4) by auto
  note e = tracked_enumerate[OF Cons.prems(1) free r]
  have "tracked {} (snd (enumerate_paths K P ps s1))"
  proof (rule Cons.IH[OF e(1)])
    fix q assume q: "q \<in> set ps"
    then have "q \<noteq> p" using Cons.prems(2) by auto
    then show "gm_get (ms_bypath s1) q = None \<and> gm_get (ms_cands s1) q = None" using e(2)[of q] Cons.prems(4)[of q] q by simp
  qed (use Cons.prems in auto)
  then show ?case using e(1) by (simp add: r split: sum.split)
qed

lemma range_order_set: "set (range_order K s ks) = set ks"
  by (simp add: range_order_def Let_def) (metis set_mset_mset)

lemma gm_keys_iff: "p \<in> set (gm_keys m) \<longleftrightarrow> gm_get m p \<noteq> None"
  by (rule gm.keys_get)

lemma tracked_close_actives:
  fixes K :: kernel_answers
  defines "h \<equiv> \<lambda>p s. case gm_get (ms_bypath s) p of None \<Rightarrow> s | Some d \<Rightarrow> remove_active K d s"
  shows "tracked X s \<Longrightarrow> tracked X (fold h ps s) \<and>
    (\<forall>p. gm_get (ms_bypath (fold h ps s)) p = (if p \<in> set ps then None else gm_get (ms_bypath s) p))"
proof (induction ps arbitrary: s)
  case (Cons q ps)
  have "tracked X (h q s) \<and> (\<forall>p. gm_get (ms_bypath (h q s)) p = (if p = q then None else gm_get (ms_bypath s) p))"
    using tracked_remove_active[OF Cons.prems, of q] Cons.prems by (auto simp: h_def split: option.split)
  then show ?case using Cons.IH[of "h q s"] by simp
qed simp

lemma tracked_close_candidates:
  fixes K :: kernel_answers
  defines "h \<equiv> \<lambda>p s. case gm_get (ms_cands s) p of None \<Rightarrow> s | Some d \<Rightarrow> remove_candidate K d s"
  shows "tracked X s \<Longrightarrow> tracked X (fold h ps s) \<and> ms_bypath (fold h ps s) = ms_bypath s \<and>
    (\<forall>p. gm_get (ms_cands (fold h ps s)) p = (if p \<in> set ps then None else gm_get (ms_cands s) p))"
proof (induction ps arbitrary: s)
  case (Cons q ps)
  have "tracked X (h q s) \<and> ms_bypath (h q s) = ms_bypath s \<and>
      (\<forall>p. gm_get (ms_cands (h q s)) p = (if p = q then None else gm_get (ms_cands s) p))"
  proof (cases "gm_get (ms_cands s) q")
    case (Some d)
    then have "pd_path (dv s d) = q" using entryD(2)[OF trackedD(1)[OF Cons.prems], of q d] by simp
    then show ?thesis using tracked_remove_candidate[OF Cons.prems, of d K] Some by (simp add: h_def)
  qed (use Cons.prems in \<open>simp add: h_def\<close>)
  then show ?case using Cons.IH[of "h q s"] by simp
qed simp

lemma tracked_close:
  assumes "tracked X s"
  shows "tracked X (close_manager K s)" "actives (close_manager K s) = {}" "candidates (close_manager K s) = {}"
proof -
  let ?s1 = "close_actives K s"
  have a: "tracked X ?s1 \<and> (\<forall>p. gm_get (ms_bypath ?s1) p = None)"
    using tracked_close_actives[OF assms, of K "range_order K s (gm_keys (ms_bypath s))"]
    by (simp add: close_actives_def range_order_set gm_keys_iff)
  then have b: "tracked X (close_manager K s) \<and> ms_bypath (close_manager K s) = ms_bypath ?s1 \<and>
      (\<forall>p. gm_get (ms_cands (close_manager K s)) p = None)"
    using tracked_close_candidates[of X ?s1 K "range_order K ?s1 (gm_keys (ms_cands ?s1))"]
    by (simp add: close_manager_def close_candidates_def range_order_set gm_keys_iff)
  then show "tracked X (close_manager K s)" by simp
  show "actives (close_manager K s) = {}" "candidates (close_manager K s) = {}"
    using a b by (simp_all add: actives_def candidates_def)
qed

lemma tracked_start: "tracked {} new_manager_state"
  by (simp add: tracked_def entries_ok_def apart_def byfd_sound_def retries_ok_def sent_abs_def
      new_manager_state_def ghost_of_def ghost_start_def)

lemma manager_run_tracked:
  assumes "distinct paths" "list_all is_abs paths" "manager_run K P F paths answers = (r, s)"
  shows "tracked {} s" "r \<noteq> None \<Longrightarrow> actives s = {} \<and> candidates s = {}"
proof -
  have free: "gm_get (ms_bypath new_manager_state) p = None \<and> gm_get (ms_cands new_manager_state) p = None" for p
    by (simp add: new_manager_state_def)
  note t1 = tracked_enumerates[OF tracked_start assms(1,2) free, of K P]
  note t2 = tracked_loop[OF t1, of K P F answers]
  show "tracked {} s" "r \<noteq> None \<Longrightarrow> actives s = {} \<and> candidates s = {}"
    using assms(3) t2 tracked_close[OF t1] tracked_close[OF t2]
    by (auto simp: manager_run_def case_prod_unfold split: sum.splits option.splits)
qed

text \<open>When the run has returned nothing is open, grabbed or watched.\<close>

lemma manager_run_closed:
  assumes "distinct paths" "list_all is_abs paths" "manager_run K P F paths answers = (Some r, s)"
  shows "gh_open (gst s) = {}" "gh_grabbed (gst s) = {}" "gh_watched (gst s) = {}"
proof -
  show o: "gh_open (gst s) = {}"
    using manager_run_tracked[OF assms] trackedD(6) by fastforce
  show "gh_grabbed (gst s) = {}" "gh_watched (gst s) = {}" using grabbed_open[of "ms_trace s"] by (simp_all add: o)
qed

end
