(* ===== verification/Manager_Steps.thy ===== *)
theory Manager_Steps
  imports Manager_Tracking
begin

text \<open>
  Every handler of the device manager keeps the invariant, as long as no announcement is lost.  Only the
  operations that activate a device can lose one.
\<close>

section \<open>Changes of the trace and of the retries\<close>

lemma fdinv_trace:
  assumes "fdinv X G W s" "only_trace s s'" "gh_open (gst s') = gh_open (gst s)"
    "gh_grabbed (gst s') = gh_grabbed (gst s) \<union> G'" "gh_watched (gst s') = gh_watched (gst s) \<union> W'" "gh_legal (gst s')"
  shows "fdinv X (G \<union> G') (W \<union> W') s'"
  using assms(1) unfolding fdinv_def only_trace_sets[OF assms(2)] assms(3-5) by (auto simp: assms(6))

lemma minv_retries:
  assumes "minv X G W s" "retries_ok (s\<lparr>ms_retries := m\<rparr>)"
  shows "minv X G W (s\<lparr>ms_retries := m\<rparr>)"
  by (rule minv_cong[OF assms(1)]) (simp_all add: assms(2))

lemma minv_parts:
  assumes "minv X G W s"
  shows "fdinv X G W s" "annok s" "shape s" "entries_ok s" "apart s" "retries_ok s"
  using assms by (simp_all add: minv_def fdinv_def shape_def)

lemma schedule_retry_minv:
  assumes "minv X G W s" "is_abs path"
  shows "minv X G W (schedule_retry K path g s)"
proof -
  define st0 where "st0 = (case gm_get (ms_retries s) path of None \<Rightarrow> new_retry zero_generation | Some r \<Rightarrow> r)"
  define st where "st = (if rt_gen st0 \<noteq> g then new_retry g else st0)"
  have ok: "retries_ok s" using minv_parts(6)[OF assms(1)] .
  have st: "rt_attempts st \<le> max_reacquisition_tries"
    using ok by (auto simp: st_def st0_def new_retry_def retries_ok_def split: option.split)
  let ?t = "note_call CTime s"
  have t: "minv X G W ?t" using minv_quiet[OF assms(1)] quiet_calls(7) by blast
  have "minv X G W (s\<lparr>ms_retries := gm_put path (st\<lparr>rt_scheduled := False\<rparr>) (ms_retries s)\<rparr>)"
    using retries_ok_put[OF ok assms(2)] st by (intro minv_retries[OF assms(1)]) simp
  moreover have "minv X G W (?t\<lparr>ms_retries := gm_put path (st\<lparr>rt_deadline := n, rt_scheduled := True\<rparr>) (ms_retries s)\<rparr>)" for n
    using retries_ok_put[OF minv_parts(6)[OF t] assms(2)] st by (intro minv_retries[OF t]) simp
  ultimately show ?thesis
    unfolding schedule_retry_def st0_def[symmetric] st_def[symmetric] Let_def by simp
qed

lemma begin_retry_minv:
  assumes "minv X G W s" "begin_retry path g s = (b, s')"
  shows "minv X G W s'"
proof (cases "gm_get (ms_retries s) path")
  case None
  then show ?thesis using assms by (simp add: begin_retry_def)
next
  case (Some st0)
  have ok: "retries_ok s" using minv_parts(6)[OF assms(1)] .
  then have path: "is_abs path" using Some by (simp add: retries_ok_def)
  let ?st = "if rt_gen st0 \<noteq> g then new_retry g else st0"
  obtain c st' where b: "begin_attempt ?st = (c, st')" by (cases "begin_attempt ?st")
  have "c \<Longrightarrow> rt_attempts st' \<le> max_reacquisition_tries"
    using b by (auto simp: begin_attempt_def split: if_splits)
  then show ?thesis
    using assms Some b retries_ok_put[OF ok path, of st'] minv_retries[OF assms(1)]
    by (auto simp: begin_retry_def Let_def split: if_splits)
qed

section \<open>Messages\<close>

lemma active_abs: "entries_ok s \<Longrightarrow> p \<in> active_paths s \<Longrightarrow> is_abs p"
  by (auto simp: active_paths_def entries_ok_def)

lemma send_effect:
  assumes "send_message K m s = (ok, s')"
  shows "only_trace s s'"
    "gst s' = (if ok then (gst s)\<lparr>gh_announced := (gh_announced (gst s) \<union> msg_resync_device m) - msg_removed_device m,
       gh_legal := gh_legal (gst s) \<and> msg_frame_device m \<union> msg_removed_device m \<subseteq> gh_announced (gst s) \<and>
         Ball (msg_resync_device m) is_abs\<rparr>
     else (gst s)\<lparr>gh_announced := gh_announced (gst s) - msg_removed_device m\<rparr>)"
    "\<not> ok \<Longrightarrow> \<not> lost s' \<Longrightarrow> msg_resync_device m \<subseteq> gh_announced (gst s)"
  using assms lost_dropped[of "ms_trace s" m] by (auto simp: send_message_def ghost_step_def split: if_splits)

lemma send_minv:
  assumes "fdinv X G W s" "send_message K m s = (ok, s')" "ok \<or> msg_resync_device m \<subseteq> gh_announced (gst s)"
    "msg_frame_device m \<union> msg_removed_device m \<subseteq> gh_announced (gst s)" "msg_removed_device m \<inter> active_paths s = {}"
    "gh_announced (gst s) \<union> msg_resync_device m = active_paths s \<union> msg_removed_device m"
    "msg_resync_device m \<subseteq> active_paths s"
  shows "minv X G W s'"
proof -
  note e = send_effect[OF assms(2)]
  have "gh_legal (gst s)" "entries_ok s" using assms(1) by (simp_all add: fdinv_def shape_def)
  then have "gh_legal (gst s)" "Ball (msg_resync_device m) is_abs" using active_abs assms(7) by blast+
  then have "fdinv X (G \<union> {}) (W \<union> {}) s'"
    using assms(4) by (intro fdinv_trace[OF assms(1) e(1)]) (auto simp: e(2))
  moreover have "annok s'"
    using assms(3,5,6) by (auto simp: annok_def e(2) only_trace_sets[OF e(1)])
  ultimately show ?thesis by (simp add: minv_def)
qed

lemma removed_minv:
  assumes "minv X {} {} s" "gm_get (ms_bypath s) path = Some d"
    "send_message K (removed_message path) (remove_active K d s) = (ok, s')"
  shows "minv X {} {} s'" "ms_devs s' = ms_devs s" "ms_cands s' = ms_cands s"
    "ms_bypath s' = gm_del path (ms_bypath s)" "ms_retries s' = ms_retries s"
proof -
  note p = minv_parts[OF assms(1)]
  have d: "d \<in> actives s" using assms(2) by (rule active_member)
  have path: "pd_path (dv s d) = path" "path \<noteq> []" using entryD[OF p(4)] assms(2) by fastforce+
  note r = remove_active_fdinv[OF p(1) d, where K = K, unfolded path(1)]
  have paths: "active_paths (remove_active K d s) = active_paths s - {path}"
    by (auto simp: active_paths_def r(3))
  have ann: "gh_announced (gst (remove_active K d s)) = gh_announced (gst s)"
    by (simp add: r(2))
  have "path \<in> active_paths s" using assms(2) by (simp add: active_paths_def)
  then have a: "path \<in> gh_announced (gst s)" using p(2) by (auto simp: annok_def)
  show "minv X {} {} s'"
  proof (rule send_minv[OF r(1) assms(3)])
    show "msg_frame_device (removed_message path) \<union> msg_removed_device (removed_message path)
        \<subseteq> gh_announced (gst (remove_active K d s))" using a path(2) by (simp add: ann)
    show "msg_removed_device (removed_message path) \<inter> active_paths (remove_active K d s) = {}"
      using path(2) by (simp add: paths)
    show "gh_announced (gst (remove_active K d s)) \<union> msg_resync_device (removed_message path) =
        active_paths (remove_active K d s) \<union> msg_removed_device (removed_message path)"
      using p(2) path(2) \<open>path \<in> active_paths s\<close> by (auto simp: paths ann annok_def)
  qed simp_all
  note t = only_traceD[OF send_effect(1)[OF assms(3)]]
  show "ms_devs s' = ms_devs s" "ms_cands s' = ms_cands s"
    "ms_bypath s' = gm_del path (ms_bypath s)" "ms_retries s' = ms_retries s"
    by (simp_all add: t r)
qed

lemma remove_candidate_minv:
  assumes "minv X G W s" "d \<in> candidates s" "G \<subseteq> {fd_of s d}" "W \<subseteq> {fd_of s d}"
  shows "minv X {} {} (remove_candidate K d s)"
proof -
  note p = minv_parts[OF assms(1)]
  note r = remove_candidate_fdinv[OF p(1) assms(2), where K = K]
  have none: "G - {fd_of s d} = {}" "W - {fd_of s d} = {}" using assms(3,4) by auto
  have "annok (remove_candidate K d s)" using p(2) by (simp add: annok_def active_paths_def r(2,3))
  then show ?thesis using r(1) unfolding none by (simp add: minv_def)
qed

section \<open>Candidates\<close>

lemma candidate_fd_free:
  assumes "minv {} {} {} s" "d \<in> candidates s"
  shows "fd_of s d \<notin> gh_grabbed (gst s)" "fd_of s d \<notin> gh_watched (gst s)"
proof -
  note p = minv_parts[OF assms(1)]
  have "d \<notin> actives s" using apart_members[OF p(4,5)] assms(2) by auto
  then have "fd_of s d \<notin> fd_of s ` actives s" using fd_apart[OF p(3), of d "actives s"] assms(2) by auto
  then show "fd_of s d \<notin> gh_grabbed (gst s)" "fd_of s d \<notin> gh_watched (gst s)"
    using p(1) by (simp_all add: fdinv_def)
qed

lemma promote_fdinv:
  assumes "minv {} {fd_of s d} {fd_of s d} s" "d \<in> candidates s"
  shows "fdinv {} {} {} (promote d s)" "active_paths (promote d s) = insert (pd_path (dv s d)) (active_paths s)"
    "pd_path (dv s d) \<notin> active_paths s" "actives (promote d s) = insert d (actives s)"
proof -
  note p = minv_parts[OF assms(1)]
  define path where "path = pd_path (dv s d)"
  let ?t = "promote d s"
  have own: "gm_get (ms_cands s) path = Some d" using member_path(2)[OF p(4)] assms(2) by (simp add: path_def)
  then have none: "gm_get (ms_bypath s) path = None" using p(5) unfolding apart_def by (metis option.distinct(1))
  have f: "ms_devs ?t = ms_devs s" "ms_next ?t = ms_next s" "ms_cands ?t = gm_del path (ms_cands s)"
    "ms_bypath ?t = gm_put path d (ms_bypath s)" "ms_byfd ?t = gm_put (fd_of s d) d (ms_byfd s)"
    "ms_retries ?t = gm_del path (ms_retries s)" "ms_trace ?t = ms_trace s"
    by (simp_all add: promote_def Let_def path_def fd_of_def)
  have fdo: "fd_of ?t = fd_of s" by (simp add: fd_of_def fun_eq_iff f(1))
  show "active_paths ?t = insert (pd_path (dv s d)) (active_paths s)"
    by (auto simp: active_paths_def f(4) path_def[symmetric])
  show "pd_path (dv s d) \<notin> active_paths s" using none by (simp add: active_paths_def path_def)
  have act: "actives ?t = insert d (actives s)"
    using none by (auto simp: actives_def f(4)) (metis option.distinct(1))
  then show "actives ?t = insert d (actives s)" .
  have "gm_get (ms_cands s) q = Some d \<Longrightarrow> q = path" for q using entryD(2)[OF p(4), of q d] by (auto simp: path_def)
  then have cand: "candidates ?t = candidates s - {d}"
    using del_members[OF own] by (simp add: candidates_def f(3) del: gm_rules)
  have all: "actives ?t \<union> candidates ?t = actives s \<union> candidates s" using assms(2) by (auto simp: act cand)
  have nact: "d \<notin> actives s" using apart_members[OF p(4,5)] assms(2) by auto
  have fda: "fd_of s d \<notin> fd_of s ` actives s" using fd_apart[OF p(3), of d "actives s"] assms(2) nact by auto
  have ne: "e \<in> actives s \<Longrightarrow> fd_of s e \<noteq> fd_of s d" for e using fda by (metis image_eqI)
  have "shape ?t"
    unfolding shape_def
  proof (intro conjI)
    show "gm_wf (ms_bypath ?t)" "gm_wf (ms_byfd ?t)" "gm_wf (ms_cands ?t)"
      using p(3) by (simp_all add: f shape_def)
    show "entries_ok ?t"
      by (rule entries_sub[OF p(4) f(1,2)]) (use own in \<open>auto simp: f split: if_splits\<close>)
    show "apart ?t" using p(5) by (auto simp: apart_def f)
    show "retries_ok ?t" using p(6) by (simp add: retries_ok_def f)
    have "gm_get (ms_byfd ?t) g = Some e \<longleftrightarrow> e \<in> insert d (actives s) \<and> fd_of s e = g" for g e
      using p(3) ne[of e] unfolding shape_def byfd_ok_def f(5) by (auto split: if_splits)
    then show "byfd_ok ?t" using p(3) unfolding byfd_ok_def all fdo by (simp add: act shape_def byfd_ok_def)
  qed
  then show "fdinv {} {} {} ?t"
    using p(1) unfolding fdinv_def all fdo unfolding act f(7) by auto
qed

lemma activate_result:
  assumes "minv {} {} {} s" "d \<in> candidates s" "\<not> lost s'" "activate_device K d s = (r, s')"
  shows "ms_devs s' = ms_devs s"
    "case r of Inr _ \<Rightarrow> minv {} {} {} s'
     | Inl _ \<Rightarrow> d \<in> candidates s' \<and> (\<exists>G W. G \<subseteq> {fd_of s d} \<and> W \<subseteq> {fd_of s d} \<and> minv {} G W s')"
proof -
  obtain ar s1 where a: "acquire_idle K d s = (ar, s1)" by (cases "acquire_idle K d s")
  have acq: "acquired (fd_of s d) s ar s1"
    using acquire_idle_effect[OF refl minv_legal[OF assms(1)] candidate_fd_free[OF assms(1,2)] a] assms(2) by simp
  then obtain G W where t: "only_trace s s1" and GW: "G \<subseteq> {fd_of s d}" "W \<subseteq> {fd_of s d}"
    and g: "gst s1 = (gst s)\<lparr>gh_grabbed := gh_grabbed (gst s) \<union> G, gh_watched := gh_watched (gst s) \<union> W\<rparr>"
    and c: "case ar of Inl e \<Rightarrow> True | Inr None \<Rightarrow> G = {} \<and> W = {}
        | Inr (Some p) \<Rightarrow> p = [] \<and> G = {fd_of s d} \<and> W = {fd_of s d}"
    unfolding acquired_def by blast
  note p = minv_parts[OF assms(1)]
  note sets = only_trace_sets[OF t]
  have "fdinv {} ({} \<union> G) ({} \<union> W) s1"
    using p(1) by (intro fdinv_trace[OF p(1) t]) (simp_all add: g fdinv_def)
  then have m1: "minv {} G W s1" using p(2) by (simp add: minv_def annok_def g sets(3))
  have devs1: "ms_devs s1 = ms_devs s" using only_traceD(1)[OF t] .
  have main: "ms_devs s' = ms_devs s \<and> (case r of Inr _ \<Rightarrow> minv {} {} {} s'
     | Inl _ \<Rightarrow> d \<in> candidates s' \<and> (\<exists>G W. G \<subseteq> {fd_of s d} \<and> W \<subseteq> {fd_of s d} \<and> minv {} G W s'))"
  proof (cases ar)
    case (Inl e)
    then have "r = Inl (AcquireFailed e)" "s' = s1" using assms(4) a by (simp_all add: activate_device_def)
    then show ?thesis using m1 GW assms(2) devs1 sets(2) by auto
  next
    case (Inr opt)
    show ?thesis
    proof (cases opt)
      case None
      then have "r = Inr ()" "s' = s1" using assms(4) a Inr by (simp_all add: activate_device_def)
      then show ?thesis using m1 c Inr None devs1 by simp
    next
      case (Some pressed)
      have GW': "G = {fd_of s1 d}" "W = {fd_of s1 d}" using c Inr Some sets(4) by simp_all
      let ?s2 = "promote d s1"
      note pr = promote_fdinv[OF m1[unfolded GW']]
      have d1: "d \<in> candidates s1" using assms(2) sets(2) by simp
      obtain lr s3 where l: "sync_device_leds K d ?s2 = (lr, s3)" by (cases "sync_device_leds K d ?s2")
      have fd2: "fd_of ?s2 d \<in> gh_open (gst ?s2)" "gh_legal (gst ?s2)"
        using pr(1)[OF d1] pr(4)[OF d1] by (auto simp: fdinv_def)
      have q: "quiet ?s2 s3" using sync_device_quiet[OF _ l] fd2 by (simp add: legal_fd_def)
      have f3: "fdinv {} {} {} s3"
        using fdinv_trace[OF pr(1)[OF d1] quiet_only_trace[OF q], of "{}" "{}"] fd2(2) by (simp add: quietD[OF q])
      have ap3: "active_paths s3 = insert (pd_path (dv s d)) (active_paths s1)" "pd_path (dv s d) \<notin> active_paths s1"
        using pr(2,3)[OF d1] only_trace_sets(3)[OF quiet_only_trace[OF q]] devs1 by simp_all
      have an3: "gh_announced (gst s3) = active_paths s1"
        using m1 quietD(1)[OF q] by (simp add: minv_def annok_def promote_def Let_def)
      have devs3: "ms_devs s3 = ms_devs s" using quietD(2)[OF q] devs1 by (simp add: promote_def Let_def)
      obtain ok s4 where snd: "send_message K (resync_message (pd_path (dv s d)) pressed) s3 = (ok, s4)"
        by (cases "send_message K (resync_message (pd_path (dv s d)) pressed) s3")
      have last: "s' = s4"
        using assms(4) a Inr Some l snd devs1
        by (simp add: activate_device_def promote_def Let_def split: bool.splits)
      have ok: ok
      proof (rule ccontr)
        assume "\<not> ok"
        from send_effect(3)[OF snd this assms(3)[unfolded last]] show False using ap3(2) an3 by simp
      qed
      have "minv {} {} {} s4"
        by (rule send_minv[OF f3 snd]) (simp_all add: ap3 an3 ok)
      moreover have "r = Inr ()" "s' = s4"
        using assms(4) a Inr Some l snd ok devs1 by (simp_all add: activate_device_def promote_def Let_def)
      ultimately show ?thesis using devs3 only_traceD(1)[OF send_effect(1)[OF snd]] by simp
    qed
  qed
  then show "ms_devs s' = ms_devs s"
    "case r of Inr _ \<Rightarrow> minv {} {} {} s'
     | Inl _ \<Rightarrow> d \<in> candidates s' \<and> (\<exists>G W. G \<subseteq> {fd_of s d} \<and> W \<subseteq> {fd_of s d} \<and> minv {} G W s')"
    by auto
qed

lemma remove_candidate_path: "ms_devs (remove_candidate K d s) = ms_devs s"
  by (simp add: remove_candidate_def close_candidate_fd_def grab_fd_def Let_def)

lemma activate_or_retry_minv:
  assumes "minv {} {} {} s" "d \<in> candidates s" "\<not> lost (activate_or_retry K d s)"
  shows "minv {} {} {} (activate_or_retry K d s)"
proof -
  obtain r s1 where a: "activate_device K d s = (r, s1)" by (cases "activate_device K d s")
  have "later s1 (activate_or_retry K d s)"
    by (auto simp: activate_or_retry_def a Let_def split: sum.split intro!: later_intros)
  note res = activate_result[OF assms(1,2) lost_later[OF this assms(3)] a]
  have path: "is_abs (pd_path (dv s d))" using tracked_entry(2)[OF minv_parts(4)[OF assms(1)]] assms(2) by simp
  show ?thesis
  proof (cases r)
    case (Inl e)
    with res(2) obtain G W where "d \<in> candidates s1" "G \<subseteq> {fd_of s d}" "W \<subseteq> {fd_of s d}" "minv {} G W s1" by auto
    moreover have "fd_of s1 d = fd_of s d" by (simp add: fd_of_def res(1))
    ultimately have "minv {} {} {} (remove_candidate K d s1)" using remove_candidate_minv[of "{}" G W s1 d K] by simp
    from schedule_retry_minv[OF this] path show ?thesis
      by (simp add: activate_or_retry_def a Inl Let_def remove_candidate_path res(1))
  next
    case (Inr u)
    then show ?thesis using res(2) by (simp add: activate_or_retry_def a)
  qed
qed

text \<open>A new device under a free path becomes a candidate.\<close>

lemma track_candidate:
  assumes "minv {f} {} {} s" "d < ms_next s" "d \<notin> actives s \<union> candidates s" "fd_of s d = f"
    "pd_path (dv s d) = path" "is_abs path" "gm_get (ms_bypath s) path = None" "gm_get (ms_cands s) path = None"
  shows "minv {} {} {} (s\<lparr>ms_cands := gm_put path d (ms_cands s)\<rparr>)"
    "d \<in> candidates (s\<lparr>ms_cands := gm_put path d (ms_cands s)\<rparr>)"
proof -
  note p = minv_parts[OF assms(1)]
  let ?t = "s\<lparr>ms_cands := gm_put path d (ms_cands s)\<rparr>"
  have act: "actives ?t = actives s" "active_paths ?t = active_paths s" by (simp_all add: actives_def active_paths_def)
  have cand: "candidates ?t = insert d (candidates s)"
    using assms(8) by (auto simp: candidates_def) (metis option.distinct(1))
  then show "d \<in> candidates ?t" by simp
  have fdo: "fd_of ?t = fd_of s" by (simp add: fd_of_def fun_eq_iff)
  have new: "f \<notin> fd_of s ` (actives s \<union> candidates s)" using p(1) by (auto simp: fdinv_def)
  have inj: "inj_on (fd_of s) (actives s \<union> insert d (candidates s))"
    using p(3) new assms(3,4) by (simp add: shape_def byfd_ok_def)
  have "shape ?t"
    unfolding shape_def
  proof (intro conjI)
    show "gm_wf (ms_bypath ?t)" "gm_wf (ms_byfd ?t)" "gm_wf (ms_cands ?t)" using p(3) by (simp_all add: shape_def)
    show "entries_ok ?t"
      unfolding entries_ok_def
    proof (intro allI impI)
      fix q e assume "gm_get (ms_bypath ?t) q = Some e \<or> gm_get (ms_cands ?t) q = Some e"
      then have "(q = path \<and> e = d) \<or> gm_get (ms_bypath s) q = Some e \<or> gm_get (ms_cands s) q = Some e"
        by (auto split: if_splits)
      then show "e < ms_next ?t \<and> pd_path (dv ?t e) = q \<and> is_abs q"
        using assms(2,5,6) entryD[OF p(4), of q e] by auto
    qed
    show "apart ?t" using p(5) assms(7) by (auto simp: apart_def)
    show "retries_ok ?t" using p(6) by (simp add: retries_ok_def)
    show "byfd_ok ?t" using p(3) inj by (simp add: byfd_ok_def act cand fdo shape_def)
  qed
  then show "minv {} {} {} ?t"
    using assms(1,4) unfolding minv_def fdinv_def annok_def act cand fdo by auto
qed

lemma opened_minv:
  assumes "minv {} {} {} s" "f \<notin> gh_open (gst s)"
  shows "minv {f} {} {} (note_call (COpened path f) s)"
proof -
  note p = minv_parts[OF assms(1)]
  note sets = only_trace_sets[OF only_trace_note[of s "COpened path f"]]
  have "f \<notin> fd_of s ` (actives s \<union> candidates s)" using assms by (auto simp: minv_def fdinv_def)
  then show ?thesis
    using p(1,2) unfolding minv_def fdinv_def annok_def sets by (simp add: ghost_step_def)
qed

lemma close_extra:
  assumes "minv {f} {} {} s"
  shows "minv {} {} {} (note_call (CClose f) s)"
proof -
  note p = minv_parts[OF assms]
  note sets = only_trace_sets[OF only_trace_note[of s "CClose f"]]
  have "f \<notin> fd_of s ` (actives s \<union> candidates s)" using p(1) by (auto simp: fdinv_def)
  moreover from this have "f \<notin> fd_of s ` actives s" by auto
  ultimately show ?thesis
    using p(1,2) unfolding minv_def fdinv_def annok_def sets
    by (simp add: ghost_step_def use_fd_def)
qed

section \<open>Opening\<close>

lemma extra_legal: "minv {f} {} {} s \<Longrightarrow> legal_fd f s"
  by (simp add: minv_def fdinv_def legal_fd_def)

lemma probe_quiet:
  assumes "legal_fd f s" "probe_fd K P f s = (r, s')"
  shows "quiet s s'"
proof -
  let ?q = "note_call (CQuery f)"
  have q1: "quiet s (?q s)" using assms(1) by (rule quiet_calls)
  have l1: "legal_fd f (?q s)" using assms(1) legal_quiet[OF q1] by simp
  have q2: "quiet s (?q (?q s))" using quiet_trans[OF q1 quiet_calls(1)[OF l1]] .
  have l2: "legal_fd f (?q (?q s))" using assms(1) legal_quiet[OF q2] by simp
  have q3: "quiet s (?q (?q (?q s)))" using quiet_trans[OF q2 quiet_calls(1)[OF l2]] .
  have l3: "legal_fd f (?q (?q (?q s)))" using assms(1) legal_quiet[OF q3] by simp
  have q4: "quiet s (?q (?q (?q (?q s))))" using quiet_trans[OF q3 quiet_calls(1)[OF l3]] .
  have "s' \<in> {?q s, ?q (?q s), ?q (?q (?q s)), ?q (?q (?q (?q s)))}"
    using assms(2) by (auto simp: probe_fd_def Let_def split: sum.splits if_splits)
  then show ?thesis using q1 q2 q3 q4 by auto
qed

lemma identity_quiet: "validate_identity K path st s = (r, s') \<Longrightarrow> quiet s s'"
  by (auto simp: validate_identity_def quiet_calls)

lemma sysfs_quiet: "sysfs_gen K path s = (r, s') \<Longrightarrow> quiet s s'"
  by (auto simp: sysfs_gen_def quiet_calls)

lemma sampled_quiet: "sampled_generation K path s = (r, s') \<Longrightarrow> quiet s s'"
  by (auto simp: sampled_generation_def split: prod.splits sum.splits
      dest: sysfs_quiet intro: quiet_trans[OF _ quiet_calls(6)])

lemma validate_quiet:
  assumes "legal_fd f s" "validate_opened K f path e s = (r, s')"
  shows "quiet s s'"
proof -
  have q: "quiet s (note_call (CQuery f) s)" using assms(1) by (rule quiet_calls)
  show ?thesis
    using assms(2) q
    by (auto simp: validate_opened_def split: sum.splits prod.splits if_splits
        dest!: sysfs_quiet identity_quiet intro: quiet_trans)
qed

text \<open>What opening a node leaves: the descriptor closed, or one device more that is not tracked yet.\<close>

definition opened :: "device \<Rightarrow> mstate \<Rightarrow> did option \<Rightarrow> mstate \<Rightarrow> bool" where
  "opened path s r s' \<longleftrightarrow> ms_bypath s' = ms_bypath s \<and> ms_cands s' = ms_cands s \<and> ms_retries s' = ms_retries s \<and>
     (case r of None \<Rightarrow> minv {} {} {} s'
      | Some d \<Rightarrow> minv {fd_of s' d} {} {} s' \<and> d < ms_next s' \<and> d \<notin> actives s' \<union> candidates s' \<and> pd_path (dv s' d) = path)"

lemma probe_candidate_opened:
  assumes "minv {f} {} {} s" "probe_candidate K P path g f s = (r, s')"
  shows "opened path s (case r of Inr (Some d) \<Rightarrow> Some d | _ \<Rightarrow> None) s'"
proof -
  obtain pr s1 where pr: "probe_fd K P f s = (pr, s1)" by (cases "probe_fd K P f s")
  have q: "quiet s s1" using probe_quiet[OF extra_legal[OF assms(1)] pr] .
  have m1: "minv {f} {} {} s1" using minv_quiet[OF assms(1) q] .
  note qd = quietD[OF q]
  show ?thesis
  proof (cases "\<exists>leds. pr = Inr (Some leds)")
    case False
    then have "s' = note_call (CClose f) s1" "\<And>d. r \<noteq> Inr (Some d)"
      using assms(2) pr by (auto simp: probe_candidate_def split: sum.splits option.splits)
    then show ?thesis using close_extra[OF m1] by (auto simp: opened_def qd split: sum.splits option.splits)
  next
    case True
    then obtain leds where leds: "pr = Inr (Some leds)" by blast
    let ?d = "ms_next s1"
    define s2 where "s2 = snd (new_device path g f leds s1)"
    have r: "r = Inr (Some ?d)" "s' = s2" using assms(2) pr leds
      by (simp_all add: probe_candidate_def new_device_def s2_def)
    have s2: "ms_bypath s2 = ms_bypath s1" "ms_byfd s2 = ms_byfd s1" "ms_cands s2 = ms_cands s1"
      "ms_next s2 = Suc ?d" "ms_retries s2 = ms_retries s1" "ms_trace s2 = ms_trace s1"
      "dv s2 ?d = \<lparr>pd_path = path, pd_gen = g, pd_fd = f, pd_frame = [], pd_dropping = False, pd_leds = leds\<rparr>"
      "\<And>d. d < ?d \<Longrightarrow> dv s2 d = dv s1 d"
      by (simp_all add: s2_def new_device_def)
    have "retries_ok s2" using minv_parts(6)[OF m1] by (simp add: retries_ok_def s2)
    then have "minv {f} {} {} s2" by (intro minv_cong[OF m1]) (simp_all add: s2)
    moreover have "?d \<notin> actives s2 \<union> candidates s2"
      using tracked_entry(1)[OF minv_parts(4)[OF m1], of ?d] by (auto simp: actives_def candidates_def s2)
    moreover have "pd_fd (dv s2 ?d) = f" "pd_path (dv s2 ?d) = path" by (simp_all add: s2(7))
    ultimately show ?thesis using qd(4,6,7) by (simp add: opened_def r s2(1,3,4,5) fd_of_def)
  qed
qed

lemma open_candidate_opened:
  assumes "minv {} {} {} s" "fresh_fds K" "open_candidate K P path g s = (r, s')"
  shows "opened path s (case r of Inr (Some d) \<Rightarrow> Some d | _ \<Rightarrow> None) s'"
proof (cases "k_open K (ms_trace s) path")
  case (Inl e)
  then show ?thesis using assms minv_quiet[OF assms(1) quiet_calls(6)]
    by (auto simp: open_candidate_def open_node_def opened_def)
next
  case (Inr f)
  let ?s1 = "note_call (COpened path f) s"
  have m1: "minv {f} {} {} ?s1" using opened_minv[OF assms(1)] assms(2) Inr by (auto simp: fresh_fds_def)
  obtain vr s2 where v: "validate_opened K f path (gn_devpath g) ?s1 = (vr, s2)"
    by (cases "validate_opened K f path (gn_devpath g) ?s1")
  have q: "quiet ?s1 s2" using validate_quiet[OF extra_legal[OF m1] v] .
  have m2: "minv {f} {} {} s2" using minv_quiet[OF m1 q] .
  have same: "ms_bypath s2 = ms_bypath s" "ms_cands s2 = ms_cands s" "ms_retries s2 = ms_retries s"
    by (simp_all add: quietD[OF q])
  show ?thesis
  proof (cases vr)
    case (Inl e)
    then show ?thesis using assms(3) Inr v close_extra[OF m2] by (auto simp: open_candidate_def open_node_def opened_def same)
  next
    case (Inr u)
    then have "probe_candidate K P path g f s2 = (r, s')"
      using assms(3) \<open>k_open K (ms_trace s) path = Inr f\<close> v by (simp add: open_candidate_def open_node_def)
    from probe_candidate_opened[OF m2 this] show ?thesis by (simp add: opened_def same)
  qed
qed

section \<open>Candidates accepted and considered\<close>

lemma accept_candidate_minv:
  assumes "minv {fd_of s d} {} {} s" "d < ms_next s" "d \<notin> actives s \<union> candidates s" "pd_path (dv s d) = path"
    "is_abs path" "gm_get (ms_bypath s) path = None" "gm_get (ms_cands s) path = None"
    "\<not> lost (accept_candidate K d s)"
  shows "minv {} {} {} (accept_candidate K d s)"
proof -
  let ?s1 = "s\<lparr>ms_cands := gm_put path d (ms_cands s)\<rparr>"
  note t = track_candidate[OF assms(1-3) refl assms(4-7)]
  have l: "legal_fd (fd_of ?s1 d) ?s1" using minv_legal[OF t(1)] t(2) by simp
  obtain r s2 where k: "keys_fd K (pd_fd (dv ?s1 d)) ?s1 = (r, s2)" by (cases "keys_fd K (pd_fd (dv ?s1 d)) ?s1")
  have q: "quiet ?s1 s2" using keys_quiet[OF l[unfolded fd_of_def] k] .
  have m2: "minv {} {} {} s2" using minv_quiet[OF t(1) q] .
  have d2: "d \<in> candidates s2" using t(2) only_trace_sets(2)[OF quiet_only_trace[OF q]] by simp
  note e = accept_candidate_def[of K d s, unfolded Let_def assms(4) k prod.case]
  show ?thesis
  proof (cases r)
    case (Inl x)
    have "minv {} {} {} (remove_candidate K d s2)" using remove_candidate_minv[OF m2 d2] by simp
    from schedule_retry_minv[OF this assms(5)] show ?thesis by (simp add: e Inl)
  next
    case (Inr p)
    show ?thesis using m2 activate_or_retry_minv[OF m2 d2] assms(8) by (simp add: e Inr split: if_splits)
  qed
qed

lemma opened_accept:
  assumes "opened path s (Some d) s'" "is_abs path" "gm_get (ms_bypath s) path = None" "gm_get (ms_cands s) path = None"
    "\<not> lost (accept_candidate K d s')"
  shows "minv {} {} {} (accept_candidate K d s')"
  using assms by (intro accept_candidate_minv[where path = path]) (auto simp: opened_def)

lemma consider_node_minv:
  assumes "minv {} {} {} s" "is_abs path" "fresh_fds K" "\<not> lost (consider_node K P path g s)"
  shows "minv {} {} {} (consider_node K P path g s)"
proof (cases "gm_get (ms_bypath s) path \<noteq> None \<or> gm_get (ms_cands s) path \<noteq> None")
  case True
  then show ?thesis using assms(1) by (simp add: consider_node_def)
next
  case False
  obtain r s1 where r: "open_candidate K P path g s = (r, s1)" by (cases "open_candidate K P path g s")
  note opn = open_candidate_opened[OF assms(1,3) r]
  note e = consider_node_def[of K P path g s, unfolded r prod.case]
  show ?thesis
  proof (cases "\<exists>d. r = Inr (Some d)")
    case True
    then obtain d where d: "r = Inr (Some d)" by blast
    have "opened path s (Some d) s1" using opn by (simp add: d)
    from opened_accept[OF this assms(2)] False assms(4) show ?thesis by (simp add: e d)
  next
    case nodev: False
    then have m1: "minv {} {} {} s1" using opn by (auto simp: opened_def split: sum.splits option.splits)
    have del: "minv {} {} {} (s1\<lparr>ms_retries := gm_del path (ms_retries s1)\<rparr>)"
      using retries_ok_del[OF minv_parts(6)[OF m1]] by (intro minv_retries[OF m1])
    show ?thesis
      using False nodev del schedule_retry_minv[OF m1 assms(2)] by (auto simp: e split: sum.splits option.splits)
  qed
qed

section \<open>Udev events\<close>

lemma adopt_retry_minv:
  assumes "minv {} {} {} s" "adopt_retry_add ev g s = (g', s')"
  shows "minv {} {} {} s'"
proof (cases "gm_get (ms_retries s) (de_path ev)")
  case None
  then show ?thesis using assms by (simp add: adopt_retry_add_def)
next
  case (Some st)
  note ok = minv_parts(6)[OF assms(1)]
  have "is_abs (de_path ev)" "rt_attempts st \<le> max_reacquisition_tries" using ok Some by (simp_all add: retries_ok_def)
  then show ?thesis
    using assms Some minv_retries[OF assms(1)] retries_ok_put[OF ok, of "de_path ev"]
    by (auto simp: adopt_retry_add_def Let_def split: if_splits)
qed

lemma upd_dev_minv:
  assumes "minv {} {} {} s" "\<And>p. pd_fd (h p) = pd_fd p \<and> pd_path (h p) = pd_path p"
  shows "minv {} {} {} (upd_dev d h s)"
  using minv_parts(6)[OF assms(1)] assms(2)
  by (intro minv_cong[OF assms(1)]) (auto simp: upd_dev_def retries_ok_def)

lemma adopt_gen_minv: "minv {} {} {} s \<Longrightarrow> minv {} {} {} (adopt_gen d g s)"
  unfolding adopt_gen_def by (rule upd_dev_minv) simp_all

lemma send_or_stop_state: "snd (send_or_stop K m s) = snd (send_message K m s)"
  by (simp add: send_or_stop_def split: prod.split bool.split)

lemma removed_stop_minv:
  assumes "minv {} {} {} s" "gm_get (ms_bypath s) path = Some d"
  shows "minv {} {} {} (snd (send_or_stop K (removed_message path) (remove_active K d s)))"
  using removed_minv(1)[OF assms, of K "fst (send_message K (removed_message path) (remove_active K d s))"]
  by (simp add: send_or_stop_state)

lemma replace_active_minv:
  assumes "minv {} {} {} s"
  shows "minv {} {} {} (snd (replace_active K path s))"
  using assms removed_stop_minv by (auto simp: replace_active_def split: option.split)

lemma replace_candidate_minv:
  assumes "minv {} {} {} s"
  shows "minv {} {} {} (replace_candidate K path s)"
  using assms remove_candidate_minv[OF assms candidate_member] by (auto simp: replace_candidate_def split: option.split)

lemma handle_add_minv:
  assumes "minv {} {} {} s" "is_abs (de_path ev)" "fresh_fds K" "\<not> lost (snd (handle_add K P ev s))"
  shows "minv {} {} {} (snd (handle_add K P ev s))"
proof -
  obtain g s1 where a: "adopt_retry_add ev (generation_from_event ev) s = (g, s1)"
    by (cases "adopt_retry_add ev (generation_from_event ev) s")
  have m1: "minv {} {} {} s1" using adopt_retry_minv[OF assms(1) a] .
  define path where "path = de_path ev"
  note e = handle_add_def[of K P ev s, unfolded Let_def a prod.case, folded path_def]
  show ?thesis
  proof (cases "adopting (ms_bypath s1) path g s1")
    case (Some d)
    then show ?thesis using adopt_gen_minv[OF m1] by (simp add: e)
  next
    case act: None
    show ?thesis
    proof (cases "adopting (ms_cands s1) path g s1")
      case (Some d)
      let ?s2 = "adopt_gen d g s1"
      have m2: "minv {} {} {} ?s2" using adopt_gen_minv[OF m1] .
      note ok = minv_parts(6)[OF m2]
      have "minv {} {} {} (?s2\<lparr>ms_retries := gm_put path (st\<lparr>rt_gen := h\<rparr>) (ms_retries ?s2)\<rparr>)"
        if "gm_get (ms_retries ?s2) path = Some st" for st h
        using retries_ok_put[OF ok, of path "st\<lparr>rt_gen := h\<rparr>"] that ok
        by (intro minv_retries[OF m2]) (simp add: retries_ok_def)
      then show ?thesis using m2 by (simp add: e act Some split: option.split)
    next
      case None
      obtain r s2 where r: "replace_active K path s1 = (r, s2)" by (cases "replace_active K path s1")
      have m2: "minv {} {} {} s2" using replace_active_minv[OF m1, of K path] r by simp
      let ?s3 = "replace_candidate K path s2"
      have m3: "minv {} {} {} ?s3" using replace_candidate_minv[OF m2] .
      obtain b s4 where b: "begin_retry path g ?s3 = (b, s4)" by (cases "begin_retry path g ?s3")
      have m4: "minv {} {} {} s4" using begin_retry_minv[OF m3 b] .
      have "minv {} {} {} (consider_node K P path g s4)" if "\<not> lost (consider_node K P path g s4)"
        using consider_node_minv[OF m4 _ assms(3) that] assms(2) by (simp add: path_def)
      then show ?thesis using m2 m3 m4 assms(4)
        by (auto simp: e act None r b split: sum.splits bool.splits if_splits)
    qed
  qed
qed

lemma handle_remove_minv:
  assumes "minv {} {} {} s"
  shows "minv {} {} {} (snd (handle_remove K ev s))"
proof -
  define path where "path = de_path ev"
  define s1 where "s1 = (case gm_get (ms_retries s) path of
      None \<Rightarrow> s
    | Some st \<Rightarrow> if matches_removal (rt_gen st) ev then s\<lparr>ms_retries := gm_del path (ms_retries s)\<rparr> else s)"
  define s2 where "s2 = (case gm_get (ms_cands s1) path of
      None \<Rightarrow> s1
    | Some d \<Rightarrow> if matches_removal (pd_gen (dv s1 d)) ev then remove_candidate K d s1 else s1)"
  have m1: "minv {} {} {} s1"
    using assms minv_retries[OF assms retries_ok_del[OF minv_parts(6)[OF assms]]]
    by (simp add: s1_def split: option.split)
  have m2: "minv {} {} {} s2"
    using m1 remove_candidate_minv[OF m1 candidate_member] by (auto simp: s2_def split: option.split)
  note e = handle_remove_def[of K ev s, unfolded Let_def, folded path_def, folded s1_def, folded s2_def]
  show ?thesis
    using m2 removed_stop_minv[OF m2] by (simp add: e split: option.split)
qed

lemma handle_udev_event_minv:
  assumes "minv {} {} {} s" "is_abs (de_path ev)" "fresh_fds K" "\<not> lost (snd (handle_udev_event K P ev s))"
  shows "minv {} {} {} (snd (handle_udev_event K P ev s))"
proof -
  obtain b l where a: "accept_sequence ev (ms_latest s) = (b, l)" by (cases "accept_sequence ev (ms_latest s)")
  have m1: "minv {} {} {} (s\<lparr>ms_latest := l\<rparr>)"
    using minv_parts(6)[OF assms(1)] by (intro minv_cong[OF assms(1)]) (simp_all add: retries_ok_def)
  show ?thesis
    using m1 handle_remove_minv[OF m1, of K ev] handle_add_minv[OF m1 assms(2,3), of P] assms(4)
    by (simp add: handle_udev_event_def a Let_def split: if_splits)
qed

lemma handle_udev_events_minv:
  assumes "minv {} {} {} s" "\<And>ev. ev \<in> set evs \<Longrightarrow> is_abs (de_path ev)" "fresh_fds K"
    "\<not> lost (snd (handle_udev_events K P evs s))"
  shows "minv {} {} {} (snd (handle_udev_events K P evs s))"
  using assms(1,2,4)
proof (induction evs arbitrary: s)
  case (Cons ev evs)
  obtain r s1 where r: "handle_udev_event K P ev s = (r, s1)" by (cases "handle_udev_event K P ev s")
  have "later s1 (snd (handle_udev_events K P (ev # evs) s))"
    by (auto simp: r split: sum.split intro!: later_intros)
  from lost_later[OF this Cons.prems(3)] have "minv {} {} {} s1"
    using handle_udev_event_minv[OF Cons.prems(1) _ assms(3), of ev P] Cons.prems(2) r by simp
  then show ?case using Cons by (simp add: r split: sum.splits)
qed simp

lemma handle_udev_ready_minv:
  assumes "minv {} {} {} s" "fresh_fds K" "\<not> lost (snd (handle_udev_ready K P hangup s))"
  shows "minv {} {} {} (snd (handle_udev_ready K P hangup s))"
proof -
  have t: "minv {} {} {} (note_call CTime s)" using minv_quiet[OF assms(1) quiet_calls(7)] .
  show ?thesis
    using assms(1,3) t handle_udev_events_minv[OF t read_events_paths assms(2)]
    by (auto simp: handle_udev_ready_def split: option.splits if_splits)
qed

section \<open>Reading an active keyboard\<close>

text \<open>The reader changes only the frame buffer of its device, and announces only what is announced.\<close>

definition reading :: "did \<Rightarrow> mstate \<Rightarrow> mstate \<Rightarrow> bool" where
  "reading d s s' \<longleftrightarrow> minv {} {} {} s' \<and> ms_bypath s' = ms_bypath s"

lemma reading_active: "reading d s s' \<Longrightarrow> d \<in> actives s \<Longrightarrow> d \<in> actives s'"
  by (simp add: reading_def actives_def)

lemma reading_upd:
  assumes "minv {} {} {} s" "\<And>p. pd_fd (h p) = pd_fd p \<and> pd_path (h p) = pd_path p"
  shows "reading d s (upd_dev d h s)"
  using upd_dev_minv[OF assms] by (simp add: reading_def upd_dev_def)

lemma announce_active_minv:
  assumes "minv {} {} {} s" "d \<in> actives s" "send_message K m s = (ok, s')"
    "msg_removed_device m = {}" "msg_frame_device m \<union> msg_resync_device m \<subseteq> {pd_path (dv s d)}"
  shows "minv {} {} {} s' \<and> ms_bypath s' = ms_bypath s"
proof -
  note p = minv_parts[OF assms(1)]
  have "pd_path (dv s d) \<in> active_paths s"
    using assms(2) member_path(1)[OF p(4)] by (simp add: active_paths_def)
  then have sub: "msg_frame_device m \<union> msg_resync_device m \<subseteq> gh_announced (gst s)" "gh_announced (gst s) = active_paths s"
    using p(2) assms(5) by (auto simp: annok_def)
  have "minv {} {} {} s'"
    by (rule send_minv[OF p(1) assms(3)]) (use sub assms(4) in auto)
  then show ?thesis using only_traceD(3)[OF send_effect(1)[OF assms(3)]] by simp
qed

lemma reading_send:
  assumes "minv {} {} {} s" "d \<in> actives s" "send_message K m s = (ok, s')"
    "msg_removed_device m = {}" "msg_frame_device m \<union> msg_resync_device m \<subseteq> {pd_path (dv s d)}"
  shows "reading d s s'" "ms_devs s' = ms_devs s"
  using announce_active_minv[OF assms] only_traceD(1)[OF send_effect(1)[OF assms(3)]] by (simp_all add: reading_def)

lemma reading_trans: "reading d s s' \<Longrightarrow> reading d s' s'' \<Longrightarrow> reading d s s''"
  by (simp add: reading_def)

lemma reading_quiet: "minv {} {} {} s \<Longrightarrow> quiet s s' \<Longrightarrow> reading d s s'"
  by (simp add: reading_def minv_quiet quietD)

lemma reading_minv: "reading d s s' \<Longrightarrow> minv {} {} {} s'"
  by (simp add: reading_def)

lemma read_event_reading:
  assumes "minv {} {} {} s" "d \<in> actives s"
  shows "reading d s (snd (read_event K d ev s))"
proof (cases "pd_dropping (dv s d)")
  case drop: True
  obtain r s1 where k: "keys_fd K (pd_fd (dv s d)) s = (r, s1)" by (cases "keys_fd K (pd_fd (dv s d)) s")
  have "legal_fd (fd_of s d) s" using minv_legal[OF assms(1)] assms(2) by simp
  then have q: "quiet s s1" using keys_quiet[OF _ k] by (simp add: fd_of_def)
  note q1 = reading_quiet[OF assms(1) q]
  have r0: "reading d s s" using assms(1) by (simp add: reading_def)
  show ?thesis
  proof (cases r)
    case (Inl e)
    then show ?thesis using drop k q1 r0 by (simp add: read_event_def Let_def)
  next
    case (Inr pressed)
    let ?m = "resync_message (pd_path (dv s d)) pressed"
    obtain b s2 where m: "send_message K ?m s1 = (b, s2)" by (cases "send_message K ?m s1")
    have a1: "d \<in> actives s1" using reading_active[OF q1 assms(2)] .
    have r2: "reading d s1 s2"
      using reading_send(1)[OF reading_minv[OF q1] a1 m] quietD(2)[OF q] by simp
    have r3: "reading d s2 (upd_dev d (\<lambda>p. p\<lparr>pd_dropping := False\<rparr>) s2)"
      using reading_upd[OF reading_minv[OF r2]] by simp
    show ?thesis
      using drop k Inr m r0 reading_trans[OF q1 r2] reading_trans[OF reading_trans[OF q1 r2] r3]
      by (simp add: read_event_def Let_def split: bool.split)
  qed
next
  case keep: False
  have r0: "reading d s (upd_dev d (\<lambda>p. p\<lparr>pd_frame := [], pd_dropping := True\<rparr>) s)"
    using reading_upd[OF assms(1)] by simp
  let ?s1 = "upd_dev d (\<lambda>p. p\<lparr>pd_frame := pd_frame p @ [ev]\<rparr>) s"
  have r1: "reading d s ?s1" using reading_upd[OF assms(1)] by simp
  have a1: "d \<in> actives ?s1" using reading_active[OF r1 assms(2)] .
  have path1: "pd_path (dv ?s1 d) = pd_path (dv s d)" by (simp add: upd_dev_def)
  let ?m = "frame_message \<lparr>fr_device = pd_path (dv s d), fr_events = pd_frame (dv ?s1 d)\<rparr>"
  obtain b s2 where m: "send_message K ?m ?s1 = (b, s2)" by (cases "send_message K ?m ?s1")
  have r2: "reading d ?s1 s2"
    using reading_send(1)[OF reading_minv[OF r1] a1 m] by (simp add: path1)
  have r3: "reading d s2 (upd_dev d (\<lambda>p. p\<lparr>pd_frame := []\<rparr>) s2)" using reading_upd[OF reading_minv[OF r2]] by simp
  show ?thesis
    using keep r0 r1 m reading_trans[OF r1 r2] reading_trans[OF reading_trans[OF r1 r2] r3]
    by (simp add: read_event_def Let_def split: bool.split)
qed

lemma read_events_reading:
  assumes "minv {} {} {} s" "d \<in> actives s"
  shows "reading d s (snd (read_events K d evs s))"
  using assms(1,2)
proof (induction evs arbitrary: s)
  case (Cons ev evs)
  obtain r s1 where r: "read_event K d ev s = (r, s1)" by (cases "read_event K d ev s")
  have r1: "reading d s s1" using read_event_reading[OF Cons.prems, of K ev] r by simp
  then show ?case using Cons.IH[OF reading_minv[OF r1] reading_active[OF r1 Cons.prems(2)]]
    by (auto simp: r split: sum.split intro: reading_trans)
qed (simp add: reading_def)

lemma read_chunks_reading:
  assumes "minv {} {} {} s" "d \<in> actives s"
  shows "reading d s (snd (read_chunks K d reads s))"
  using assms(1,2)
proof (induction reads arbitrary: s)
  case (Cons r reads)
  have r0: "reading d s s" using Cons.prems(1) by (simp add: reading_def)
  show ?case
  proof (cases "\<exists>bs evs. r = DevData bs \<and> bs \<noteq> [] \<and> decode_events bs = Inr evs")
    case False
    then show ?thesis using r0 by (cases r) (auto split: sum.split decode_error.split)
  next
    case True
    then obtain bs evs where bs: "r = DevData bs" "bs \<noteq> []" "decode_events bs = Inr evs" by blast
    obtain q s1 where q: "read_events K d evs s = (q, s1)" by (cases "read_events K d evs s")
    have r1: "reading d s s1" using read_events_reading[OF Cons.prems, of K evs] q by simp
    show ?thesis
      using r1 Cons.IH[OF reading_minv[OF r1] reading_active[OF r1 Cons.prems(2)]]
      by (auto simp: bs q split: sum.split intro: reading_trans)
  qed
qed (simp add: reading_def)

lemma read_ready_reading:
  assumes "minv {} {} {} s" "d \<in> actives s"
  shows "reading d s (snd (read_ready K d s))"
proof -
  have q: "quiet s (note_call (CRead (pd_fd (dv s d))) s)"
    using quiet_calls(5) minv_legal[OF assms(1)] assms(2) by (simp add: fd_of_def)
  note r = reading_quiet[OF assms(1) q, of d]
  show ?thesis
    using reading_trans[OF r read_chunks_reading[OF reading_minv[OF r] reading_active[OF r assms(2)]]]
    by (simp add: read_ready_def Let_def)
qed

lemma removed_stop_devs:
  assumes "minv {} {} {} s" "gm_get (ms_bypath s) path = Some d"
  shows "ms_devs (snd (send_or_stop K (removed_message path) (remove_active K d s))) = ms_devs s"
  using removed_minv(2)[OF assms, of K "fst (send_message K (removed_message path) (remove_active K d s))"]
  by (simp add: send_or_stop_state)

lemma handle_device_minv:
  assumes "minv {} {} {} s"
  shows "minv {} {} {} (snd (handle_device_ready K f hangup s))"
proof (cases "gm_get (ms_byfd s) f")
  case None
  then show ?thesis using assms by (simp add: handle_device_ready_def)
next
  case (Some d)
  note p = minv_parts[OF assms]
  have d: "d \<in> actives s" using p(3) Some by (simp add: shape_def byfd_ok_def)
  obtain r s1 where r: "read_ready K d s = (r, s1)" by (cases "read_ready K d s")
  have r1: "reading d s s1" using read_ready_reading[OF assms d, of K] r by simp
  note m1 = reading_minv[OF r1]
  have d1: "d \<in> actives s1" using reading_active[OF r1 d] .
  have own: "gm_get (ms_bypath s1) (pd_path (dv s1 d)) = Some d" using member_path(1)[OF minv_parts(4)[OF m1]] d1 by simp
  have path: "is_abs (pd_path (dv s1 d))" using tracked_entry(2)[OF minv_parts(4)[OF m1]] d1 by simp
  obtain q s2 where q: "send_or_stop K (removed_message (pd_path (dv s1 d))) (remove_active K d s1) = (q, s2)"
    by (cases "send_or_stop K (removed_message (pd_path (dv s1 d))) (remove_active K d s1)")
  have m2: "minv {} {} {} s2" using removed_stop_minv[OF m1 own, of K] q by simp
  have devs: "ms_devs s2 = ms_devs s1" using removed_stop_devs[OF m1 own, of K] q by simp
  have m3: "minv {} {} {} (schedule_retry K (pd_path (dv s2 d)) (pd_gen (dv s2 d)) s2)"
    using schedule_retry_minv[OF m2] path by (simp add: devs)
  show ?thesis
    using m1 m2 m3 by (simp add: handle_device_ready_def Some r q Let_def split: sum.split read_error.split)
qed

section \<open>Feedback and maintenance\<close>

lemma handle_feedback_minv:
  assumes "minv {} {} {} s"
  shows "minv {} {} {} (snd (handle_feedback_ready K hangup s))"
proof -
  have t: "minv {} {} {} (note_call CTime s)" using minv_quiet[OF assms quiet_calls(7)] .
  have l: "minv {} {} {} ((note_call CTime s)\<lparr>ms_locks := locks\<rparr>)" for locks
    using minv_parts(6)[OF t] by (intro minv_cong[OF t]) (simp_all add: retries_ok_def)
  show ?thesis
    using assms t l minv_quiet[OF l sync_leds_quiet[OF l]]
    by (simp add: handle_feedback_ready_def Let_def split: sum.split prod.split)
qed

lemma check_candidate_minv:
  assumes "minv {} {} {} s" "\<not> lost (check_candidate K path s)"
  shows "minv {} {} {} (check_candidate K path s)"
proof (cases "gm_get (ms_cands s) path")
  case None
  then show ?thesis using assms(1) by (simp add: check_candidate_def)
next
  case (Some d)
  have d: "d \<in> candidates s" using Some by (rule candidate_member)
  obtain r s1 where k: "keys_fd K (pd_fd (dv s d)) s = (r, s1)" by (cases "keys_fd K (pd_fd (dv s d)) s")
  have q: "quiet s s1" using keys_quiet[OF _ k] minv_legal[OF assms(1)] d by (simp add: fd_of_def)
  have m1: "minv {} {} {} s1" using minv_quiet[OF assms(1) q] .
  have d1: "d \<in> candidates s1" using d only_trace_sets(2)[OF quiet_only_trace[OF q]] by simp
  have path: "is_abs (pd_path (dv s1 d))" using tracked_entry(2)[OF minv_parts(4)[OF m1]] d1 by simp
  have m2: "minv {} {} {} (remove_candidate K d s1)" using remove_candidate_minv[OF m1 d1] by simp
  show ?thesis
    using m1 m2 activate_or_retry_minv[OF m1 d1] schedule_retry_minv[OF m2 path] assms(2)
    by (auto simp: check_candidate_def Some k Let_def remove_candidate_path split: sum.splits if_splits)
qed

lemma fold_minv:
  assumes "\<And>x s. minv X G W s \<Longrightarrow> \<not> lost (h x s) \<Longrightarrow> minv X G W (h x s)" "\<And>x s0 s. later s0 s \<Longrightarrow> later s0 (h x s)"
  shows "minv X G W s \<Longrightarrow> \<not> lost (fold h xs s) \<Longrightarrow> minv X G W (fold h xs s)"
proof (induction xs arbitrary: s)
  case (Cons x xs)
  have "later (h x s) (fold h xs (h x s))" by (rule later_fold) (simp_all add: assms(2))
  then have "\<not> lost (h x s)" using lost_later Cons.prems(2) by simp
  from Cons.IH[OF assms(1)[OF Cons.prems(1) this]] Cons.prems(2) show ?case by simp
qed simp

lemma check_candidates_minv:
  assumes "minv {} {} {} s" "\<not> lost (check_candidates K now s)"
  shows "minv {} {} {} (check_candidates K now s)"
proof -
  have m: "minv {} {} {} (fold (check_candidate K) ps s)" if "\<not> lost (fold (check_candidate K) ps s)" for ps
    by (rule fold_minv[where h = "check_candidate K", OF _ _ assms(1) that]) (use check_candidate_minv later_check in blast)+
  have "minv {} {} {} ((fold (check_candidate K) ps s)\<lparr>ms_check := t\<rparr>)" if "\<not> lost (fold (check_candidate K) ps s)" for ps t
    using minv_parts(6)[OF m[OF that]] by (intro minv_cong[OF m[OF that]]) (simp_all add: retries_ok_def)
  then show ?thesis using assms by (simp add: check_candidates_def split: if_splits)
qed

lemma process_retry_minv:
  assumes "minv {} {} {} s" "fresh_fds K" "\<not> lost (process_retry K P now path s)"
  shows "minv {} {} {} (process_retry K P now path s)"
proof (cases "gm_get (ms_retries s) path")
  case None
  then show ?thesis using assms(1) by (simp add: process_retry_def)
next
  case (Some st)
  then have path: "is_abs path" using minv_parts(6)[OF assms(1)] by (simp add: retries_ok_def)
  obtain b s1 where b: "begin_retry path (rt_gen st) s = (b, s1)" by (cases "begin_retry path (rt_gen st) s")
  have m1: "minv {} {} {} s1" using begin_retry_minv[OF assms(1) b] .
  show ?thesis
    using assms(1,3) m1 consider_node_minv[OF m1 path assms(2)]
    by (auto simp: process_retry_def Some b split: bool.splits if_splits)
qed

lemma process_retries_minv:
  assumes "minv {} {} {} s" "fresh_fds K" "\<not> lost (process_retries K P now s)"
  shows "minv {} {} {} (process_retries K P now s)"
  unfolding process_retries_def
  by (rule fold_minv[where h = "process_retry K P now", OF _ _ assms(1) assms(3)[unfolded process_retries_def]])
    (use process_retry_minv[OF _ assms(2)] later_retry in blast)+

section \<open>The loop\<close>

lemma handle_ready_minv:
  assumes "minv {} {} {} s" "fresh_fds K" "\<not> lost (snd (handle_ready K P F r s))"
  shows "minv {} {} {} (snd (handle_ready K P F r s))"
  using assms(1,3) handle_udev_ready_minv[OF assms(1,2)] handle_feedback_minv[OF assms(1)] handle_device_minv[OF assms(1)]
  by (simp add: handle_ready_def handle_wake_ready_def split: if_splits)

lemma handle_all_minv:
  assumes "fresh_fds K"
  shows "minv {} {} {} s \<Longrightarrow> \<not> lost (snd (handle_all K P F rs s)) \<Longrightarrow> minv {} {} {} (snd (handle_all K P F rs s))"
proof (induction rs arbitrary: s)
  case (Cons r rs)
  obtain q s1 where q: "handle_ready K P F r s = (q, s1)" by (cases "handle_ready K P F r s")
  have "later s1 (snd (handle_all K P F (r # rs) s))" by (auto simp: q split: sum.split intro!: later_intros)
  from lost_later[OF this Cons.prems(2)] have "minv {} {} {} s1"
    using handle_ready_minv[OF Cons.prems(1) assms, of P F r] q by simp
  then show ?case using Cons.IH Cons.prems(2) by (simp add: q split: sum.splits)
qed simp

lemma loop_pass_minv:
  assumes "minv {} {} {} s" "fresh_fds K" "\<not> lost (snd (loop_pass K P F a s))"
  shows "minv {} {} {} (snd (loop_pass K P F a s))"
proof (cases "k_cancelled K (ms_trace s)")
  case True
  then show ?thesis using assms(1) by (simp add: loop_pass_def)
next
  case False
  define now where "now = k_now K (ms_trace s)"
  define s0 where "s0 = check_candidates K now (note_call CTime s)"
  define s1 where "s1 = process_retries K P now s0"
  note e = loop_pass_def[of K P F _ s, unfolded Let_def, folded now_def, folded s0_def, folded s1_def]
  have late: "later s1 (snd (loop_pass K P F a s))" "later s0 s1"
    using False later_all[OF later_refl] later_process[OF later_refl]
    by (auto simp: e s1_def[symmetric] case_prod_unfold split: epoll_answer.split sum.split) (simp add: s1_def)
  note kept = lost_later[OF late(1) assms(3)] lost_later[OF late(2) lost_later[OF late(1) assms(3)]]
  have "minv {} {} {} s0"
    using check_candidates_minv[OF minv_quiet[OF assms(1) quiet_calls(7)]] kept(2) by (simp add: s0_def)
  then have m1: "minv {} {} {} s1" using process_retries_minv[OF _ assms(2)] kept(1) by (simp add: s1_def)
  show ?thesis
  proof (cases a)
    case EpReady: (EpReady rs)
    show ?thesis
      using handle_all_minv[OF assms(2) m1, of P F rs] assms(3) False
      by (simp add: e EpReady case_prod_unfold split: sum.splits)
  qed (use False m1 in \<open>simp_all add: e\<close>)
qed

lemma run_loop_minv:
  assumes "fresh_fds K"
  shows "minv {} {} {} s \<Longrightarrow> \<not> lost (snd (run_loop K P F as s)) \<Longrightarrow> minv {} {} {} (snd (run_loop K P F as s))"
proof (induction as arbitrary: s)
  case (Cons a as)
  obtain q s1 where q: "loop_pass K P F a s = (q, s1)" by (cases "loop_pass K P F a s")
  have "later s1 (snd (run_loop K P F (a # as) s))" by (auto simp: q split: option.split intro!: later_intros)
  from lost_later[OF this Cons.prems(2)] have "minv {} {} {} s1"
    using loop_pass_minv[OF Cons.prems(1) assms, of P F a] q by simp
  then show ?case using Cons.IH Cons.prems(2) by (simp add: q split: option.splits)
qed simp

section \<open>Enumeration\<close>

lemma open_enumerated_opened:
  assumes "minv {} {} {} s" "fresh_fds K" "open_enumerated K P path s = ((r, g), s')"
  shows "opened path s (case r of Inr (Some d) \<Rightarrow> Some d | _ \<Rightarrow> None) s'"
proof (cases "k_open K (ms_trace s) path")
  case (Inl e)
  let ?s1 = "note_call (CLook path) s"
  obtain q s2 where q: "sampled_generation K path ?s1 = (q, s2)" by (cases "sampled_generation K path ?s1")
  have qt: "quiet s s2" using quiet_trans[OF quiet_calls(6) sampled_quiet[OF q]] .
  have "\<exists>es. r = Inl es" "s' = s2" using assms(3) Inl q by (auto simp: open_enumerated_def open_node_def split: sum.splits)
  then show ?thesis using minv_quiet[OF assms(1) qt] by (auto simp: opened_def quietD[OF qt])
next
  case (Inr f)
  let ?s1 = "note_call (COpened path f) s"
  have m1: "minv {f} {} {} ?s1" using opened_minv[OF assms(1)] assms(2) Inr by (auto simp: fresh_fds_def)
  let ?sq = "note_call (CQuery f) ?s1"
  have qq: "quiet ?s1 ?sq" using quiet_calls(1)[OF extra_legal[OF m1]] .
  obtain gr s2 where gr: "sampled_generation K path ?sq = (gr, s2)" by (cases "sampled_generation K path ?sq")
  have q2: "quiet ?s1 s2" using quiet_trans[OF qq sampled_quiet[OF gr]] .
  have closed: "opened path s None (note_call (CClose f) t)" if "quiet ?s1 t" for t
    using close_extra[OF minv_quiet[OF m1 that]] by (simp add: opened_def quietD[OF that])
  note e = open_enumerated_def[of K P path s, unfolded open_node_def Inr sum.case prod.case]
  show ?thesis
  proof (cases "k_fstat K (ms_trace s @ [COpened path f]) f")
    case (Inl x)
    then show ?thesis using assms(3) closed[OF qq] by (auto simp: e)
  next
    case fst: (Inr st)
    show ?thesis
    proof (cases gr)
      case (Inl x)
      then show ?thesis using assms(3) closed[OF q2] by (auto simp: e fst gr)
    next
      case (Inr gen)
      obtain v s3 where v: "validate_identity K path st s2 = (v, s3)" by (cases "validate_identity K path st s2")
      have q3: "quiet ?s1 s3" using quiet_trans[OF q2 identity_quiet[OF v]] .
      show ?thesis
      proof (cases v)
        case (Inl x)
        then show ?thesis using assms(3) closed[OF q3] Inr by (auto simp: e fst gr v)
      next
        case ok: (Inr u)
        obtain pr s4 where pr: "probe_candidate K P path gen f s3 = (pr, s4)" by (cases "probe_candidate K P path gen f s3")
        have "opened path s (case pr of Inr (Some d) \<Rightarrow> Some d | _ \<Rightarrow> None) s4"
          using probe_candidate_opened[OF minv_quiet[OF m1 q3] pr] by (simp add: opened_def quietD[OF q3])
        then show ?thesis using assms(3) Inr ok by (cases pr) (auto simp: e fst gr v pr)
      qed
    qed
  qed
qed

lemma enumerate_path_minv:
  assumes "minv {} {} {} s" "is_abs path" "fresh_fds K" "gm_get (ms_bypath s) path = None"
    "gm_get (ms_cands s) path = None" "enumerate_path K P path s = (r, s')" "\<not> lost s'"
  shows "minv {} {} {} s'"
proof -
  obtain opn g s1 where o1: "open_enumerated K P path s = ((opn, g), s1)" by (metis prod.exhaust)
  note e = enumerate_path_def[of K P path s, unfolded o1 prod.case]
  note op = open_enumerated_opened[OF assms(1,3) o1]
  show ?thesis
  proof (cases "\<exists>d. opn = Inr (Some d)")
    case True
    then obtain d where d: "opn = Inr (Some d)" by blast
    have op1: "opened path s (Some d) s1" using op by (simp add: d)
    have s': "s' = accept_candidate K d s1" using assms(6) by (simp add: e d)
    show ?thesis using opened_accept[OF op1 assms(2,4,5)] assms(7) by (simp add: s')
  next
    case False
    then have m1: "minv {} {} {} s1" using op by (auto simp: opened_def split: sum.splits option.splits)
    show ?thesis
      using assms(6) False m1 schedule_retry_minv[OF m1 assms(2)]
      by (auto simp: e split: sum.splits option.splits if_splits)
  qed
qed

lemma enumerate_paths_minv:
  assumes "fresh_fds K"
  shows "minv {} {} {} s \<Longrightarrow> tracked {} s \<Longrightarrow> distinct ps \<Longrightarrow> list_all is_abs ps \<Longrightarrow>
    (\<And>p. p \<in> set ps \<Longrightarrow> gm_get (ms_bypath s) p = None \<and> gm_get (ms_cands s) p = None) \<Longrightarrow>
    \<not> lost (snd (enumerate_paths K P ps s)) \<Longrightarrow> minv {} {} {} (snd (enumerate_paths K P ps s))"
proof (induction ps arbitrary: s)
  case Nil
  have t: "minv {} {} {} (note_call CTime s)" using minv_quiet[OF Nil(1) quiet_calls(7)] .
  have "minv {} {} {} ((note_call CTime s)\<lparr>ms_check := k_now K (ms_trace s)\<rparr>)"
    using minv_parts(6)[OF t] by (intro minv_cong[OF t]) (simp_all add: retries_ok_def)
  then show ?case by simp
next
  case (Cons p ps)
  obtain r s1 where r: "enumerate_path K P p s = (r, s1)" by (cases "enumerate_path K P p s")
  have free: "is_abs p" "gm_get (ms_bypath s) p = None" "gm_get (ms_cands s) p = None" using Cons.prems(4,5) by auto
  have late: "later s1 (snd (enumerate_paths K P (p # ps) s))" by (auto simp: r split: sum.split intro!: later_intros)
  note m1 = enumerate_path_minv[OF Cons.prems(1) free(1) assms free(2,3) r lost_later[OF late Cons.prems(6)]]
  note t1 = tracked_enumerate[OF Cons.prems(2) free r]
  have "minv {} {} {} (snd (enumerate_paths K P ps s1))" if "\<not> lost (snd (enumerate_paths K P ps s1))"
  proof (rule Cons.IH[OF m1 t1(1) _ _ _ that])
    fix q assume q: "q \<in> set ps"
    then have "q \<noteq> p" using Cons.prems(3) by auto
    then show "gm_get (ms_bypath s1) q = None \<and> gm_get (ms_cands s1) q = None" using t1(2)[of q] Cons.prems(5)[of q] q by simp
  qed (use Cons.prems in auto)
  then show ?case using m1 Cons.prems(6) by (simp add: r split: sum.splits)
qed

section \<open>Shutdown\<close>

lemma close_actives_fold:
  fixes K :: kernel_answers
  defines "h \<equiv> \<lambda>p s. case gm_get (ms_bypath s) p of None \<Rightarrow> s | Some d \<Rightarrow> remove_active K d s"
  shows "fdinv {} {} {} s \<Longrightarrow> fdinv {} {} {} (fold h ps s) \<and>
    (\<forall>p. gm_get (ms_bypath (fold h ps s)) p = (if p \<in> set ps then None else gm_get (ms_bypath s) p)) \<and>
    gh_announced (gst (fold h ps s)) = gh_announced (gst s)"
proof (induction ps arbitrary: s)
  case (Cons q ps)
  have t: "fdinv {} {} {} (h q s) \<and> (\<forall>p. gm_get (ms_bypath (h q s)) p = (if p = q then None else gm_get (ms_bypath s) p)) \<and>
      gh_announced (gst (h q s)) = gh_announced (gst s)"
  proof (cases "gm_get (ms_bypath s) q")
    case (Some d)
    note r = remove_active_fdinv[OF Cons.prems active_member[OF Some], of K]
    have "entries_ok s" using Cons.prems by (simp add: fdinv_def shape_def)
    then have "pd_path (dv s d) = q" using entryD(2)[of s q d] Some by simp
    then show ?thesis using r(1) by (simp add: h_def Some r(2,3))
  qed (use Cons.prems in \<open>simp add: h_def\<close>)
  then show ?case using Cons.IH[of "h q s"] by simp
qed simp

lemma close_candidates_fold:
  fixes K :: kernel_answers
  defines "h \<equiv> \<lambda>p s. case gm_get (ms_cands s) p of None \<Rightarrow> s | Some d \<Rightarrow> remove_candidate K d s"
  shows "fdinv {} {} {} s \<Longrightarrow> fdinv {} {} {} (fold h ps s) \<and> ms_bypath (fold h ps s) = ms_bypath s \<and>
    (\<forall>p. gm_get (ms_cands (fold h ps s)) p = (if p \<in> set ps then None else gm_get (ms_cands s) p)) \<and>
    gh_announced (gst (fold h ps s)) = gh_announced (gst s)"
proof (induction ps arbitrary: s)
  case (Cons q ps)
  have t: "fdinv {} {} {} (h q s) \<and> ms_bypath (h q s) = ms_bypath s \<and>
      (\<forall>p. gm_get (ms_cands (h q s)) p = (if p = q then None else gm_get (ms_cands s) p)) \<and>
      gh_announced (gst (h q s)) = gh_announced (gst s)"
  proof (cases "gm_get (ms_cands s) q")
    case (Some d)
    note r = remove_candidate_fdinv[OF Cons.prems candidate_member[OF Some], of K]
    have "entries_ok s" using Cons.prems by (simp add: fdinv_def shape_def)
    then have "pd_path (dv s d) = q" using entryD(2)[of s q d] Some by simp
    then show ?thesis using r(1) by (simp add: h_def Some r(2,3,6))
  qed (use Cons.prems in \<open>simp add: h_def\<close>)
  then show ?case using Cons.IH[of "h q s"] by simp
qed simp

lemma close_manager_effect:
  assumes "fdinv {} {} {} s"
  shows "fdinv {} {} {} (close_manager K s)" "actives (close_manager K s) = {}" "candidates (close_manager K s) = {}"
    "gh_announced (gst (close_manager K s)) = gh_announced (gst s)"
proof -
  let ?s1 = "close_actives K s"
  have a: "fdinv {} {} {} ?s1 \<and> (\<forall>p. gm_get (ms_bypath ?s1) p = None) \<and> gh_announced (gst ?s1) = gh_announced (gst s)"
    using close_actives_fold[OF assms, of K "range_order K s (gm_keys (ms_bypath s))"]
    by (simp add: close_actives_def range_order_set gm_keys_iff)
  then have b: "fdinv {} {} {} (close_manager K s) \<and> ms_bypath (close_manager K s) = ms_bypath ?s1 \<and>
      (\<forall>p. gm_get (ms_cands (close_manager K s)) p = None) \<and>
      gh_announced (gst (close_manager K s)) = gh_announced (gst ?s1)"
    using close_candidates_fold[of ?s1 K "range_order K ?s1 (gm_keys (ms_cands ?s1))"]
    by (simp add: close_manager_def close_candidates_def range_order_set gm_keys_iff)
  then show "fdinv {} {} {} (close_manager K s)" "gh_announced (gst (close_manager K s)) = gh_announced (gst s)"
    using a by simp_all
  show "actives (close_manager K s) = {}" "candidates (close_manager K s) = {}"
    using a b by (simp_all add: actives_def candidates_def)
qed

section \<open>A run\<close>

lemma new_state_minv: "minv {} {} {} new_manager_state"
  by (simp add: minv_def fdinv_def shape_def entries_ok_def apart_def byfd_ok_def retries_ok_def annok_def
      actives_def candidates_def active_paths_def new_manager_state_def ghost_of_def ghost_start_def)

lemma manager_run_result:
  assumes "fresh_fds K" "distinct paths" "list_all is_abs paths" "manager_run K P F paths answers = (r, s)" "\<not> lost s"
  shows "if r = None then minv {} {} {} s
    else fdinv {} {} {} s \<and> actives s = {} \<and> candidates s = {}"
proof -
  have free: "gm_get (ms_bypath new_manager_state) p = None \<and> gm_get (ms_cands new_manager_state) p = None" for p
    by (simp add: new_manager_state_def)
  obtain q s1 where q: "enumerate_paths K P paths new_manager_state = (q, s1)"
    by (cases "enumerate_paths K P paths new_manager_state")
  obtain l s2 where l: "run_loop K P F answers s1 = (l, s2)" by (cases "run_loop K P F answers s1")
  have late: "later s1 s2" using later_loop[OF later_refl, of s1 K P F answers] l by simp
  have closing: "later t (close_manager K t)" for t by (intro later_close later_refl)
  have s: "s \<in> {close_manager K s1, s2, close_manager K s2}" and runs: "q = Inr () \<Longrightarrow> s \<in> {s2, close_manager K s2}"
    using assms(4) by (auto simp: manager_run_def q l split: sum.splits option.splits)
  have "\<not> lost s1" using s assms(5) lost_later[OF late] lost_later[OF closing] by auto
  then have m1: "minv {} {} {} s1"
    using enumerate_paths_minv[OF assms(1) new_state_minv tracked_start assms(2,3) free, of P] q by simp
  have m2: "minv {} {} {} s2" if "q = Inr ()"
    using run_loop_minv[OF assms(1) m1, of P F answers] l runs[OF that] assms(5) lost_later[OF closing] by auto
  note c1 = close_manager_effect[OF minv_parts(1)[OF m1], of K] and c2 = close_manager_effect[OF minv_parts(1)[OF m2], of K]
  show ?thesis
    using assms(4) m2 c1 c2 by (auto simp: manager_run_def q l split: sum.splits option.splits)
qed

end
