(* ===== verification/Manager_Closings.thy ===== *)
theory Manager_Closings
  imports Manager_Tracking
begin

text \<open>
  Counting the descriptors the device manager opens and closes.  Whatever the kernel answers, the closes
  so far and the devices in the maps together are the opens and the lost announcements: a lost
  announcement costs one close too many.
\<close>

section \<open>Counting\<close>

definition openings :: "sys_call list \<Rightarrow> nat" where
  "openings tr = length (filter (\<lambda>c. case c of COpened p f \<Rightarrow> True | _ \<Rightarrow> False) tr)"

definition closings :: "sys_call list \<Rightarrow> nat" where
  "closings tr = length (filter (\<lambda>c. case c of CClose f \<Rightarrow> True | _ \<Rightarrow> False) tr)"

lemma counts_snoc [simp]:
  "openings (tr @ [c]) = openings tr + (case c of COpened p f \<Rightarrow> 1 | _ \<Rightarrow> 0)"
  "closings (tr @ [c]) = closings tr + (case c of CClose f \<Rightarrow> 1 | _ \<Rightarrow> 0)"
  by (simp_all add: openings_def closings_def split: sys_call.split)

lemma counts_start: "openings [] = 0" "closings [] = 0" "losses [] = 0" "named [] = {}"
  by (simp_all add: openings_def closings_def losses_def named_def)

text \<open>Every legal close is of an open descriptor.\<close>

lemma legal_closings:
  "gh_legal (ghost_of tr) \<Longrightarrow> finite (gh_open (ghost_of tr)) \<and> closings tr + card (gh_open (ghost_of tr)) \<le> openings tr"
proof (induction tr rule: rev_induct)
  case Nil
  then show ?case by (simp add: counts_start ghost_of_def ghost_start_def)
next
  case (snoc c tr)
  have "gh_legal (ghost_of tr)" using snoc.prems by (cases c) (auto simp: ghost_step_def use_fd_def)
  note IH = snoc.IH[OF this]
  show ?case
  proof (cases c)
    case (COpened p f)
    have "card (insert f (gh_open (ghost_of tr))) \<le> Suc (card (gh_open (ghost_of tr)))" by (rule card_insert_le_m1) simp_all
    then show ?thesis using IH by (simp add: COpened ghost_step_def)
  next
    case (CClose f)
    then have "f \<in> gh_open (ghost_of tr)" using snoc.prems by (simp add: ghost_step_def use_fd_def)
    then have "Suc (card (gh_open (ghost_of tr) - {f})) = card (gh_open (ghost_of tr))" using IH by (metis card_Suc_Diff1)
    then show ?thesis using IH by (simp add: CClose ghost_step_def use_fd_def)
  qed (use IH in \<open>simp_all add: ghost_step_def use_fd_def\<close>)
qed

lemma length_put:
  assumes "gm_wf m" "gm_get m k = None"
  shows "length (gm_put k v m) = Suc (length m)"
  using gm.length_keys_put[OF assms, of v] by (simp add: gm_keys_def)

lemma length_del:
  assumes "gm_wf m" "gm_get m k = Some v"
  shows "Suc (length (gm_del k m)) = length m"
proof -
  have card: "length n = card (set (gm_keys n))" if "gm_wf n" for n :: "('a, 'b) gomap"
    using that distinct_card[of "map fst n"] by (simp add: gm_wf_def gm_keys_def)
  have "k \<in> set (gm_keys m)" using assms(2) gm.keys_get by fastforce
  then have "Suc (card (set (gm_keys m) - {k})) = card (set (gm_keys m))" by (intro card_Suc_Diff1) simp_all
  moreover have "length (gm_del k m) = card (set (gm_keys (gm_del k m)))" using card assms(1) by simp
  ultimately show ?thesis unfolding gm.set_keys_del using card[OF assms(1)] by metis
qed

lemma del_absent: "gm_get m k = None \<Longrightarrow> gm_del k m = m"
  by (induction m) (auto simp: gm_get_def gm_del_def split: if_splits)

definition tally :: "nat \<Rightarrow> mstate \<Rightarrow> bool" where
  "tally n s \<longleftrightarrow> gm_wf (ms_bypath s) \<and> gm_wf (ms_cands s) \<and>
     closings (ms_trace s) + length (ms_bypath s) + length (ms_cands s) + n = openings (ms_trace s) + losses (ms_trace s)"

text \<open>\<open>n\<close>: the descriptors open and not tracked yet, or the close too many that is still to come.\<close>

definition balanced :: "nat \<Rightarrow> mstate \<Rightarrow> bool" where
  "balanced n s \<longleftrightarrow> tally n s \<and> named (ms_trace s) = active_paths s"

lemma tally_updates [simp]:
  "tally n (s\<lparr>ms_retries := x1\<rparr>) = tally n s" "tally n (s\<lparr>ms_latest := x2\<rparr>) = tally n s"
  "tally n (s\<lparr>ms_check := x3\<rparr>) = tally n s" "tally n (s\<lparr>ms_locks := x4\<rparr>) = tally n s"
  "tally n (s\<lparr>ms_byfd := x5\<rparr>) = tally n s" "tally n (upd_dev d f s) = tally n s"
  by (simp_all add: tally_def upd_dev_def)

lemma active_paths_updates [simp]:
  "active_paths (s\<lparr>ms_retries := x1\<rparr>) = active_paths s" "active_paths (s\<lparr>ms_latest := x2\<rparr>) = active_paths s"
  "active_paths (s\<lparr>ms_check := x3\<rparr>) = active_paths s" "active_paths (s\<lparr>ms_locks := x4\<rparr>) = active_paths s"
  "active_paths (s\<lparr>ms_byfd := x5\<rparr>) = active_paths s" "active_paths (s\<lparr>ms_cands := x6\<rparr>) = active_paths s"
  "active_paths (upd_dev d f s) = active_paths s" "active_paths (note_call c s) = active_paths s"
  by (simp_all add: active_paths_def upd_dev_def)

lemma balanced_updates [simp]:
  "balanced n (s\<lparr>ms_retries := x1\<rparr>) = balanced n s" "balanced n (s\<lparr>ms_latest := x2\<rparr>) = balanced n s"
  "balanced n (s\<lparr>ms_check := x3\<rparr>) = balanced n s" "balanced n (s\<lparr>ms_locks := x4\<rparr>) = balanced n s"
  "balanced n (s\<lparr>ms_byfd := x5\<rparr>) = balanced n s" "balanced n (upd_dev d f s) = balanced n s"
  by (simp_all add: balanced_def) (simp_all add: upd_dev_def)

section \<open>Calls\<close>

lemma plain_counts:
  assumes "list_all plain_call tr'"
  shows "openings (tr @ tr') = openings tr \<and> closings (tr @ tr') = closings tr \<and> losses (tr @ tr') = losses tr \<and>
    named (tr @ tr') = named tr"
  using assms
proof (induction tr' rule: rev_induct)
  case (snoc c tr')
  then show ?case
    unfolding append_assoc[symmetric] counts_snoc losses_snoc named_snoc
    by (cases c) (auto simp: plain_call_def named_step_def)
qed simp

lemma tally_plain: "tally n s \<Longrightarrow> plain s s' \<Longrightarrow> tally n s'"
  using only_traceD[OF calls_trace[of plain_call s s']] plain_counts
  by (fastforce simp: tally_def calls_only_def)

lemma balanced_plain: "balanced n s \<Longrightarrow> plain s s' \<Longrightarrow> balanced n s'"
  using tally_plain[of n s s'] only_trace_sets(3)[OF calls_trace[of plain_call s s']] plain_counts
  by (fastforce simp: balanced_def calls_only_def)

lemma closing_counts:
  "closings (ms_trace (close_device_fd K d s)) = Suc (closings (ms_trace s))"
  "openings (ms_trace (close_device_fd K d s)) = openings (ms_trace s)"
  "losses (ms_trace (close_device_fd K d s)) = losses (ms_trace s)"
  "named (ms_trace (close_device_fd K d s)) = named (ms_trace s)"
  "closings (ms_trace (close_candidate_fd K d s)) = Suc (closings (ms_trace s))"
  "openings (ms_trace (close_candidate_fd K d s)) = openings (ms_trace s)"
  "losses (ms_trace (close_candidate_fd K d s)) = losses (ms_trace s)"
  "named (ms_trace (close_candidate_fd K d s)) = named (ms_trace s)"
  unfolding close_device_fd_def close_candidate_fd_def grab_fd_def Let_def case_prod_unfold
  by (simp_all add: losses_snoc named_step_def del: append_assoc)

lemma tally_remove_active:
  assumes "tally n s" "tracked X s" "gm_get (ms_bypath s) path = Some d"
  shows "tally n (remove_active K d s)" "named (ms_trace (remove_active K d s)) = named (ms_trace s)"
    "active_paths (remove_active K d s) = active_paths s - {path}"
proof -
  note r = tracked_remove_active[OF assms(2,3), of K]
  have tr: "ms_trace (remove_active K d s) = ms_trace (close_device_fd K d s)" by (simp add: remove_active_def Let_def)
  show "tally n (remove_active K d s)"
    using assms(1) length_del[OF _ assms(3)] by (simp add: tally_def r tr closing_counts)
  show "named (ms_trace (remove_active K d s)) = named (ms_trace s)" by (simp add: tr closing_counts)
  show "active_paths (remove_active K d s) = active_paths s - {path}" by (auto simp: active_paths_def r)
qed

lemma balanced_removed:
  assumes "balanced n s" "tracked X s" "gm_get (ms_bypath s) path = Some d"
  shows "balanced n (snd (send_or_stop K (removed_message path) (remove_active K d s)))"
proof -
  note r = tally_remove_active[OF conjunct1[OF assms(1)[unfolded balanced_def]] assms(2,3), of K]
  have "path \<noteq> []" using entryD(3)[OF trackedD(1)[OF assms(2)], of path d] assms(3) by auto
  then show ?thesis
    using r assms(1)
    by (auto simp: send_or_stop_def send_message_def balanced_def tally_def losses_snoc named_step_def)
qed

lemma remove_candidate_trace: "ms_trace (remove_candidate K d s) = ms_trace (close_candidate_fd K d s)"
  by (simp add: remove_candidate_def Let_def)

lemma balanced_remove_candidate:
  assumes "balanced n s" "tracked X s" "gm_get (ms_cands s) path = Some d"
  shows "balanced n (remove_candidate K d s)"
proof -
  have path: "pd_path (dv s d) = path" using entryD(2)[OF trackedD(1)[OF assms(2)], of path d] assms(3) by simp
  note r = tracked_remove_candidate[OF assms(2), of d K, unfolded path, unfolded assms(3), simplified]
  show ?thesis
    using assms(1) length_del[OF _ assms(3)]
    by (simp add: balanced_def tally_def r active_paths_def remove_candidate_trace closing_counts)
qed

lemma balanced_remove_gone:
  assumes "balanced (Suc n) s" "tracked X s" "gm_get (ms_cands s) (pd_path (dv s d)) = None"
  shows "balanced n (remove_candidate K d s)"
proof -
  note r = tracked_remove_candidate[OF assms(2), of d K, unfolded assms(3), simplified]
  show ?thesis
    using assms(1) del_absent[OF assms(3)]
    by (simp add: balanced_def tally_def r active_paths_def remove_candidate_trace closing_counts)
qed

lemma balanced_schedule: "balanced n s \<Longrightarrow> balanced n (schedule_retry K path g s)"
  using balanced_plain[of n s "note_call CTime s"] calls_notes(10)[OF allows_both(1) calls_refl]
  by (simp add: schedule_retry_def Let_def)

lemma balanced_begin: "balanced n s \<Longrightarrow> balanced n (snd (begin_retry path g s))"
  by (simp add: begin_retry_def Let_def case_prod_unfold split: option.split)

section \<open>Candidates\<close>

lemma balanced_activate:
  assumes "balanced n s" "tracked X s" "gm_get (ms_cands s) path = Some d" "activate_device K d s = (r, s')"
  shows "case r of Inr _ \<Rightarrow> balanced n s'
    | Inl AnnounceCancelled \<Rightarrow> balanced (Suc n) s' \<and> gm_get (ms_cands s') path = None
    | Inl (AcquireFailed _) \<Rightarrow> balanced n s' \<and> gm_get (ms_cands s') path = Some d"
proof -
  have ent: "pd_path (dv s d) = path" using entryD(2)[OF trackedD(1)[OF assms(2)], of path d] assms(3) by simp
  obtain ar s1 where a: "acquire_idle K d s = (ar, s1)" by (cases "acquire_idle K d s")
  have c1: "plain s s1" using calls_acquire[OF allows_both(1) calls_refl, of s K d] a by simp
  note b1 = balanced_plain[OF assms(1) c1] and o1 = only_traceD[OF calls_trace[OF c1]]
  show ?thesis
  proof (cases "\<exists>p. ar = Inr (Some p)")
    case False
    then show ?thesis using assms(3,4) a b1 o1 by (auto simp: activate_by_promote split: sum.splits option.splits)
  next
    case True
    then obtain p where p: "ar = Inr (Some p)" by blast
    define s3 where "s3 = snd (sync_device_leds K d (promote d s1))"
    have d1: "pd_path (dv s1 d) = path" by (simp add: o1 ent)
    have c3: "plain (promote d s1) s3" using calls_sync_device[OF allows_both(1) calls_refl] by (simp add: s3_def)
    note o3 = only_traceD[OF calls_trace[OF c3]]
    have none: "gm_get (ms_bypath s1) path = None" using trackedD(2)[OF assms(2)] assms(3) by (simp add: apart_def o1) (metis option.distinct(1))
    have "tally n (promote d s1)"
      using b1 length_put[OF _ none, of d] length_del[of "ms_cands s1" path d] assms(3)
      by (simp add: balanced_def tally_def promote_def Let_def ent o1)
    then have t3: "tally n s3" using tally_plain c3 by blast
    have n3: "named (ms_trace s3) = active_paths s1"
    proof -
      have "named (ms_trace s3) = named (ms_trace (promote d s1))" using c3 plain_counts by (fastforce simp: calls_only_def)
      then show ?thesis using b1 by (simp add: balanced_def promote_def Let_def)
    qed
    have a3: "active_paths s3 = insert path (active_paths s1)" "path \<notin> active_paths s1"
      using none by (auto simp: active_paths_def o3 promote_def Let_def d1)
    have cands: "gm_get (ms_cands s3) path = None" by (simp add: o3 promote_def Let_def d1)
    have run: "(r, s') = (case send_message K (resync_message path p) s3 of (True, s4) \<Rightarrow> (Inr (), s4) | (False, s4) \<Rightarrow> (Inl AnnounceCancelled, s4))"
      using assms(4) a p d1 by (simp add: activate_by_promote s3_def)
    show ?thesis
      using run t3 n3 a3 cands
      by (auto simp: send_message_def balanced_def tally_def losses_snoc named_step_def split: if_splits)
  qed
qed

lemma balanced_activate_or_retry:
  assumes "balanced n s" "tracked X s" "gm_get (ms_cands s) path = Some d"
  shows "balanced n (activate_or_retry K d s)"
proof -
  have ent: "pd_path (dv s d) = path" using entryD(2)[OF trackedD(1)[OF assms(2)], of path d] assms(3) by simp
  obtain r s1 where a: "activate_device K d s = (r, s1)" by (cases "activate_device K d s")
  note b = balanced_activate[OF assms a]
  note t1 = tracked_activate[OF assms(2,3) a]
  have p1: "pd_path (dv s1 d) = path" using elsewhere_activate[OF ent a] ent by (simp add: elsewhere_same_def)
  have "balanced n (remove_candidate K d s1)" if "r = Inl e" for e
  proof (cases e)
    case (AcquireFailed x)
    then show ?thesis using b that balanced_remove_candidate[OF _ t1(1), of n path d K] by simp
  next
    case AnnounceCancelled
    then show ?thesis using b that balanced_remove_gone[OF _ t1(1), of n d K] p1 by simp
  qed
  then show ?thesis using b balanced_schedule by (simp add: activate_or_retry_def a Let_def split: sum.splits)
qed

lemma balanced_accept:
  assumes "balanced (Suc n) s" "tracked {fd_of s d} s" "d < ms_next s" "pd_path (dv s d) = path" "is_abs path"
    "gm_get (ms_bypath s) path = None" "gm_get (ms_cands s) path = None"
  shows "balanced n (accept_candidate K d s)"
proof -
  let ?s1 = "s\<lparr>ms_cands := gm_put path d (ms_cands s)\<rparr>"
  have b1: "balanced n ?s1" using assms(1) length_put[OF _ assms(7), of d] by (simp add: balanced_def tally_def)
  note t1 = tracked_new_candidate[OF assms(2-7)]
  obtain r s2 where k: "keys_fd K (pd_fd (dv ?s1 d)) ?s1 = (r, s2)" by (cases "keys_fd K (pd_fd (dv ?s1 d)) ?s1")
  have c: "plain ?s1 s2" using calls_fd(1)[OF allows_both(1) calls_refl, of ?s1 K "pd_fd (dv ?s1 d)"] k by simp
  have h: "harmless ?s1 s2" using harmless_calls(1)[OF harmless_refl, of ?s1 K "pd_fd (dv ?s1 d)"] k by simp
  note b2 = balanced_plain[OF b1 c] and t2 = tracked_harmless[OF t1 h]
  have own: "gm_get (ms_cands s2) path = Some d" using only_traceD[OF calls_trace[OF c]] by simp
  note def' = accept_candidate_def[of K d s, unfolded Let_def assms(4) k prod.case]
  show ?thesis
    using b2 balanced_schedule[OF balanced_remove_candidate[OF b2 t2 own]] balanced_activate_or_retry[OF b2 t2 own]
    by (simp add: def' split: sum.split)
qed

section \<open>Opening\<close>

lemma balanced_opened: "balanced n s \<Longrightarrow> balanced (Suc n) (note_call (COpened path f) s)"
  by (simp add: balanced_def tally_def losses_snoc named_step_def)

lemma balanced_closed: "balanced (Suc n) s \<Longrightarrow> balanced n (note_call (CClose f) s)"
  by (simp add: balanced_def tally_def losses_snoc named_step_def)

lemma balanced_new_device: "balanced n s \<Longrightarrow> balanced n (snd (new_device path g f leds s))"
  by (simp add: new_device_def balanced_def tally_def active_paths_def)

abbreviation kept_open :: "'e + did option \<Rightarrow> nat" where
  "kept_open r \<equiv> (case r of Inr (Some d) \<Rightarrow> 1 | _ \<Rightarrow> 0)"

lemma balanced_probe:
  assumes "balanced 1 s" "probe_candidate K P path g f s = (r, s')"
  shows "balanced (kept_open r) s'"
proof -
  obtain pr s1 where pr: "probe_fd K P f s = (pr, s1)" by (cases "probe_fd K P f s")
  have "plain s s1" using calls_probe[OF allows_both(1) calls_refl, of s K P f] pr by simp
  note b1 = balanced_plain[OF assms(1) this]
  show ?thesis
    using assms(2) b1 balanced_closed[of 0 s1] balanced_new_device[OF b1]
    by (auto simp: probe_candidate_def pr case_prod_unfold Let_def split: sum.splits option.splits)
qed

lemma balanced_open_candidate:
  assumes "balanced 0 s" "open_candidate K P path g s = (r, s')"
  shows "balanced (kept_open r) s'"
proof (cases "k_open K (ms_trace s) path")
  case (Inl e)
  then show ?thesis
    using assms(2) balanced_plain[OF assms(1) calls_notes(2)[OF allows_both(1) calls_refl]]
    by (auto simp: open_candidate_def open_node_def)
next
  case (Inr f)
  let ?s1 = "note_call (COpened path f) s"
  obtain vr s2 where v: "validate_opened K f path (gn_devpath g) ?s1 = (vr, s2)"
    by (cases "validate_opened K f path (gn_devpath g) ?s1")
  have "plain ?s1 s2" using calls_opening(1)[OF allows_both(1) calls_refl, of ?s1 K f path "gn_devpath g"] v by simp
  then have b2: "balanced 1 s2" using balanced_plain balanced_opened[OF assms(1), of path f] by simp
  show ?thesis
    using assms(2) Inr v balanced_closed[of 0 s2] b2 balanced_probe[OF b2]
    by (cases vr) (auto simp: open_candidate_def open_node_def)
qed

lemma balanced_open_enumerated:
  assumes "balanced 0 s" "open_enumerated K P path s = ((r, g), s')"
  shows "balanced (kept_open r) s'"
proof (cases "k_open K (ms_trace s) path")
  case (Inl e)
  have "plain s (snd (sampled_generation K path (note_call (CLook path) s)))"
    by (intro calls_opening(2) calls_notes(2) calls_refl allows_both)
  from balanced_plain[OF assms(1) this] show ?thesis
    using assms(2) Inl by (auto simp: open_enumerated_def open_node_def split: prod.splits sum.splits)
next
  case (Inr f)
  let ?s1 = "note_call (COpened path f) s"
  let ?sq = "note_call (CQuery f) ?s1"
  have b1: "balanced 1 ?s1" using balanced_opened[OF assms(1)] by simp
  have cq: "plain ?s1 ?sq" by (intro calls_notes(1) calls_refl allows_both)
  obtain gr s2 where gr: "sampled_generation K path ?sq = (gr, s2)" by (cases "sampled_generation K path ?sq")
  have c2: "plain ?s1 s2" using calls_opening(2)[OF allows_both(1) cq, of K path] gr by simp
  have closed: "balanced 0 (note_call (CClose f) t)" if "plain ?s1 t" for t
    using balanced_closed balanced_plain[OF b1 that] by simp
  note e = open_enumerated_def[of K P path s, unfolded open_node_def Inr sum.case prod.case]
  show ?thesis
  proof (cases "k_fstat K (ms_trace s @ [COpened path f]) f")
    case (Inl x)
    then show ?thesis using assms(2) closed[OF cq] by (auto simp: e)
  next
    case fst: (Inr st)
    show ?thesis
    proof (cases gr)
      case (Inl x)
      then show ?thesis using assms(2) closed[OF c2] by (auto simp: e fst gr)
    next
      case (Inr gen)
      obtain v s3 where v: "validate_identity K path st s2 = (v, s3)" by (cases "validate_identity K path st s2")
      have c3: "plain ?s1 s3" using calls_identity(1)[OF allows_both(1) c2, of K path st] v by simp
      show ?thesis
      proof (cases v)
        case (Inl x)
        then show ?thesis using assms(2) closed[OF c3] Inr by (auto simp: e fst gr v)
      next
        case ok: (Inr u)
        obtain pr s4 where pr: "probe_candidate K P path gen f s3 = (pr, s4)" by (cases "probe_candidate K P path gen f s3")
        have "balanced (kept_open pr) s4" using balanced_probe[OF balanced_plain[OF b1 c3] pr] .
        then show ?thesis using assms(2) Inr ok by (cases pr) (auto simp: e fst gr v pr)
      qed
    qed
  qed
qed

lemma balanced_consider:
  assumes "balanced 0 s" "tracked {} s" "is_abs path"
  shows "balanced 0 (consider_node K P path g s)"
proof (cases "gm_get (ms_bypath s) path \<noteq> None \<or> gm_get (ms_cands s) path \<noteq> None")
  case True
  then show ?thesis using assms(1) by (simp add: consider_node_def)
next
  case False
  obtain r s1 where r: "open_candidate K P path g s = (r, s1)" by (cases "open_candidate K P path g s")
  note b = balanced_open_candidate[OF assms(1) r] and opn = open_candidate_one[OF assms(2) r]
  note e = consider_node_def[of K P path g s, unfolded r prod.case]
  show ?thesis
  proof (cases "\<exists>d. r = Inr (Some d)")
    case True
    then obtain d where d: "r = Inr (Some d)" by blast
    then show ?thesis
      using b opn False balanced_accept[of 0 s1 d path K] assms(3) by (simp add: e opened_one_def)
  next
    case nodev: False
    then show ?thesis using b False balanced_schedule by (auto simp: e split: sum.splits option.splits)
  qed
qed

section \<open>Handlers\<close>

text \<open>The two invariants together.\<close>

definition counted :: "mstate \<Rightarrow> bool" where
  "counted s \<longleftrightarrow> balanced 0 s \<and> tracked {} s"

lemma countedD: "counted s \<Longrightarrow> balanced 0 s" "counted s \<Longrightarrow> tracked {} s"
  by (simp_all add: counted_def)

lemma counted_plain: "counted s \<Longrightarrow> plain s s' \<Longrightarrow> harmless s s' \<Longrightarrow> counted s'"
  using balanced_plain tracked_harmless unfolding counted_def by blast

lemma counted_time: "counted s \<Longrightarrow> counted (note_call CTime s)"
  by (rule counted_plain[of s]) (simp_all add: calls_note plain_call_def harmless_call_def)

lemma balanced_replace:
  assumes "balanced 0 s" "tracked {} s"
  shows "balanced 0 (snd (replace_active K path s))" "balanced 0 (replace_candidate K path s)"
  using assms balanced_removed[OF assms] balanced_remove_candidate[OF assms]
  by (simp_all add: replace_active_def replace_candidate_def split: option.split)

lemma balanced_adopt: "balanced 0 s \<Longrightarrow> balanced 0 (snd (adopt_retry_add ev g s))" "balanced 0 s \<Longrightarrow> balanced 0 (adopt_gen d g s)"
  by (simp_all add: adopt_retry_add_def adopt_gen_def Let_def split: option.split)

lemma counted_add:
  assumes "counted s" "is_abs (de_path ev)"
  shows "counted (snd (handle_add K P ev s))"
proof -
  obtain g s1 where a: "adopt_retry_add ev (generation_from_event ev) s = (g, s1)"
    by (cases "adopt_retry_add ev (generation_from_event ev) s")
  have b1: "balanced 0 s1" and t1: "tracked {} s1"
    using balanced_adopt(1)[OF countedD(1)[OF assms(1)], of ev "generation_from_event ev"]
      tracked_adopt_retry[OF countedD(2)[OF assms(1)], of ev "generation_from_event ev"] a by simp_all
  define path where "path = de_path ev"
  note e = handle_add_def[of K P ev s, unfolded Let_def a prod.case, folded path_def]
  let ?s2 = "snd (replace_active K path s1)"
  let ?s3 = "replace_candidate K path ?s2"
  note b2 = balanced_replace(1)[OF b1 t1, of K path] and t2 = tracked_replace(1)[OF t1, of K path]
  note b3 = balanced_replace(2)[OF b2 t2, of K path] and t3 = tracked_replace(2)[OF t2, of K path]
  note b4 = balanced_begin[OF b3, of path g] and t4 = tracked_begin[OF t3, of path g]
  have "balanced 0 (consider_node K P path g (snd (begin_retry path g ?s3)))"
    using balanced_consider[OF b4 t4] assms(2) by (simp add: path_def)
  then have "balanced 0 (snd (handle_add K P ev s))"
    using balanced_adopt(2)[OF b1] b2 b3 b4 by (simp add: e case_prod_unfold split: option.split sum.split bool.split)
  then show ?thesis using tracked_add[OF countedD(2)[OF assms(1)] assms(2)] by (simp add: counted_def)
qed

lemma counted_handle_remove:
  assumes "counted s"
  shows "counted (snd (handle_remove K ev s))"
proof -
  define path where "path = de_path ev"
  define s1 where "s1 = (case gm_get (ms_retries s) path of
      None \<Rightarrow> s
    | Some st \<Rightarrow> if matches_removal (rt_gen st) ev then s\<lparr>ms_retries := gm_del path (ms_retries s)\<rparr> else s)"
  define s2 where "s2 = (case gm_get (ms_cands s1) path of
      None \<Rightarrow> s1
    | Some d \<Rightarrow> if matches_removal (pd_gen (dv s1 d)) ev then remove_candidate K d s1 else s1)"
  note t = countedD(2)[OF assms]
  have b1: "balanced 0 s1" using countedD(1)[OF assms] by (simp add: s1_def split: option.split)
  have t1: "tracked {} s1"
    using t tracked_retries[OF t retries_ok_del[OF trackedD(4)[OF t]]] by (simp add: s1_def split: option.split)
  have b2: "balanced 0 s2" using b1 balanced_remove_candidate[OF b1 t1] by (simp add: s2_def split: option.split)
  have "tracked {} (remove_candidate K d s1)" if d: "gm_get (ms_cands s1) path = Some d" for d
    using entryD(2)[OF trackedD(1)[OF t1], of path d] d by (intro tracked_remove_candidate(1)[OF t1]) simp
  then have t2: "tracked {} s2" using t1 by (simp add: s2_def split: option.split)
  note e = handle_remove_def[of K ev s, unfolded Let_def, folded path_def, folded s1_def, folded s2_def]
  have "balanced 0 (snd (handle_remove K ev s))" using b2 balanced_removed[OF b2 t2] by (simp add: e split: option.split)
  then show ?thesis using tracked_handle_remove[OF t] by (simp add: counted_def)
qed

lemma counted_udev_event:
  assumes "counted s" "is_abs (de_path ev)"
  shows "counted (snd (handle_udev_event K P ev s))"
proof -
  have "counted (s\<lparr>ms_latest := snd (accept_sequence ev (ms_latest s))\<rparr>)"
    using assms(1) tracked_maps(1) by (simp add: counted_def)
  from this counted_handle_remove[OF this] counted_add[OF this assms(2)]
  show ?thesis by (simp add: handle_udev_event_def case_prod_unfold Let_def)
qed

lemma counted_udev_events:
  "counted s \<Longrightarrow> (\<And>ev. ev \<in> set evs \<Longrightarrow> is_abs (de_path ev)) \<Longrightarrow> counted (snd (handle_udev_events K P evs s))"
proof (induction evs arbitrary: s)
  case (Cons ev evs)
  have "counted (snd (handle_udev_event K P ev s))" using counted_udev_event[OF Cons.prems(1)] Cons.prems(2) by simp
  then show ?case using Cons by (simp add: case_prod_unfold split: sum.split)
qed simp

lemma counted_udev_ready: "counted s \<Longrightarrow> counted (snd (handle_udev_ready K P hangup s))"
  using counted_time[of s] counted_udev_events[OF counted_time read_events_paths]
  by (auto simp: handle_udev_ready_def split: option.splits)

lemma balanced_active_send:
  assumes "balanced n s" "path \<in> active_paths s"
    "msg_removed_device m = {}" "msg_resync_device m \<subseteq> {path}"
  shows "balanced n (snd (send_message K m s))"
  using assms by (auto simp: send_message_def balanced_def tally_def losses_snoc named_step_def)

lemma active_path: "tracked X s \<Longrightarrow> d \<in> actives s \<Longrightarrow> pd_path (dv s d) \<in> active_paths s"
  using member_path(1)[OF trackedD(1)] by (simp add: active_paths_def)

lemma counted_read_event:
  assumes "counted s" "d \<in> actives s"
  shows "counted (snd (read_event K d ev s))"
proof -
  note b = countedD(1)[OF assms(1)] and path = active_path[OF countedD(2)[OF assms(1)] assms(2)]
  let ?k = "snd (keys_fd K (pd_fd (dv s d)) s)"
  have c: "plain s ?k" by (intro calls_fd(1) calls_refl allows_both)
  have kp: "active_paths ?k = active_paths s" using only_trace_sets(3)[OF calls_trace[OF c]] .
  have r: "balanced 0 (snd (send_message K (resync_message (pd_path (dv s d)) pressed) ?k))" for pressed
    using balanced_active_send[OF balanced_plain[OF b c], of "pd_path (dv s d)"] path by (simp add: kp)
  have f: "balanced 0 (snd (send_message K (frame_message \<lparr>fr_device = pd_path (dv s d), fr_events = evs\<rparr>)
      (upd_dev d (\<lambda>p. p\<lparr>pd_frame := pd_frame p @ [ev]\<rparr>) s)))" for evs
    using b path by (intro balanced_active_send[of 0 _ "pd_path (dv s d)"]) simp_all
  have "balanced 0 (snd (read_event K d ev s))"
    using b r f balanced_plain[OF b c]
    by (simp add: read_event_def Let_def case_prod_unfold split: sum.split bool.split)
  then show ?thesis
    using reads_on_event[OF countedD(2)[OF assms(1)] assms(2)] by (simp add: counted_def reads_on_def)
qed

lemma counted_read_events: "counted s \<Longrightarrow> d \<in> actives s \<Longrightarrow> counted (snd (read_events K d evs s))"
proof (induction evs arbitrary: s)
  case (Cons ev evs)
  note c = counted_read_event[OF Cons.prems, of K ev]
  have "d \<in> actives (snd (read_event K d ev s))"
    using reads_on_active[OF reads_on_event[OF countedD(2)[OF Cons.prems(1)] Cons.prems(2)] Cons.prems(2)] .
  from Cons.IH[OF c this] c show ?case by (simp add: case_prod_unfold split: sum.split)
qed simp

lemma counted_read_chunks: "counted s \<Longrightarrow> d \<in> actives s \<Longrightarrow> counted (snd (read_chunks K d reads s))"
proof (induction reads arbitrary: s)
  case (Cons r reads)
  have c: "counted (snd (read_events K d evs s))" for evs using counted_read_events[OF Cons.prems] .
  have "d \<in> actives (snd (read_events K d evs s))" for evs
    using reads_on_active[OF reads_on_events[OF countedD(2)[OF Cons.prems(1)] Cons.prems(2)] Cons.prems(2)] .
  then show ?case
    using Cons c by (cases r) (auto simp: case_prod_unfold split: sum.split decode_error.split)
qed simp

lemma counted_read_ready:
  assumes "counted s" "d \<in> actives s"
  shows "counted (snd (read_ready K d s))"
proof -
  let ?s1 = "note_call (CRead (pd_fd (dv s d))) s"
  have "counted ?s1"
    by (rule counted_plain[OF assms(1)]) (simp_all add: calls_note plain_call_def harmless_call_def)
  from counted_read_chunks[OF this] assms(2) show ?thesis by (simp add: read_ready_def Let_def actives_def)
qed

lemma counted_device_ready:
  assumes "counted s"
  shows "counted (snd (handle_device_ready K f hangup s))"
proof (cases "gm_get (ms_byfd s) f")
  case None
  then show ?thesis using assms by (simp add: handle_device_ready_def)
next
  case (Some d)
  note t = countedD(2)[OF assms]
  have d: "d \<in> actives s" using trackedD(3)[OF t] Some by (simp add: byfd_sound_def)
  obtain r s1 where r: "read_ready K d s = (r, s1)" by (cases "read_ready K d s")
  have c1: "counted s1" using counted_read_ready[OF assms d, of K] r by simp
  have "d \<in> actives s1" using reads_on_active[OF reads_on_ready[OF t d, of K] d] r by simp
  then have own: "gm_get (ms_bypath s1) (pd_path (dv s1 d)) = Some d"
    using member_path(1)[OF trackedD(1)[OF countedD(2)[OF c1]]] by simp
  have b2: "balanced 0 (snd (send_or_stop K (removed_message (pd_path (dv s1 d))) (remove_active K d s1)))"
    using balanced_removed[OF countedD[OF c1] own] .
  have "balanced 0 (snd (handle_device_ready K f hangup s))"
    using countedD(1)[OF c1] b2 balanced_schedule[OF b2]
    by (simp add: handle_device_ready_def Some r case_prod_unfold Let_def split: sum.split read_error.split)
  then show ?thesis using tracked_device_ready[OF t] by (simp add: counted_def)
qed

lemma counted_feedback:
  assumes "counted s"
  shows "counted (snd (handle_feedback_ready K hangup s))"
proof -
  have l: "counted ((note_call CTime s)\<lparr>ms_locks := locks\<rparr>)" for locks
    using counted_time[OF assms] tracked_maps(3) by (simp add: counted_def)
  have "counted (sync_leds K ((note_call CTime s)\<lparr>ms_locks := locks\<rparr>))" for locks
    by (rule counted_plain[OF l[of locks]]) (intro calls_sync allows_both calls_refl)+
  then show ?thesis
    using assms l counted_time[OF assms]
    by (simp add: handle_feedback_ready_def Let_def case_prod_unfold split: sum.split)
qed

lemma counted_check:
  assumes "counted s"
  shows "counted (check_candidate K path s)"
proof (cases "gm_get (ms_cands s) path")
  case None
  then show ?thesis using assms by (simp add: check_candidate_def)
next
  case (Some d)
  obtain r s1 where k: "keys_fd K (pd_fd (dv s d)) s = (r, s1)" by (cases "keys_fd K (pd_fd (dv s d)) s")
  have c1: "counted s1"
    using calls_fd(1)[OF _ calls_refl, of _ s K "pd_fd (dv s d)"] k allows_both by (intro counted_plain[OF assms]) simp_all
  have "plain s s1" using calls_fd(1)[OF allows_both(1) calls_refl, of s K "pd_fd (dv s d)"] k by simp
  then have own: "gm_get (ms_cands s1) path = Some d" using Some only_traceD[OF calls_trace] by simp
  have b2: "balanced 0 (remove_candidate K d s1)" using balanced_remove_candidate[OF countedD[OF c1] own] .
  have "balanced 0 (check_candidate K path s)"
    using countedD(1)[OF c1] b2 balanced_schedule[OF b2] balanced_activate_or_retry[OF countedD[OF c1] own]
    by (simp add: check_candidate_def Some k Let_def split: sum.split)
  then show ?thesis using tracked_check[OF countedD(2)[OF assms]] by (simp add: counted_def)
qed

lemma counted_fold:
  assumes "\<And>x s. counted s \<Longrightarrow> counted (h x s)"
  shows "counted s \<Longrightarrow> counted (fold h xs s)"
  by (induction xs arbitrary: s) (auto intro: assms)

lemma counted_checks:
  assumes "counted s"
  shows "counted (check_candidates K now s)"
proof -
  have "counted (fold (check_candidate K) ps s)" for ps using counted_fold[OF counted_check assms] .
  then show ?thesis using assms tracked_maps(2) by (simp add: check_candidates_def counted_def)
qed

lemma counted_retry:
  assumes "counted s"
  shows "counted (process_retry K P now path s)"
proof (cases "gm_get (ms_retries s) path")
  case None
  then show ?thesis using assms by (simp add: process_retry_def)
next
  case (Some st)
  note t = countedD(2)[OF assms]
  have path: "is_abs path" using trackedD(4)[OF t] Some by (simp add: retries_ok_def)
  note b1 = balanced_begin[OF countedD(1)[OF assms], of path "rt_gen st"]
    and t1 = tracked_begin[OF t, of path "rt_gen st"]
  have "balanced 0 (process_retry K P now path s)"
    using countedD(1)[OF assms] b1 balanced_consider[OF b1 t1 path]
    by (simp add: process_retry_def Some case_prod_unfold split: bool.split)
  then show ?thesis using tracked_retry[OF t] by (simp add: counted_def)
qed

lemma counted_process: "counted s \<Longrightarrow> counted (process_retries K P now s)"
  unfolding process_retries_def by (rule counted_fold) (rule counted_retry)

lemma counted_ready: "counted s \<Longrightarrow> counted (snd (handle_ready K P F r s))"
  using counted_udev_ready counted_feedback counted_device_ready by (simp add: handle_ready_def handle_wake_ready_def)

lemma counted_all: "counted s \<Longrightarrow> counted (snd (handle_all K P F rs s))"
proof (induction rs arbitrary: s)
  case (Cons r rs)
  then show ?case using counted_ready[OF Cons.prems] by (simp add: case_prod_unfold split: sum.split)
qed simp

lemma counted_pass:
  assumes "counted s"
  shows "counted (snd (loop_pass K P F a s))"
proof -
  note c1 = counted_process[OF counted_checks[OF counted_time[OF assms]]]
  show ?thesis
    using assms c1 counted_all[OF c1] by (simp add: loop_pass_def Let_def case_prod_unfold split: epoll_answer.split sum.split)
qed

lemma counted_loop: "counted s \<Longrightarrow> counted (snd (run_loop K P F as s))"
proof (induction as arbitrary: s)
  case (Cons a as)
  then show ?case using counted_pass[OF Cons.prems] by (simp add: case_prod_unfold split: option.split)
qed simp

section \<open>A run\<close>

lemma balanced_enumerate:
  assumes "balanced 0 s" "tracked {} s" "is_abs path" "gm_get (ms_bypath s) path = None" "gm_get (ms_cands s) path = None"
  shows "balanced 0 (snd (enumerate_path K P path s))"
proof -
  obtain opn g s1 where o1: "open_enumerated K P path s = ((opn, g), s1)" by (metis prod.exhaust)
  note e = enumerate_path_def[of K P path s, unfolded o1 prod.case]
  note b = balanced_open_enumerated[OF assms(1) o1] and op = open_enumerated_one[OF assms(2) o1]
  show ?thesis
  proof (cases "\<exists>d. opn = Inr (Some d)")
    case True
    then obtain d where d: "opn = Inr (Some d)" by blast
    then show ?thesis using b op assms(3-5) balanced_accept[of 0 s1 d path K] by (simp add: e opened_one_def)
  next
    case False
    then show ?thesis using b balanced_schedule by (auto simp: e split: sum.splits option.splits)
  qed
qed

lemma counted_enumerates:
  "counted s \<Longrightarrow> distinct ps \<Longrightarrow> list_all is_abs ps \<Longrightarrow>
    (\<And>p. p \<in> set ps \<Longrightarrow> gm_get (ms_bypath s) p = None \<and> gm_get (ms_cands s) p = None) \<Longrightarrow>
    counted (snd (enumerate_paths K P ps s))"
proof (induction ps arbitrary: s)
  case Nil
  then show ?case using counted_time[OF Nil(1)] tracked_maps(2) by (simp add: counted_def)
next
  case (Cons p ps)
  obtain r s1 where r: "enumerate_path K P p s = (r, s1)" by (cases "enumerate_path K P p s")
  have free: "is_abs p" "gm_get (ms_bypath s) p = None" "gm_get (ms_cands s) p = None" using Cons.prems(3,4) by auto
  note t1 = tracked_enumerate[OF countedD(2)[OF Cons.prems(1)] free r]
  have c1: "counted s1" using balanced_enumerate[OF countedD[OF Cons.prems(1)] free, of K P] r t1(1) by (simp add: counted_def)
  have "counted (snd (enumerate_paths K P ps s1))"
  proof (rule Cons.IH[OF c1])
    fix q assume q: "q \<in> set ps"
    then have "q \<noteq> p" using Cons.prems(2) by auto
    then show "gm_get (ms_bypath s1) q = None \<and> gm_get (ms_cands s1) q = None" using t1(2)[of q] Cons.prems(4)[of q] q by simp
  qed (use Cons.prems in auto)
  then show ?case using c1 by (simp add: r split: sum.split)
qed

lemma tally_close_actives:
  fixes K :: kernel_answers
  defines "h \<equiv> \<lambda>p s. case gm_get (ms_bypath s) p of None \<Rightarrow> s | Some d \<Rightarrow> remove_active K d s"
  shows "tally n s \<Longrightarrow> tracked X s \<Longrightarrow> tally n (fold h ps s)"
proof (induction ps arbitrary: s)
  case (Cons q ps)
  have "tally n (h q s) \<and> tracked X (h q s)"
    using tally_remove_active(1)[OF Cons.prems] tracked_remove_active(1)[OF Cons.prems(2)] Cons.prems
    by (simp add: h_def split: option.split)
  then show ?case using Cons.IH by simp
qed simp

lemma tally_remove_candidate:
  assumes "tally n s" "tracked X s" "gm_get (ms_cands s) path = Some d"
  shows "tally n (remove_candidate K d s)"
proof -
  have path: "pd_path (dv s d) = path" using entryD(2)[OF trackedD(1)[OF assms(2)], of path d] assms(3) by simp
  note r = tracked_remove_candidate[OF assms(2), of d K, unfolded path, unfolded assms(3), simplified]
  show ?thesis
    using assms(1) length_del[OF _ assms(3)] by (simp add: tally_def r remove_candidate_trace closing_counts)
qed

lemma tally_close_candidates:
  fixes K :: kernel_answers
  defines "h \<equiv> \<lambda>p s. case gm_get (ms_cands s) p of None \<Rightarrow> s | Some d \<Rightarrow> remove_candidate K d s"
  shows "tally n s \<Longrightarrow> tracked X s \<Longrightarrow> tally n (fold h ps s)"
proof (induction ps arbitrary: s)
  case (Cons q ps)
  have "tracked X (remove_candidate K d s)" if d: "gm_get (ms_cands s) q = Some d" for d
    using entryD(2)[OF trackedD(1)[OF Cons.prems(2)], of q d] d by (intro tracked_remove_candidate(1)[OF Cons.prems(2)]) simp
  then have "tally n (h q s) \<and> tracked X (h q s)"
    using tally_remove_candidate[OF Cons.prems] Cons.prems by (simp add: h_def split: option.split)
  then show ?case using Cons.IH by simp
qed simp

lemma tally_close:
  assumes "tally n s" "tracked X s"
  shows "tally n (close_manager K s)"
proof -
  have "tally n (close_actives K s)" "tracked X (close_actives K s)"
    using tally_close_actives[OF assms] conjunct1[OF tracked_close_actives[OF assms(2)]] by (simp_all add: close_actives_def)
  then show ?thesis using tally_close_candidates by (simp add: close_manager_def close_candidates_def)
qed

lemma new_state_counted: "counted new_manager_state"
  using tracked_start
  by (simp add: counted_def balanced_def tally_def active_paths_def new_manager_state_def counts_start)

text \<open>When the run has returned, every opening was matched by one close, and every lost announcement cost one more.\<close>

lemma manager_run_closings:
  assumes "distinct paths" "list_all is_abs paths" "manager_run K P F paths answers = (Some r, s)"
  shows "closings (ms_trace s) = openings (ms_trace s) + losses (ms_trace s)"
proof -
  have free: "gm_get (ms_bypath new_manager_state) p = None \<and> gm_get (ms_cands new_manager_state) p = None" for p
    by (simp add: new_manager_state_def)
  note c1 = counted_enumerates[OF new_state_counted assms(1,2) free, of K P]
  note c2 = counted_loop[OF c1, of K P F answers]
  have "tally 0 (close_manager K t)" if "counted t" for t
    using that tally_close[of 0 t "{}" K] by (simp add: balanced_def counted_def)
  then have "tally 0 s"
    using assms(3) c1 c2 by (auto simp: manager_run_def case_prod_unfold split: sum.splits option.splits)
  moreover have "ms_bypath s = []" "ms_cands s = []"
    using manager_run_tracked(2)[OF assms] unfolding gm_empty_iff actives_def candidates_def by fastforce+
  ultimately show ?thesis by (simp add: tally_def)
qed

end
