(* ===== verification/Manager_Properties.thy ===== *)
theory Manager_Properties
  imports Manager_Steps Manager_Closings
begin

text \<open>
  The properties of the device manager: what a run keeps and what it releases, the handover of an idle
  keyboard, the reader against its specification, the timeout of the loop, and what a lost
  announcement does to the closes.
\<close>

section \<open>The reader\<close>

text \<open>
  The specification: the stream of a device is cut after each \<open>SYN_REPORT\<close>; a packet with a
  \<open>SYN_DROPPED\<close> in it is announced by a resync, every other packet is a frame.
\<close>

fun packets :: "event list \<Rightarrow> event list \<Rightarrow> event list list \<times> event list" where
  "packets p [] = ([], p)"
| "packets p (e # es) =
     (if is_report e then (case packets [] es of (ps, r) \<Rightarrow> ((p @ [e]) # ps, r)) else packets (p @ [e]) es)"

datatype delivery = DeliverFrame frame | DeliverResync device

definition packet_delivery :: "device \<Rightarrow> event list \<Rightarrow> delivery" where
  "packet_delivery path p =
     (if list_ex is_dropped p then DeliverResync path else DeliverFrame \<lparr>fr_device = path, fr_events = p\<rparr>)"

definition delivery_of :: "sys_call \<Rightarrow> delivery option" where
  "delivery_of c =
     (case c of
        CSent m \<Rightarrow>
          (case msg_frame m of
             Some fr \<Rightarrow> Some (DeliverFrame fr)
           | None \<Rightarrow> (case msg_resync m of Some r \<Rightarrow> Some (DeliverResync (rs_device r)) | None \<Rightarrow> None))
      | _ \<Rightarrow> None)"

abbreviation deliveries :: "sys_call list \<Rightarrow> delivery list" where
  "deliveries \<equiv> List.map_filter delivery_of"

text \<open>What the buffer of a device holds after the events \<open>p\<close> of a packet that is not finished.\<close>

definition buffers :: "event list \<Rightarrow> physical_device \<Rightarrow> bool" where
  "buffers p dev \<longleftrightarrow> pd_dropping dev = list_ex is_dropped p \<and>
     pd_frame dev = (if list_ex is_dropped p then [] else p)"

lemma deliveries_simps [simp]:
  "delivery_of (CKeys f) = None" "delivery_of (CRead f) = None"
  "delivery_of (CSent (resync_message path m)) = Some (DeliverResync path)"
  "delivery_of (CSent (frame_message fr)) = Some (DeliverFrame fr)"
  by (simp_all add: delivery_of_def resync_message_def frame_message_def)

lemma map_filter_append: "List.map_filter h (xs @ ys) = List.map_filter h xs @ List.map_filter h ys"
  by (simp add: List.map_filter_def)

lemma packets_append:
  "packets p (xs @ ys) = (case packets p xs of (ps, r) \<Rightarrow> (case packets r ys of (qs, r') \<Rightarrow> (ps @ qs, r')))"
  by (induction p xs rule: packets.induct) (simp_all split: prod.split)

lemma packets_facts:
  "packets p es = (ps, r) \<Longrightarrow> concat ps @ r = p @ es"
  by (induction p es arbitrary: ps r rule: packets.induct) (auto split: if_splits prod.splits)

lemma report_not_dropped: "is_report e \<Longrightarrow> \<not> is_dropped e"
  by (simp add: is_report_def is_dropped_def)

text \<open>One event: every call of the reader succeeds.\<close>

lemma read_event_packets:
  assumes "\<forall>tr m. k_send K tr m" "\<forall>tr f. \<exists>bits. k_keys K tr f = Inr bits" "buffers p (dv s d)"
    "packets p [e] = (ps, r)"
  shows "\<exists>s' tr. read_event K d e s = (Inr (), s') \<and> ms_trace s' = ms_trace s @ tr \<and>
    deliveries tr = map (packet_delivery (pd_path (dv s d))) ps \<and> buffers r (dv s' d) \<and>
    pd_path (dv s' d) = pd_path (dv s d) \<and> pd_fd (dv s' d) = pd_fd (dv s d)"
proof -
  obtain bits where bits: "k_keys K (ms_trace s) (pd_fd (dv s d)) = Inr bits" using assms(2) by blast
  show ?thesis
    using assms(1,3,4) bits report_not_dropped[of e]
    by (auto simp: read_event_def Let_def buffers_def keys_fd_def send_message_def upd_dev_def packet_delivery_def
        map_filter_simps split: if_splits)
qed

lemma read_events_packets:
  assumes "\<forall>tr m. k_send K tr m" "\<forall>tr f. \<exists>bits. k_keys K tr f = Inr bits"
  shows "buffers p (dv s d) \<Longrightarrow> packets p es = (ps, r) \<Longrightarrow>
    \<exists>s' tr. read_events K d es s = (Inr (), s') \<and> ms_trace s' = ms_trace s @ tr \<and>
    deliveries tr = map (packet_delivery (pd_path (dv s d))) ps \<and> buffers r (dv s' d) \<and>
    pd_path (dv s' d) = pd_path (dv s d) \<and> pd_fd (dv s' d) = pd_fd (dv s d)"
proof (induction es arbitrary: p s ps)
  case Nil
  then show ?case by (auto simp: map_filter_simps)
next
  case (Cons e es)
  obtain ps1 r1 where p1: "packets p [e] = (ps1, r1)" by (cases "packets p [e]")
  obtain ps2 where p2: "packets r1 es = (ps2, r)" and ps: "ps = ps1 @ ps2"
    using Cons.prems(2) packets_append[of p "[e]" es] p1 by (auto split: prod.splits)
  obtain s1 tr1 where 1: "read_event K d e s = (Inr (), s1)" "ms_trace s1 = ms_trace s @ tr1"
    "deliveries tr1 = map (packet_delivery (pd_path (dv s d))) ps1" "buffers r1 (dv s1 d)"
    "pd_path (dv s1 d) = pd_path (dv s d)" "pd_fd (dv s1 d) = pd_fd (dv s d)"
    using read_event_packets[OF assms Cons.prems(1) p1] by blast
  obtain s2 tr2 where 2: "read_events K d es s1 = (Inr (), s2)" "ms_trace s2 = ms_trace s1 @ tr2"
    "deliveries tr2 = map (packet_delivery (pd_path (dv s1 d))) ps2" "buffers r (dv s2 d)"
    "pd_path (dv s2 d) = pd_path (dv s1 d)" "pd_fd (dv s2 d) = pd_fd (dv s1 d)"
    using Cons.IH[OF 1(4) p2] by blast
  show ?case
    using 1 2 by (intro exI[of _ s2] exI[of _ "tr1 @ tr2"]) (simp add: ps map_filter_append)
qed

lemma read_chunks_packets:
  assumes "\<forall>tr m. k_send K tr m" "\<forall>tr f. \<exists>bits. k_keys K tr f = Inr bits"
  shows "buffers p (dv s d) \<Longrightarrow> [] \<notin> set chunks \<Longrightarrow> packets p (concat chunks) = (ps, r) \<Longrightarrow>
    \<exists>s' tr. read_chunks K d (map (\<lambda>c. DevData (concat (map encode_event c))) chunks @ [DevErrno EAGAIN]) s = (Inr False, s') \<and>
    ms_trace s' = ms_trace s @ tr \<and> deliveries tr = map (packet_delivery (pd_path (dv s d))) ps \<and> buffers r (dv s' d)"
proof (induction chunks arbitrary: p s ps)
  case Nil
  then show ?case by (auto simp: map_filter_simps)
next
  case (Cons c chunks)
  obtain ps1 r1 where p1: "packets p c = (ps1, r1)" by (cases "packets p c")
  obtain ps2 where p2: "packets r1 (concat chunks) = (ps2, r)" and ps: "ps = ps1 @ ps2"
    using Cons.prems(3) packets_append[of p c "concat chunks"] p1 by (auto split: prod.splits)
  obtain s1 tr1 where 1: "read_events K d c s = (Inr (), s1)" "ms_trace s1 = ms_trace s @ tr1"
    "deliveries tr1 = map (packet_delivery (pd_path (dv s d))) ps1" "buffers r1 (dv s1 d)"
    "pd_path (dv s1 d) = pd_path (dv s d)"
    using read_events_packets[OF assms Cons.prems(1) p1] by blast
  have none: "[] \<notin> set chunks" "c \<noteq> []" using Cons.prems(2) by auto
  obtain s2 tr2 where 2: "read_chunks K d (map (\<lambda>c. DevData (concat (map encode_event c))) chunks @ [DevErrno EAGAIN]) s1 = (Inr False, s2)"
    "ms_trace s2 = ms_trace s1 @ tr2" "deliveries tr2 = map (packet_delivery (pd_path (dv s1 d))) ps2" "buffers r (dv s2 d)"
    using Cons.IH[OF 1(4) none(1) p2] by blast
  have "concat (map encode_event c) \<noteq> []" using none(2) by (cases c) (auto simp: encode_event_def)
  then show ?case
    using 1 2 by (intro exI[of _ s2] exI[of _ "tr1 @ tr2"]) (simp add: ps decode_encoded map_filter_append)
qed

text \<open>
  C15. \<open>readReady\<close> delivers the packets of the device's event stream, in order and complete, however the
  kernel cuts the stream into reads: a packet the kernel dropped events from is announced by a
  resync, every other packet is delivered as one frame, and the unfinished packet stays buffered.
\<close>

theorem read_ready_packets:
  assumes "\<forall>tr m. k_send K tr m" "\<forall>tr f. \<exists>bits. k_keys K tr f = Inr bits"
    "k_reads K (ms_trace s) (fd_of s d) = map (\<lambda>c. DevData (concat (map encode_event c))) chunks @ [DevErrno EAGAIN]"
    "[] \<notin> set chunks" "buffers p (dv s d)" "packets p (concat chunks) = (ps, r)"
  shows "\<exists>s' tr. read_ready K d s = (Inr False, s') \<and> ms_trace s' = ms_trace s @ CRead (fd_of s d) # tr \<and>
    deliveries tr = map (packet_delivery (pd_path (dv s d))) ps \<and> buffers r (dv s' d) \<and> concat ps @ r = p @ concat chunks"
proof -
  let ?s1 = "note_call (CRead (fd_of s d)) s"
  have b: "buffers p (dv ?s1 d)" using assms(5) by simp
  show ?thesis
    using read_chunks_packets[OF assms(1,2) b assms(4,6)] assms(3) packets_facts[OF assms(6)]
    by (auto simp: read_ready_def fd_of_def Let_def)
qed

text \<open>A concrete device whose stream is cut in the middle of a packet, with a dropped packet after it.\<close>

definition reader_state :: mstate where
  "reader_state = new_manager_state\<lparr>ms_devs := (\<lambda>_. \<lparr>pd_path = ''k'', pd_gen = zero_generation, pd_fd = 9,
     pd_frame = [], pd_dropping = False, pd_leds = []\<rparr>)\<rparr>"

definition press_a :: event where "press_a = \<lparr>ev_type = EVKey, ev_code = KeyA, ev_value = 1\<rparr>"
definition syn_drop :: event where "syn_drop = \<lparr>ev_type = EVSyn, ev_code = SynDropped, ev_value = 0\<rparr>"

definition reader_chunks :: "event list list" where
  "reader_chunks = [[press_a], [syn_event, press_a], [syn_drop, press_a, syn_event, press_a]]"

section \<open>Taking over an idle keyboard\<close>

text \<open>The keys a device reports down.\<close>

definition keys_down :: "kernel_answers \<Rightarrow> sys_call list \<Rightarrow> fd \<Rightarrow> (u16, bool) gomap option" where
  "keys_down K tr f = (case k_keys K tr f of Inl e \<Rightarrow> None | Inr bits \<Rightarrow> Some (current_keys bits))"

text \<open>
  A keyboard is taken over exactly by this sequence: no key is down, its queue is drained, still no
  key is down, it is grabbed, still no key is down, it is watched.
\<close>

theorem acquire_takes_idle:
  "(\<exists>pressed. fst (acquire_idle K d s) = Inr (Some pressed)) \<longleftrightarrow>
    (let f = fd_of s d; t0 = ms_trace s; t2 = t0 @ [CKeys f, CDrain f]; t3 = t2 @ [CKeys f];
         t4 = t3 @ [CGrab f True True]; t5 = t4 @ [CKeys f]
     in keys_down K t0 f = Some [] \<and> fst (drain_fd K f (note_call (CKeys f) s)) = Inr () \<and> keys_down K t2 f = Some [] \<and>
        k_grab K t3 f True = None \<and> keys_down K t4 f = Some [] \<and> k_epoll_add K t5 f = None \<and>
        ms_trace (snd (acquire_idle K d s)) = t5 @ [CEpollAdd f True])"
  by (auto simp: acquire_idle_def acquire_grabbed_def keys_fd_def drain_fd_def grab_fd_def epoll_add_fd_def fd_of_def
      keys_down_def Let_def split: sum.splits option.splits if_splits)

section \<open>The timeout of the loop\<close>

definition deadlines :: "mstate \<Rightarrow> int set" where
  "deadlines s = (if ms_cands s \<noteq> [] then {ms_check s} else {}) \<union>
     {rt_deadline r | p r. (p, r) \<in> set (ms_retries s) \<and> rt_scheduled r}"

definition least_of :: "int option \<Rightarrow> int set \<Rightarrow> bool" where
  "least_of best D \<longleftrightarrow> (case best of None \<Rightarrow> D = {} | Some t \<Rightarrow> t \<in> D \<and> (\<forall>u\<in>D. t \<le> u))"

lemma earlier_deadline_least:
  assumes "least_of best D"
  shows "least_of (earlier_deadline st best) (D \<union> (if rt_scheduled st then {rt_deadline st} else {}))"
  using assms by (auto simp: least_of_def earlier_deadline_def split: option.splits)

lemma next_deadline_least: "least_of (next_deadline s) (deadlines s)"
proof -
  have "least_of (fold (\<lambda>(_, st). earlier_deadline st) rs best)
      (D \<union> {rt_deadline r | p r. (p, r) \<in> set rs \<and> rt_scheduled r})" if "least_of best D"
    for rs :: "(device \<times> retry) list" and best D
    using that
  proof (induction rs arbitrary: best D)
    case (Cons r rs)
    obtain p st where r: "r = (p, st)" by (cases r)
    have "D \<union> {rt_deadline q | p q. (p, q) \<in> set (r # rs) \<and> rt_scheduled q} =
        (D \<union> (if rt_scheduled st then {rt_deadline st} else {})) \<union> {rt_deadline q | p q. (p, q) \<in> set rs \<and> rt_scheduled q}"
      by (auto simp: r)
    then show ?case using Cons.IH[OF earlier_deadline_least[OF Cons.prems, of st]] by (simp add: r)
  qed simp
  moreover have "least_of (if ms_cands s \<noteq> [] then Some (ms_check s) else None) (if ms_cands s \<noteq> [] then {ms_check s} else {})"
    by (simp add: least_of_def)
  ultimately show ?thesis unfolding next_deadline_def deadlines_def by blast
qed

text \<open>
  C39. The loop waits for ever exactly when nothing is pending, and otherwise at least until the earliest
  deadline and less than a millisecond longer; a deadline that has passed is not waited for.
\<close>

theorem epoll_timeout_exact:
  "(epoll_timeout now s = -1 \<longleftrightarrow> deadlines s = {}) \<and>
   (deadlines s \<noteq> {} \<longrightarrow>
     (\<exists>t\<in>deadlines s. (\<forall>u\<in>deadlines s. t \<le> u) \<and>
        (if t \<le> now then epoll_timeout now s = 0
         else t \<le> now + epoll_timeout now s * 1000000 \<and> now + epoll_timeout now s * 1000000 < t + 1000000)))"
proof (cases "next_deadline s")
  case None
  then show ?thesis using next_deadline_least[of s] by (simp add: least_of_def epoll_timeout_def)
next
  case (Some t)
  then have t: "t \<in> deadlines s" "\<forall>u\<in>deadlines s. t \<le> u" using next_deadline_least[of s] by (simp_all add: least_of_def)
  define e where "e = (t - now + 1000000 - 1) div 1000000"
  have e: "t - now \<le> e * 1000000" "e * 1000000 < t - now + 1000000" unfolding e_def by linarith+
  have "epoll_timeout now s = (if t \<le> now then 0 else e)" by (simp add: epoll_timeout_def Some Let_def e_def)
  moreover have "t > now \<Longrightarrow> e \<ge> 0" using e(1) by linarith
  ultimately show ?thesis using t e by (auto intro!: bexI[of _ t])
qed

theorem epoll_timeout_exact_witness:
  "deadlines (new_manager_state\<lparr>ms_retries := [(''k'', \<lparr>rt_gen = zero_generation, rt_attempts = 1, rt_deadline = 2500000,
      rt_scheduled = True\<rparr>)]\<rparr>) = {2500000} \<and>
   epoll_timeout 0 (new_manager_state\<lparr>ms_retries := [(''k'', \<lparr>rt_gen = zero_generation, rt_attempts = 1, rt_deadline = 2500000,
      rt_scheduled = True\<rparr>)]\<rparr>) = 3"
proof -
  let ?s = "new_manager_state\<lparr>ms_retries := [(''k'', \<lparr>rt_gen = zero_generation, rt_attempts = 1, rt_deadline = 2500000,
      rt_scheduled = True\<rparr>)]\<rparr>"
  have d: "deadlines ?s = {2500000}" by (auto simp: deadlines_def new_manager_state_def)
  have "2500000 \<le> epoll_timeout 0 ?s * 1000000 \<and> epoll_timeout 0 ?s * 1000000 < (3500000::int)"
    using epoll_timeout_exact[of 0 ?s] unfolding d by simp
  then have "2 < epoll_timeout 0 ?s \<and> epoll_timeout 0 ?s < 4" by linarith
  then have "epoll_timeout 0 ?s = 3" by linarith
  with d show ?thesis by (intro conjI)
qed

section \<open>A run\<close>

text \<open>
  C6. While a run goes on, every open descriptor is that of an active device or of a candidate, and no
  retry counter exceeds its limit, five reacquisitions after the original try.  As long as no
  first announcement of a device was lost to a cancellation, it is exact: every call used an open
  descriptor and no frame or removal of a device was sent that the daemon did not know, the devices
  announced to the daemon are exactly the active ones, the grabbed descriptors and the watched ones are
  exactly those of the active devices, and the open ones those of the active devices and the candidates.
\<close>

theorem manager_run_invariant:
  assumes "fresh_fds K" "distinct paths" "list_all is_abs paths" "manager_run K P F paths answers = (None, s)"
  shows "gh_open (gst s) \<subseteq> fd_of s ` (actives s \<union> candidates s) \<and>
    (\<forall>p r. gm_get (ms_retries s) p = Some r \<longrightarrow> rt_attempts r \<le> max_reacquisition_tries) \<and>
    (losses (ms_trace s) = 0 \<longrightarrow>
      gh_legal (gst s) \<and> gh_announced (gst s) = active_paths s \<and>
      gh_grabbed (gst s) = fd_of s ` actives s \<and> gh_watched (gst s) = fd_of s ` actives s \<and>
      gh_open (gst s) = fd_of s ` (actives s \<union> candidates s))"
proof -
  note t = trackedD[OF manager_run_tracked(1)[OF assms(2-4)]]
  have "minv {} {} {} s" if "losses (ms_trace s) = 0" using manager_run_result[OF assms] that by simp
  note p = minv_parts[OF this]
  show ?thesis using t(4,6) p(1,2) by (auto simp: fdinv_def annok_def retries_ok_def)
qed

text \<open>
  C7. When a run returns, for whatever reason, nothing is left open, grabbed or watched; and when no
  first announcement of a device was lost to a cancellation, it closed each descriptor it opened once and
  made no call on a descriptor that was not open.
\<close>

theorem manager_run_releases:
  assumes "fresh_fds K" "distinct paths" "list_all is_abs paths" "manager_run K P F paths answers = (Some r, s)"
  shows "gh_open (gst s) = {} \<and> gh_grabbed (gst s) = {} \<and> gh_watched (gst s) = {} \<and>
    (losses (ms_trace s) = 0 \<longrightarrow> gh_legal (gst s) \<and> closings (ms_trace s) = openings (ms_trace s))"
  using manager_run_closed[OF assms(2-4)] manager_run_result[OF assms] manager_run_closings[OF assms(2-4)]
  by (simp add: fdinv_def)

text \<open>A kernel with one idle keyboard; \<open>delivered\<close>: whether messages are taken, \<open>stop\<close>: whether the context is cancelled.\<close>

definition example_stat :: stat_info where
  "example_stat = \<lparr>st_dev = 5, st_ino = 300, st_rdev = 3392\<rparr>"

definition example_kernel :: "bool \<Rightarrow> bool \<Rightarrow> kernel_answers" where
  "example_kernel delivered stop =
     \<lparr>k_open = (\<lambda>tr p. if 7 \<in> gh_open (ghost_of tr) then Inl 24 else Inr 7),
      k_fstat = (\<lambda>tr f. Inr example_stat), k_stat = (\<lambda>tr p. Inr example_stat),
      k_resolve = (\<lambda>tr p. Some ''/sys/devices/e0/event0''), k_seqnum = (\<lambda>tr. Some ''12''),
      k_ioctl = (\<lambda>tr f request. if request = eviocgname 256 then Inr []
        else if request = eviocgbit 1 96 then Inr [0, 0, 0, 0x40, 0, 0x10, 0, 2] else Inl 22), k_keys = (\<lambda>tr f. Inr []),
      k_drain = (\<lambda>tr f. []), k_grab = (\<lambda>tr f b. None), k_epoll_add = (\<lambda>tr f. None),
      k_write = (\<lambda>tr f. []), k_reads = (\<lambda>tr f. []), k_feedback = (\<lambda>tr. []), k_recv = (\<lambda>tr. []),
      k_send = (\<lambda>tr m. delivered), k_cancelled = (\<lambda>tr. stop), k_now = (\<lambda>tr. 0), k_order = (\<lambda>tr ks. ks)\<rparr>"

definition example_params :: manager_params where
  "example_params = \<lparr>mp_virtual_fd = 3, mp_virtual_name = ''eak'', mp_allowed = []\<rparr>"

definition example_fds :: loop_fds where
  "example_fds = \<lparr>lf_monitor = 4, lf_wake = 5\<rparr>"

definition example_path :: device where
  "example_path = ''/dev/input/event0''"

definition example_manager :: "bool \<Rightarrow> bool \<Rightarrow> epoll_answer list \<Rightarrow> (manager_error + unit) option \<times> mstate" where
  "example_manager delivered stop = manager_run (example_kernel delivered stop) example_params example_fds [example_path]"

lemma example_fresh: "fresh_fds (example_kernel delivered stop)"
  by (simp add: fresh_fds_def example_kernel_def)

lemma example_distinct: "distinct [example_path]" "list_all is_abs [example_path]"
  by (simp_all add: example_path_def is_abs_def has_prefix_def)

lemma example_kernel_answers [simp]:
  "k_open (example_kernel delivered stop) tr p = (if 7 \<in> gh_open (ghost_of tr) then Inl 24 else Inr 7)"
  "k_fstat (example_kernel delivered stop) tr f = Inr example_stat"
  "k_stat (example_kernel delivered stop) tr p = Inr example_stat"
  "k_resolve (example_kernel delivered stop) tr = (\<lambda>p. Some ''/sys/devices/e0/event0'')"
  "k_seqnum (example_kernel delivered stop) tr = Some ''12''"
  "k_keys (example_kernel delivered stop) tr f = Inr []"
  "k_drain (example_kernel delivered stop) tr f = []"
  "k_grab (example_kernel delivered stop) tr f b = None"
  "k_epoll_add (example_kernel delivered stop) tr f = None"
  "k_send (example_kernel delivered stop) tr m = delivered"
  "k_cancelled (example_kernel delivered stop) tr = stop"
  "k_now (example_kernel delivered stop) tr = 0"
  "k_order (example_kernel delivered stop) tr ks = ks"
  by (simp_all add: example_kernel_def)

lemma example_queries [simp]:
  "device_name (example_kernel delivered stop) tr f = Inr []"
  "key_capabilities (example_kernel delivered stop) tr f = Inr [0, 0, 0, 0x40, 0, 0x10, 0, 2]"
  "led_capabilities (example_kernel delivered stop) tr f = Inl 22"
proof -
  have requests: "eviocgbit 1 96 \<noteq> eviocgname 256" "eviocgbit 0x11 1 \<noteq> eviocgname 256" "eviocgbit 0x11 1 \<noteq> eviocgbit 1 96"
    by code_simp+
  show "device_name (example_kernel delivered stop) tr f = Inr []"
    by (simp add: device_name_def example_kernel_def device_name_of_def str_of_bytes_def)
  show "key_capabilities (example_kernel delivered stop) tr f = Inr [0, 0, 0, 0x40, 0, 0x10, 0, 2]"
    using requests by (simp add: key_capabilities_def example_kernel_def key_bitmap_bytes_def)
  show "led_capabilities (example_kernel delivered stop) tr f = Inl 22"
    using requests by (simp add: led_capabilities_def example_kernel_def)
qed

lemma example_sysfs:
  "sysfs_generation (\<lambda>x. Some ''/sys/devices/e0/event0'') example_path =
     Inr \<lparr>gn_devpath = ''/devices/e0/event0'', gn_floor = 0, gn_observed = False\<rparr>"
  by code_simp

lemma example_sequence: "kernel_uevent_sequence (Some ''12'') = Inr 12"
proof -
  have "trim_space ''12'' = ''12''" by code_simp
  then show ?thesis by (simp add: kernel_uevent_sequence_def parse_uint_def digits_val_def is_digit_def digit_val_def)
qed

lemma example_keyboard: "looks_like_keyboard [0, 0, 0, 0x40, 0, 0x10, 0, 2]"
  by code_simp

lemma current_keys_empty: "current_keys [] = []"
proof -
  have "fold (\<lambda>c m. if bit_is_set [] c then gm_put c True m else m) cs [] = []" for cs
    by (induction cs) (simp_all add: bit_is_set_def)
  then show ?thesis by (simp add: current_keys_def)
qed

lemmas example_open_defs = enumerate_path_def open_enumerated_def open_node_def sampled_generation_def
  sysfs_gen_def validate_identity_def same_node_def example_stat_def probe_candidate_def probe_fd_def classify_capabilities_def new_device_def
  new_manager_state_def led_flags_def ghost_of_def ghost_start_def

lemmas example_accept_defs = accept_candidate_def keys_fd_def activate_or_retry_def activate_device_def
  acquire_idle_def drain_fd_def grab_fd_def acquire_grabbed_def epoll_add_fd_def sync_device_leds_def send_message_def
  remove_candidate_def close_candidate_fd_def schedule_retry_def new_retry_def max_reacquisition_tries_def

lemmas example_answers = example_sysfs example_sequence example_keyboard current_keys_empty

text \<open>The run enumerates the keyboard, activates it, and goes on or stops.\<close>

lemma example_running:
  "fst (example_manager True False []) = None"
  "gh_announced (gst (snd (example_manager True False []))) = {example_path}"
  by (simp_all add: example_manager_def manager_run_def example_params_def Let_def example_answers example_open_defs)
    (simp_all add: Let_def example_answers example_accept_defs ghost_step_def use_fd_def)

lemma example_stopped:
  "fst (example_manager delivered True [EpInterrupted]) = Some (Inr ())"
  by (simp add: example_manager_def manager_run_def example_params_def Let_def example_answers example_open_defs loop_pass_def)

lemma sent_no_losses: "(\<And>m. CDropped m \<notin> set tr) \<Longrightarrow> losses tr = 0"
proof (induction tr rule: rev_induct)
  case (snoc c tr)
  then show ?case by (cases c) (auto simp: losses_snoc)
qed (simp add: counts_start)

lemma example_running_losses: "losses (ms_trace (snd (example_manager True False []))) = 0"
  by (rule sent_no_losses, simp add: example_manager_def manager_run_def example_params_def Let_def example_answers example_open_defs)
    (simp add: Let_def example_answers example_accept_defs)

theorem manager_run_invariant_witness:
  "active_paths (snd (example_manager True False [])) = {example_path}"
proof -
  have "example_manager True False [] = (None, snd (example_manager True False []))"
    using example_running(1) by (metis prod.collapse)
  from manager_run_invariant[OF example_fresh example_distinct this[unfolded example_manager_def]]
  show ?thesis using example_running(2) example_running_losses by (simp add: example_manager_def)
qed

theorem manager_run_releases_witness:
  "gh_open (gst (snd (example_manager True True [EpInterrupted]))) = {}"
proof -
  have "example_manager True True [EpInterrupted] = (Some (Inr ()), snd (example_manager True True [EpInterrupted]))"
    using example_stopped by (metis prod.collapse)
  from manager_run_releases[OF example_fresh example_distinct this[unfolded example_manager_def]]
  show ?thesis by (simp add: example_manager_def)
qed

theorem read_ready_packets_witness:
  "\<exists>s' tr. read_ready ((example_kernel True False)\<lparr>k_reads := (\<lambda>tr f. map (\<lambda>c. DevData (concat (map encode_event c))) reader_chunks @ [DevErrno EAGAIN])\<rparr>)
      0 reader_state = (Inr False, s') \<and> ms_trace s' = CRead 9 # tr \<and>
    deliveries tr = [DeliverFrame \<lparr>fr_device = ''k'', fr_events = [press_a, syn_event]\<rparr>, DeliverResync ''k''] \<and>
    buffers [press_a] (dv s' 0)"
proof -
  let ?K = "(example_kernel True False)\<lparr>k_reads := (\<lambda>tr f. map (\<lambda>c. DevData (concat (map encode_event c))) reader_chunks @ [DevErrno EAGAIN])\<rparr>"
  have p: "packets [] (concat reader_chunks) = ([[press_a, syn_event], [press_a, syn_drop, press_a, syn_event]], [press_a])"
    by code_simp
  have send: "\<forall>tr m. k_send ?K tr m" and keys: "\<forall>tr f. \<exists>bits. k_keys ?K tr f = Inr bits" by simp_all
  have reads: "k_reads ?K (ms_trace reader_state) (fd_of reader_state 0) =
      map (\<lambda>c. DevData (concat (map encode_event c))) reader_chunks @ [DevErrno EAGAIN]" by simp
  have chunks: "[] \<notin> set reader_chunks" by (simp add: reader_chunks_def)
  have buf: "buffers [] (dv reader_state 0)" by (simp add: buffers_def reader_state_def)
  have del: "map (packet_delivery ''k'') [[press_a, syn_event], [press_a, syn_drop, press_a, syn_event]] =
      [DeliverFrame \<lparr>fr_device = ''k'', fr_events = [press_a, syn_event]\<rparr>, DeliverResync ''k'']" by code_simp
  have st: "pd_path (dv reader_state 0) = ''k''" "fd_of reader_state 0 = 9" "ms_trace reader_state = []"
    by (simp_all add: reader_state_def fd_of_def new_manager_state_def)
  show ?thesis
    using read_ready_packets[OF send keys reads chunks buf p, unfolded st del append_Nil] by blast
qed

text \<open>
  C40. Every lost announcement costs one close too many.  When the context is cancelled while \<open>activate\<close>
  announces a device it has just made active, the caller closes the device as a candidate and leaves it
  among the active ones, to be closed again.  So whatever the kernel answers, a run that has returned made
  as many closes as it opened descriptors and lost announcements, and after a loss one of its calls was
  on a descriptor that was not open.
\<close>

theorem lost_announcements_close_twice:
  assumes "distinct paths" "list_all is_abs paths" "manager_run K P F paths answers = (Some r, s)"
  shows "closings (ms_trace s) = openings (ms_trace s) + losses (ms_trace s) \<and>
    (losses (ms_trace s) \<noteq> 0 \<longrightarrow> \<not> gh_legal (gst s))"
  using manager_run_closings[OF assms] legal_closings[of "ms_trace s"] by auto

lemma example_lost:
  "count_list (ms_trace (snd (example_manager False True [EpInterrupted]))) (COpened example_path 7) = 1"
  "count_list (ms_trace (snd (example_manager False True [EpInterrupted]))) (CClose 7) = 2"
  "losses (ms_trace (snd (example_manager False True [EpInterrupted]))) = 1"
  by (simp_all add: example_manager_def manager_run_def example_params_def Let_def example_answers example_open_defs)
    (simp_all add: Let_def example_answers example_accept_defs zero_generation_def ghost_step_def use_fd_def
      losses_def named_step_def
      loop_pass_def close_manager_def close_actives_def close_candidates_def range_order_def gm_put_def gm_del_def
      gm_keys_def gm_get_def remove_active_def close_device_fd_def)

theorem lost_announcements_close_twice_witness:
  "count_list (ms_trace (snd (example_manager False True [EpInterrupted]))) (COpened example_path 7) = 1 \<and>
   count_list (ms_trace (snd (example_manager False True [EpInterrupted]))) (CClose 7) = 2 \<and>
   \<not> gh_legal (gst (snd (example_manager False True [EpInterrupted])))"
proof -
  have "example_manager False True [EpInterrupted] = (Some (Inr ()), snd (example_manager False True [EpInterrupted]))"
    using example_stopped by (metis prod.collapse)
  from lost_announcements_close_twice[OF example_distinct this[unfolded example_manager_def]]
  show ?thesis using example_lost by (simp add: example_manager_def)
qed

end
