(* ===== verification/Manager_Lifecycle.thy ===== *)
theory Manager_Lifecycle
  imports Manager_Properties
begin

text \<open>
  The frame of \<open>Manager.Run\<close>: the udev socket, the epoll instance and the wake pipe it makes
  (\<open>newManagerState\<close>, \<open>initWake\<close>, \<open>openUdevMonitor\<close>, \<open>addEpollFD\<close>), and the deferred \<open>close\<close> and
  \<open>close(output)\<close>.  The answers of the kernel are a record; the functions return the calls they make.
  The calls on devices are those of \<open>manager_run\<close>: an entry \<open>Devices tr\<close> says that by then they are \<open>tr\<close>.
\<close>

section \<open>Set-up\<close>

datatype setup_error =
    NoVirtualKeyboard
  | EpollCreateFailed nat
  | MonitorSocketFailed nat
  | MonitorCredentialsFailed nat
  | MonitorBindFailed nat
  | WatchMonitorFailed nat
  | WakePipeFailed nat
  | WatchWakeFailed nat
  | WatchVirtualFailed nat

datatype run_call =
    Opened fd
  | Configured fd
  | Watched fd fd            \<comment> \<open>added to the epoll instance, or tried\<close>
  | Closed fd
  | Devices "sys_call list"
  | ReadyClosed
  | ErrorSent                \<comment> \<open>or given up because the context was cancelled\<close>
  | WakeStopped              \<comment> \<open>\<open>stopWake\<close>, and the wait for the goroutine when it had started\<close>
  | OutputClosed

record setup_answers =
  su_epoll :: "nat + fd"
  su_socket :: "nat + fd"
  su_passcred :: "nat option"
  su_bind :: "nat option"
  su_watch_monitor :: "nat option"
  su_pipe :: "nat + (fd \<times> fd)"
  su_watch_wake :: "nat option"
  su_watch_virtual :: "nat option"

definition open_udev_monitor :: "setup_answers \<Rightarrow> (setup_error + fd) \<times> run_call list" where
  "open_udev_monitor A =
     (case su_socket A of
        Inl e \<Rightarrow> (Inl (MonitorSocketFailed e), [])
      | Inr f \<Rightarrow>
          (case su_passcred A of
             Some e \<Rightarrow> (Inl (MonitorCredentialsFailed e), [Opened f, Configured f, Closed f])
           | None \<Rightarrow>
               (case su_bind A of
                  Some e \<Rightarrow> (Inl (MonitorBindFailed e), [Opened f, Configured f, Configured f, Closed f])
                | None \<Rightarrow> (Inr f, [Opened f, Configured f, Configured f]))))"

definition add_epoll_fd :: "fd \<Rightarrow> fd \<Rightarrow> nat option \<Rightarrow> nat option \<times> run_call list" where
  "add_epoll_fd ep f answer = (answer, [Watched ep f])"

text \<open>The descriptors of a run; those of the pipe are \<open>-1\<close> while there is none.\<close>

record run_fds =
  rf_epoll :: fd
  rf_monitor :: fd
  rf_wake_read :: fd
  rf_wake_write :: fd
  rf_armed :: bool           \<comment> \<open>\<open>stopWake\<close> is not nil\<close>

definition init_wake :: "setup_answers \<Rightarrow> run_fds \<Rightarrow> (setup_error + unit) \<times> run_fds \<times> run_call list" where
  "init_wake A F =
     (case su_pipe A of
        Inl e \<Rightarrow> (Inl (WakePipeFailed e), F, [])
      | Inr (r, w) \<Rightarrow>
          (case add_epoll_fd (rf_epoll F) r (su_watch_wake A) of
             (Some e, calls) \<Rightarrow> (Inl (WatchWakeFailed e), F, [Opened r, Opened w] @ calls @ [Closed w, Closed r])
           | (None, calls) \<Rightarrow>
               (Inr (), F\<lparr>rf_wake_read := r, rf_wake_write := w, rf_armed := True\<rparr>, [Opened r, Opened w] @ calls)))"

text \<open>The goroutine \<open>context.AfterFunc\<close> starts on cancellation: one byte, again while the call is
  interrupted; the number of calls, unless the answers end first.\<close>

fun wake_writes :: "bool list \<Rightarrow> nat \<Rightarrow> nat option" where
  "wake_writes [] n = None"
| "wake_writes (interrupted # answers) n = (if interrupted then wake_writes answers (Suc n) else Some (Suc n))"

definition close_if_open :: "fd \<Rightarrow> run_call list" where
  "close_if_open f = (if f \<ge> 0 then [Closed f] else [])"

text \<open>\<open>managerState.close\<close>; \<open>tr\<close> is the trace of the devices when the keyboards have been closed.\<close>

definition close_run :: "run_fds \<Rightarrow> sys_call list \<Rightarrow> run_call list" where
  "close_run F tr =
     (if rf_armed F then [WakeStopped] else []) @ [Devices tr] @
     close_if_open (rf_wake_write F) @ close_if_open (rf_wake_read F) @
     close_if_open (rf_monitor F) @ close_if_open (rf_epoll F)"

definition new_run :: "manager_params \<Rightarrow> setup_answers \<Rightarrow> (setup_error + run_fds) \<times> run_call list" where
  "new_run P A =
     (if mp_virtual_fd P < 0 then (Inl NoVirtualKeyboard, [])
      else case su_epoll A of
        Inl e \<Rightarrow> (Inl (EpollCreateFailed e), [])
      | Inr ep \<Rightarrow>
          (case open_udev_monitor A of
             (Inl e, calls) \<Rightarrow> (Inl e, Opened ep # calls @ [Closed ep])
           | (Inr m, calls) \<Rightarrow>
               (case add_epoll_fd ep m (su_watch_monitor A) of
                  (Some e, watch) \<Rightarrow> (Inl (WatchMonitorFailed e), Opened ep # calls @ watch @ [Closed m, Closed ep])
                | (None, watch) \<Rightarrow>
                    let F = \<lparr>rf_epoll = ep, rf_monitor = m, rf_wake_read = -1, rf_wake_write = -1, rf_armed = False\<rparr>;
                        made = Opened ep # calls @ watch
                    in (case init_wake A F of
                          (Inl e, F1, wake) \<Rightarrow> (Inl e, made @ wake @ close_run F1 [])
                        | (Inr _, F1, wake) \<Rightarrow>
                            (case add_epoll_fd ep (mp_virtual_fd P) (su_watch_virtual A) of
                               (Some e, watch_virtual) \<Rightarrow>
                                 (Inl (WatchVirtualFailed e), made @ wake @ watch_virtual @ close_run F1 [])
                             | (None, watch_virtual) \<Rightarrow> (Inr F1, made @ wake @ watch_virtual))))))"

section \<open>Run\<close>

text \<open>An error of a cancelled context is not reported.\<close>

definition report_error :: "manager_error \<Rightarrow> run_call list" where
  "report_error e = (if e = Cancelled then [] else [ErrorSent])"

text \<open>The result tells whether \<open>Run\<close> has returned after the answers of \<open>epoll_wait\<close> given.\<close>

definition run_manager :: "kernel_answers \<Rightarrow> manager_params \<Rightarrow> setup_answers \<Rightarrow> device list \<Rightarrow> epoll_answer list \<Rightarrow>
    bool \<times> run_call list" where
  "run_manager K P A paths answers =
     (case new_run P A of
        (Inl e, calls) \<Rightarrow> (True, calls @ [ErrorSent, OutputClosed])
      | (Inr F, calls) \<Rightarrow>
          (case enumerate_paths K P paths new_manager_state of
             (Inl e, s) \<Rightarrow>
               (True, calls @ [Devices (ms_trace s)] @ report_error e @ close_run F (ms_trace (close_manager K s)) @ [OutputClosed])
           | (Inr _, s) \<Rightarrow>
               let ready = calls @ [Devices (ms_trace s), ReadyClosed]
               in (case run_loop K P \<lparr>lf_monitor = rf_monitor F, lf_wake = rf_wake_read F\<rparr> answers s of
                     (None, s1) \<Rightarrow> (False, ready @ [Devices (ms_trace s1)])
                   | (Some r, s1) \<Rightarrow>
                       (True, ready @ [Devices (ms_trace s1)] @ (case r of Inl e \<Rightarrow> report_error e | Inr _ \<Rightarrow> []) @
                          close_run F (ms_trace (close_manager K s1)) @ [OutputClosed]))))"

section \<open>The descriptors of a run\<close>

text \<open>The descriptors open after the calls; \<open>None\<close> when a call opens one that is open already or uses one
  that is not.  \<open>ext\<close> are descriptors the caller owns.\<close>

fun descriptors :: "fd set \<Rightarrow> run_call list \<Rightarrow> fd set \<Rightarrow> fd set option" where
  "descriptors ext [] fs = Some fs"
| "descriptors ext (c # cs) fs =
     (case c of
        Opened f \<Rightarrow> if f \<in> fs then None else descriptors ext cs (insert f fs)
      | Configured f \<Rightarrow> if f \<in> fs then descriptors ext cs fs else None
      | Watched ep f \<Rightarrow> if ep \<in> fs \<and> f \<in> fs \<union> ext then descriptors ext cs fs else None
      | Closed f \<Rightarrow> if f \<in> fs then descriptors ext cs (fs - {f}) else None
      | _ \<Rightarrow> descriptors ext cs fs)"

lemma descriptors_append:
  "descriptors ext (cs @ ds) fs = do { fs1 \<leftarrow> descriptors ext cs fs; descriptors ext ds fs1 }"
  by (induction cs arbitrary: fs) (auto split: run_call.split)

text \<open>The kernel gives out descriptors that are not in use.\<close>

definition given_fds :: "setup_answers \<Rightarrow> fd list" where
  "given_fds A =
     (case su_epoll A of Inl _ \<Rightarrow> [] | Inr f \<Rightarrow> [f]) @ (case su_socket A of Inl _ \<Rightarrow> [] | Inr f \<Rightarrow> [f]) @
     (case su_pipe A of Inl _ \<Rightarrow> [] | Inr (r, w) \<Rightarrow> [r, w])"

definition fresh_answers :: "setup_answers \<Rightarrow> bool" where
  "fresh_answers A \<longleftrightarrow> distinct (given_fds A) \<and> list_all (\<lambda>f. f \<ge> 0) (given_fds A)"

lemmas setup_defs = new_run_def open_udev_monitor_def add_epoll_fd_def init_wake_def close_run_def close_if_open_def Let_def

definition run_fds_ok :: "run_fds \<Rightarrow> bool" where
  "run_fds_ok F \<longleftrightarrow> rf_armed F \<and> distinct [rf_epoll F, rf_monitor F, rf_wake_read F, rf_wake_write F] \<and>
     list_all (\<lambda>f. f \<ge> 0) [rf_epoll F, rf_monitor F, rf_wake_read F, rf_wake_write F]"

text \<open>A set-up that fails closes what it opened; one that succeeds leaves the four descriptors open.\<close>

lemma new_run_failed:
  assumes "fresh_answers A" "new_run P A = (Inl e, calls)"
  shows "descriptors {mp_virtual_fd P} calls {} = Some {} \<and> OutputClosed \<notin> set calls \<and> ReadyClosed \<notin> set calls"
  using assms
  by (auto simp: setup_defs fresh_answers_def given_fds_def insert_Diff_if
      split: if_splits sum.splits option.splits prod.splits)

lemma new_run_ready:
  assumes "fresh_answers A" "new_run P A = (Inr F, calls)"
  shows "descriptors {mp_virtual_fd P} calls {} = Some {rf_epoll F, rf_monitor F, rf_wake_read F, rf_wake_write F} \<and>
    run_fds_ok F \<and> (\<forall>c\<in>set calls. (\<forall>f. c \<noteq> Closed f) \<and> c \<noteq> OutputClosed \<and> c \<noteq> ReadyClosed) \<and>
    Watched (rf_epoll F) (rf_monitor F) \<in> set calls"
  using assms
  by (auto simp: setup_defs fresh_answers_def given_fds_def run_fds_ok_def
      split: if_splits sum.splits option.splits prod.splits)

lemma close_run_descriptors:
  "run_fds_ok F \<Longrightarrow>
   descriptors ext (close_run F tr @ [OutputClosed]) {rf_epoll F, rf_monitor F, rf_wake_read F, rf_wake_write F} = Some {}"
  by (auto simp: run_fds_ok_def close_run_def close_if_open_def insert_Diff_if)

text \<open>A run that returns is the set-up, the calls on devices, and the deferred functions.\<close>

definition middle :: "run_call list \<Rightarrow> bool" where
  "middle calls \<longleftrightarrow> list_all (\<lambda>c. case c of Devices _ \<Rightarrow> True | ReadyClosed \<Rightarrow> True | ErrorSent \<Rightarrow> True | _ \<Rightarrow> False) calls \<and>
     count_list calls ReadyClosed \<le> 1"

lemma middle_descriptors: "middle calls \<Longrightarrow> descriptors ext calls fs = Some fs"
proof -
  have "list_all (\<lambda>c. case c of Devices _ \<Rightarrow> True | ReadyClosed \<Rightarrow> True | ErrorSent \<Rightarrow> True | _ \<Rightarrow> False) calls \<Longrightarrow>
      descriptors ext calls fs = Some fs"
    by (induction calls) (auto split: run_call.splits)
  then show "middle calls \<Longrightarrow> ?thesis" by (simp add: middle_def)
qed

lemma run_manager_returned:
  assumes "new_run P A = (Inr F, made)" "run_manager K P A paths answers = (True, calls)"
  obtains mid r s where
    "manager_run K P \<lparr>lf_monitor = rf_monitor F, lf_wake = rf_wake_read F\<rparr> paths answers = (Some r, s)"
    "calls = made @ mid @ close_run F (ms_trace s) @ [OutputClosed]" "middle mid"
proof -
  have report: "middle (Devices tr # report_error e)" "middle (Devices tr # ReadyClosed # Devices tr' # report_error e)"
    "middle [Devices tr, ReadyClosed, Devices tr']" for tr tr' e
    by (simp_all add: middle_def report_error_def)
  let ?F = "\<lparr>lf_monitor = rf_monitor F, lf_wake = rf_wake_read F\<rparr>"
  obtain x s0 where enum: "enumerate_paths K P paths new_manager_state = (x, s0)" by fastforce
  show ?thesis
  proof (cases x)
    case (Inl e)
    show ?thesis
      by (rule that[of "Inl e" "close_manager K s0" "Devices (ms_trace s0) # report_error e"])
        (use assms enum Inl report in \<open>simp_all add: run_manager_def manager_run_def\<close>)
  next
    case (Inr u)
    obtain y s1 where loop: "run_loop K P ?F answers s0 = (y, s1)" by fastforce
    show ?thesis
    proof (cases y)
      case None
      then show ?thesis using assms enum Inr loop by (simp add: run_manager_def Let_def)
    next
      case (Some r)
      show ?thesis
        by (rule that[of r "close_manager K s1"
              "[Devices (ms_trace s0), ReadyClosed, Devices (ms_trace s1)] @ (case r of Inl e \<Rightarrow> report_error e | Inr _ \<Rightarrow> [])"])
          (use assms enum Inr loop Some report in \<open>auto simp: run_manager_def manager_run_def Let_def split: sum.splits\<close>)
    qed
  qed
qed

text \<open>The calls on devices by the end.\<close>

definition last_devices :: "run_call list \<Rightarrow> sys_call list" where
  "last_devices calls = fold (\<lambda>c tr. case c of Devices tr' \<Rightarrow> tr' | _ \<Rightarrow> tr) calls []"

lemma last_devices_snoc: "last_devices (calls @ Devices tr # others) = tr" if "\<forall>tr'. Devices tr' \<notin> set others"
proof -
  have "fold (\<lambda>c t. case c of Devices tr' \<Rightarrow> tr' | _ \<Rightarrow> t) others tr = tr"
    using that by (induction others) (auto split: run_call.split)
  then show ?thesis by (simp add: last_devices_def)
qed

lemma last_devices_failed:
  assumes "new_run P A = (Inl e, calls)"
  shows "last_devices (calls @ [ErrorSent, OutputClosed]) = []"
  using assms
  by (auto simp: setup_defs last_devices_def split: if_splits sum.splits option.splits prod.splits)

lemma run_devices_clean:
  assumes "fresh_fds K" "distinct paths" "list_all is_abs paths" "run_manager K P A paths answers = (True, calls)"
  shows "gh_open (ghost_of (last_devices calls)) = {} \<and> gh_grabbed (ghost_of (last_devices calls)) = {} \<and>
    (losses (last_devices calls) = 0 \<longrightarrow> gh_legal (ghost_of (last_devices calls)))"
proof (cases "new_run P A")
  case (Pair x made)
  show ?thesis
  proof (cases x)
    case (Inl e)
    then have "calls = made @ [ErrorSent, OutputClosed]" using assms(4) Pair by (simp add: run_manager_def)
    then have "last_devices calls = []" using last_devices_failed Pair Inl by blast
    then show ?thesis by (simp add: ghost_of_def ghost_start_def)
  next
    case (Inr F)
    obtain mid r s where run: "manager_run K P \<lparr>lf_monitor = rf_monitor F, lf_wake = rf_wake_read F\<rparr> paths answers = (Some r, s)"
      and calls: "calls = made @ mid @ close_run F (ms_trace s) @ [OutputClosed]"
      using run_manager_returned[OF Pair[unfolded Inr] assms(4)] by blast
    have "last_devices calls = ms_trace s"
      using last_devices_snoc[of "close_if_open (rf_wake_write F) @ close_if_open (rf_wake_read F) @
          close_if_open (rf_monitor F) @ close_if_open (rf_epoll F) @ [OutputClosed]"
          "made @ mid @ (if rf_armed F then [WakeStopped] else [])" "ms_trace s"]
      by (simp add: calls close_run_def close_if_open_def split: if_splits)
    then show ?thesis
      using manager_run_closed[OF assms(2,3) run] manager_run_result[OF assms(1-3) run] by (simp add: fdinv_def)
  qed
qed

text \<open>
  C10. A run of the manager leaves nothing behind.  Whatever fails, every descriptor it made itself is
  closed once, after the last use of it, and the message channel is closed once, last.  When the
  set-up succeeds the keyboards are released and closed before any of these descriptors is, and \<open>Ready\<close> is
  reported at most once, with the monitor watched.  The calls on the keyboards were legal when no
  first announcement was lost to a cancellation.
\<close>

theorem run_leaves_nothing:
  assumes "fresh_fds K" "distinct paths" "list_all is_abs paths" "fresh_answers A"
    "run_manager K P A paths answers = (True, calls)"
  shows "descriptors {mp_virtual_fd P} calls {} = Some {} \<and> count_list calls OutputClosed = 1 \<and> last calls = OutputClosed \<and>
    count_list calls ReadyClosed \<le> 1 \<and>
    (case new_run P A of
       (Inl e, _) \<Rightarrow> ReadyClosed \<notin> set calls
     | (Inr F, _) \<Rightarrow> Watched (rf_epoll F) (rf_monitor F) \<in> set calls \<and>
         (\<exists>before tr after. calls = before @ Devices tr # after \<and> (\<forall>f. Closed f \<notin> set before) \<and>
            (\<forall>tr'. Devices tr' \<notin> set after) \<and>
            gh_open (ghost_of tr) = {} \<and> gh_grabbed (ghost_of tr) = {} \<and> (losses tr = 0 \<longrightarrow> gh_legal (ghost_of tr))))"
proof (cases "new_run P A")
  case (Pair x made)
  show ?thesis
  proof (cases x)
    case (Inl e)
    then have calls: "calls = made @ [ErrorSent, OutputClosed]"
      using assms(5) Pair by (simp add: run_manager_def)
    show ?thesis
      using new_run_failed[OF assms(4) Pair[unfolded Inl]] Pair Inl
      by (simp add: calls descriptors_append)
  next
    case (Inr F)
    obtain mid r s where run: "manager_run K P \<lparr>lf_monitor = rf_monitor F, lf_wake = rf_wake_read F\<rparr> paths answers = (Some r, s)"
      and calls: "calls = made @ mid @ close_run F (ms_trace s) @ [OutputClosed]" and mid: "middle mid"
      using run_manager_returned[OF Pair[unfolded Inr] assms(5)] by blast
    note ready = new_run_ready[OF assms(4) Pair[unfolded Inr]]
    have gst: "gh_open (gst s) = {}" "gh_grabbed (gst s) = {}" "losses (ms_trace s) = 0 \<longrightarrow> gh_legal (gst s)"
      using manager_run_closed[OF assms(2,3) run] manager_run_result[OF assms(1-3) run] by (simp_all add: fdinv_def)
    have closing: "close_run F (ms_trace s) @ [OutputClosed] =
        WakeStopped # Devices (ms_trace s) # map Closed [rf_wake_write F, rf_wake_read F, rf_monitor F, rf_epoll F] @ [OutputClosed]"
      using ready by (simp add: run_fds_ok_def close_run_def close_if_open_def)
    have desc: "descriptors {mp_virtual_fd P} calls {} = Some {}"
      using ready close_run_descriptors[of F] middle_descriptors[OF mid]
      by (simp add: calls descriptors_append)
    let ?after = "map Closed [rf_wake_write F, rf_wake_read F, rf_monitor F, rf_epoll F] @ [OutputClosed]"
    have split: "calls = (made @ mid @ [WakeStopped]) @ Devices (ms_trace s) # ?after" by (simp add: calls closing)
    have quiet: "c \<noteq> OutputClosed \<and> (\<forall>f. c \<noteq> Closed f)" if "c \<in> set mid" for c
      using mid that by (auto simp: middle_def list_all_iff)
    have counts: "count_list made OutputClosed = 0" "count_list made ReadyClosed = 0" "count_list mid OutputClosed = 0"
      using ready quiet by (auto simp: count_list_0_iff)
    have "\<exists>before tr after. calls = before @ Devices tr # after \<and> (\<forall>f. Closed f \<notin> set before) \<and>
        (\<forall>tr'. Devices tr' \<notin> set after) \<and> gh_open (ghost_of tr) = {} \<and> gh_grabbed (ghost_of tr) = {} \<and>
        (losses tr = 0 \<longrightarrow> gh_legal (ghost_of tr))"
      by (rule exI[of _ "made @ mid @ [WakeStopped]"], rule exI[of _ "ms_trace s"], rule exI[of _ ?after])
        (use split ready quiet gst in auto)
    then show ?thesis using desc counts mid ready Pair Inr by (simp add: split middle_def)
  qed
qed

lemma run_manager_returns:
  assumes "new_run P A = (Inr F, made)"
  shows "fst (run_manager K P A paths answers) \<longleftrightarrow>
    fst (manager_run K P \<lparr>lf_monitor = rf_monitor F, lf_wake = rf_wake_read F\<rparr> paths answers) \<noteq> None"
  using assms by (simp add: run_manager_def manager_run_def Let_def split: sum.split option.split prod.split)

definition example_setup :: setup_answers where
  "example_setup = \<lparr>su_epoll = Inr 8, su_socket = Inr 4, su_passcred = None, su_bind = None, su_watch_monitor = None,
     su_pipe = Inr (5, 6), su_watch_wake = None, su_watch_virtual = None\<rparr>"

theorem run_leaves_nothing_witness:
  "\<exists>calls. run_manager (example_kernel True True) example_params example_setup [example_path] [EpInterrupted] = (True, calls) \<and>
     descriptors {3} calls {} = Some {} \<and> last calls = OutputClosed"
proof -
  obtain F made where F: "new_run example_params example_setup = (Inr F, made)" "rf_monitor F = 4" "rf_wake_read F = 5"
    by (simp add: setup_defs example_setup_def example_params_def)
  have "fst (manager_run (example_kernel True True) example_params example_fds [example_path] [EpInterrupted]) \<noteq> None"
    using example_stopped[of True] by (simp add: example_manager_def)
  then have "fst (run_manager (example_kernel True True) example_params example_setup [example_path] [EpInterrupted])"
    by (simp add: run_manager_returns[OF F(1)] F(2,3) example_fds_def)
  then obtain calls where run: "run_manager (example_kernel True True) example_params example_setup [example_path] [EpInterrupted] = (True, calls)"
    by (metis prod.collapse)
  have "fresh_answers example_setup" by code_simp
  from run_leaves_nothing[OF example_fresh example_distinct this run] run show ?thesis
    by (intro exI[of _ calls]) (simp add: example_params_def)
qed

end
