(* ===== verification/Action_Protocol.thy ===== *)
theory Action_Protocol
  imports Eak_Prelude
begin

text \<open>
  \<open>internal/action/protocol.go\<close>: the daemon and the client share the rules for action identifiers
  and the one message of the protocol, which carries an identifier and nothing else.
\<close>

definition MaxActionIDBytes :: nat where
  "MaxActionIDBytes = 1024"

datatype id_error = EmptyID | BlankID | LongID nat

definition validate_id :: "string \<Rightarrow> id_error + unit" where
  "validate_id i =
     (if i = [] then Inl EmptyID
      else if trim_space i = [] then Inl BlankID
      else if length i > MaxActionIDBytes then Inl (LongID (length i))
      else Inr ())"

record notification =
  nt_action :: string

text \<open>A valid identifier is not a sequence of white space only and has at most 1024 bytes.\<close>

definition valid_action_id :: "string \<Rightarrow> bool" where
  "valid_action_id i \<longleftrightarrow> \<not> (\<exists>ws. set ws \<subseteq> set white_spaces \<and> i = concat ws) \<and> length i \<le> 1024"

lemma valid_action_id_code [code]: "valid_action_id i \<longleftrightarrow> trim_space i \<noteq> [] \<and> length i \<le> 1024"
  by (simp add: valid_action_id_def trim_space_nil)

lemma valid_id_nonempty: "valid_action_id i \<Longrightarrow> i \<noteq> []"
  unfolding valid_action_id_def by (metis concat.simps(1) empty_subsetI list.set(1))

lemma validate_id_ok: "validate_id i = Inr () \<longleftrightarrow> valid_action_id i"
proof -
  have "trim_space [] = []" using trim_space_nil[of "[]"] by (metis concat.simps(1) empty_subsetI list.set(1))
  then show ?thesis by (auto simp: validate_id_def valid_action_id_code MaxActionIDBytes_def)
qed

end
