(* ===== verification/Daemon_Config.thy ===== *)
theory Daemon_Config
  imports Keycodes Action_Protocol
begin

text \<open>
  Package \<open>internal/config\<close>: the daemon's configuration.  \<open>compile_config\<close> turns the decoded JSON
  document into the table of source chords the engine works with, or returns the first error.
  JSON decoding and opening the file are package \<open>configfile\<close>; \<open>time.ParseDuration\<close> is the
  argument \<open>pd\<close> (durations are nanoseconds), about which nothing is assumed.

  \<open>config_ok\<close> says what the rest of the daemon may rely on; every document \<open>compile_config\<close>
  accepts satisfies it.
\<close>

section \<open>The document and the compiled table\<close>

record raw_binding =
  fb_keys :: "string list"
  fb_action :: string

record raw_prefix =
  fp_keys :: "string list"
  fp_bindings :: "raw_binding list"

record raw_remap =
  frm_keys :: "string list"
  frm_tap :: string
  frm_hold :: string

record config_file =
  cf_candidate_timeout :: string
  cf_sequence_timeout :: string
  cf_socket_path :: string
  cf_allowed_uids :: "u32 list"
  cf_allowed_devices :: "string list"
  cf_prefixes :: "raw_prefix list"
  cf_remaps :: "raw_remap list"
  cf_reserved_modifiers :: "string list"

datatype output_mode = Action | Tap | Hold

record binding =
  b_keys :: "logical list"
  b_action :: string

text \<open>A source chord: an action prefix with its bindings, or a remap with its target.\<close>

record source =
  src_keys :: "logical list"
  src_bindings :: "binding list"
  src_mode :: output_mode
  src_target :: u16

record config =
  cfg_candidate_timeout :: int
  cfg_sequence_timeout :: int
  cfg_socket_path :: string
  cfg_allowed_uids :: "u32 list"
  cfg_allowed_devices :: "string list"
  cfg_prefixes :: "source list"
  cfg_reserved_modifiers :: "logical list"

datatype config_error =
    CandidateTimeout string | SequenceTimeout string | TimeoutNotPositive
  | NoAllowedUIDs
  | DeviceShape nat | DeviceHex nat
  | SocketNotAbsolute | NoSources
  | PrefixKeys nat config_error | PrefixWithoutModifier nat | DuplicatePrefix nat
  | BindingKeys nat nat config_error | BindingAction nat nat id_error
  | DuplicateBinding nat | PrefixWithoutBindings nat
  | RemapKeys nat config_error | RemapChordShape nat | RemapTapXorHold nat
  | RemapTargetKey nat key_error | RemapTarget nat | DuplicateRemap nat
  | AmbiguousSubsets nat nat
  | ReservedKey key_error | ReservedNotDistinctModifier string | ReservedUnused string
  | EmptyChord | ChordKey key_error | DuplicateKey string

section \<open>Chords\<close>

fun parse_chord_from :: "logical list \<Rightarrow> string list \<Rightarrow> config_error + logical list" where
  "parse_chord_from keys [] = Inr keys"
| "parse_chord_from keys (name # names) =
     and_then (map_err ChordKey (parse_key name)) (\<lambda>key.
       if key \<in> set keys then Inl (DuplicateKey name)
       else parse_chord_from (keys @ [key]) names)"

definition parse_chord :: "string list \<Rightarrow> config_error + logical list" where
  "parse_chord names = (if names = [] then Inl EmptyChord else parse_chord_from [] names)"

definition chord_signature :: "logical list \<Rightarrow> string" where
  "chord_signature keys = concat (map (\<lambda>key. dec_string (unat key) @ '','') (sort keys))"

definition chord_subset :: "logical list \<Rightarrow> logical list \<Rightarrow> bool" where
  "chord_subset a b = (if length a \<ge> length b then False else list_all (\<lambda>key. key \<in> set b) a)"

section \<open>Compilation\<close>

definition parse_duration :: "(string \<Rightarrow> string + int) \<Rightarrow> string \<Rightarrow> int \<Rightarrow> string + int" where
  "parse_duration pd value fallback = (if value = [] then Inr fallback else pd value)"

definition is_hex :: "char \<Rightarrow> bool" where
  "is_hex c \<longleftrightarrow> is_digit c \<or>
     (65 \<le> (of_char c :: nat) \<and> (of_char c :: nat) \<le> 70) \<or>
     (97 \<le> (of_char c :: nat) \<and> (of_char c :: nat) \<le> 102)"

fun compile_devices :: "nat \<Rightarrow> string list \<Rightarrow> config_error + string list" where
  "compile_devices i [] = Inr []"
| "compile_devices i (d # ds) =
     (if length d \<noteq> 9 \<or> d ! 4 \<noteq> CHR '':'' then Inl (DeviceShape i)
      else if \<not> list_all is_hex (take 4 d @ drop 5 d) then Inl (DeviceHex i)
      else and_then (compile_devices (Suc i) ds) (\<lambda>rest. Inr (to_lower d # rest)))"

fun compile_bindings ::
    "nat \<Rightarrow> nat \<Rightarrow> string list \<Rightarrow> raw_binding list \<Rightarrow> config_error + binding list" where
  "compile_bindings pi bi seen [] = Inr []"
| "compile_bindings pi bi seen (raw # raws) =
     and_then (map_err (BindingKeys pi bi) (parse_chord (fb_keys raw))) (\<lambda>keys.
     and_then (map_err (BindingAction pi bi) (validate_id (fb_action raw))) (\<lambda>_.
       if chord_signature keys \<in> set seen then Inl (DuplicateBinding pi)
       else and_then (compile_bindings pi (Suc bi) (chord_signature keys # seen) raws) (\<lambda>rest.
         Inr (\<lparr>b_keys = keys, b_action = fb_action raw\<rparr> # rest))))"

text \<open>The prefix loop; it also returns \<open>prefixSeen\<close>, which the remap loop goes on with.\<close>

fun compile_prefixes ::
    "nat \<Rightarrow> string list \<Rightarrow> raw_prefix list \<Rightarrow> config_error + (source list \<times> string list)" where
  "compile_prefixes pi seen [] = Inr ([], seen)"
| "compile_prefixes pi seen (raw # raws) =
     and_then (map_err (PrefixKeys pi) (parse_chord (fp_keys raw))) (\<lambda>keys.
       if \<not> list_ex is_logical_modifier keys then Inl (PrefixWithoutModifier pi)
       else if chord_signature keys \<in> set seen then Inl (DuplicatePrefix pi)
       else and_then (compile_bindings pi 0 [] (fp_bindings raw)) (\<lambda>bindings.
         if bindings = [] then Inl (PrefixWithoutBindings pi)
         else and_then (compile_prefixes (Suc pi) (chord_signature keys # seen) raws) (\<lambda>(rest, seen').
           Inr (\<lparr>src_keys = keys, src_bindings = bindings, src_mode = Action, src_target = 0\<rparr>
                # rest, seen'))))"

fun compile_remaps ::
    "nat \<Rightarrow> string list \<Rightarrow> raw_remap list \<Rightarrow> config_error + source list" where
  "compile_remaps ri seen [] = Inr []"
| "compile_remaps ri seen (raw # raws) =
     and_then (map_err (RemapKeys ri) (parse_chord (frm_keys raw))) (\<lambda>keys.
       let modifiers = length (filter is_logical_modifier keys) in
       if modifiers = 0 \<or> modifiers = length keys then Inl (RemapChordShape ri)
       else if (frm_tap raw = []) = (frm_hold raw = []) then Inl (RemapTapXorHold ri)
       else
         let (mode, target) = (if frm_hold raw \<noteq> [] then (Hold, frm_hold raw) else (Tap, frm_tap raw)) in
         and_then (map_err (RemapTargetKey ri) (parse_key target)) (\<lambda>tap.
           if tap = 0 \<or> is_logical_modifier tap then Inl (RemapTarget ri)
           else if chord_signature keys \<in> set seen then Inl (DuplicateRemap ri)
           else and_then (compile_remaps (Suc ri) (chord_signature keys # seen) raws) (\<lambda>rest.
             Inr (\<lparr>src_keys = keys, src_bindings = [], src_mode = mode, src_target = ucast tap\<rparr>
                  # rest))))"

definition ambiguous_pair :: "source list \<Rightarrow> (nat \<times> nat) option" where
  "ambiguous_pair ps = List.find
     (\<lambda>(i, j). chord_subset (src_keys (ps ! i)) (src_keys (ps ! j)) \<or>
               chord_subset (src_keys (ps ! j)) (src_keys (ps ! i)))
     (concat (map (\<lambda>i. map (\<lambda>j. (i, j)) [Suc i..<length ps]) [0..<length ps]))"

fun compile_reserved ::
    "source list \<Rightarrow> logical list \<Rightarrow> string list \<Rightarrow> config_error + logical list" where
  "compile_reserved ps acc [] = Inr acc"
| "compile_reserved ps acc (name # names) =
     and_then (map_err ReservedKey (parse_key name)) (\<lambda>key.
       if \<not> is_logical_modifier key \<or> key \<in> set acc then Inl (ReservedNotDistinctModifier name)
       else if \<not> list_ex (\<lambda>p. key \<in> set (src_keys p)) ps then Inl (ReservedUnused name)
       else compile_reserved ps (acc @ [key]) names)"


definition compile_config :: "(string \<Rightarrow> string + int) \<Rightarrow> config_file \<Rightarrow> config_error + config" where
  "compile_config pd raw =
     and_then (map_err CandidateTimeout (parse_duration pd (cf_candidate_timeout raw) 750000000)) (\<lambda>ct.
     and_then (map_err SequenceTimeout (parse_duration pd (cf_sequence_timeout raw) 750000000)) (\<lambda>st.
     if ct \<le> 0 \<or> st \<le> 0 then Inl TimeoutNotPositive
     else if cf_allowed_uids raw = [] then Inl NoAllowedUIDs
     else and_then (compile_devices 0 (cf_allowed_devices raw)) (\<lambda>devices.
     let path = (if cf_socket_path raw = [] then ''/run/eak/eakd.sock'' else cf_socket_path raw) in
     if \<not> is_abs path then Inl SocketNotAbsolute
     else if cf_prefixes raw = [] \<and> cf_remaps raw = [] then Inl NoSources
     else and_then (compile_prefixes 0 [] (cf_prefixes raw)) (\<lambda>(prefixes, seen).
     and_then (compile_remaps 0 seen (cf_remaps raw)) (\<lambda>remaps.
     case ambiguous_pair (prefixes @ remaps) of
       Some (i, j) \<Rightarrow> Inl (AmbiguousSubsets i j)
     | None \<Rightarrow>
         and_then (compile_reserved (prefixes @ remaps) [] (cf_reserved_modifiers raw)) (\<lambda>reserved.
         Inr \<lparr>cfg_candidate_timeout = ct, cfg_sequence_timeout = st, cfg_socket_path = path,
              cfg_allowed_uids = cf_allowed_uids raw, cfg_allowed_devices = devices,
              cfg_prefixes = prefixes @ remaps, cfg_reserved_modifiers = reserved\<rparr>))))))"


section \<open>What a compiled configuration satisfies\<close>

definition chord_ok :: "logical list \<Rightarrow> bool" where
  "chord_ok keys \<longleftrightarrow> keys \<noteq> [] \<and> distinct keys \<and> (\<forall>k\<in>set keys. pressable k)"

definition binding_ok :: "binding \<Rightarrow> bool" where
  "binding_ok b \<longleftrightarrow> chord_ok (b_keys b) \<and> valid_action_id (b_action b)"

text \<open>An action prefix has bindings with pairwise different chords; a remap has a key to produce.\<close>

definition source_ok :: "source \<Rightarrow> bool" where
  "source_ok p \<longleftrightarrow> chord_ok (src_keys p) \<and> (\<exists>k\<in>set (src_keys p). is_logical_modifier k) \<and>
     (if src_mode p = Action then
        src_bindings p \<noteq> [] \<and> list_all binding_ok (src_bindings p) \<and>
        distinct (map (set \<circ> b_keys) (src_bindings p))
      else
        src_bindings p = [] \<and> (\<exists>k\<in>set (src_keys p). \<not> is_logical_modifier k) \<and>
        src_target p \<noteq> 0 \<and> \<not> is_physical_modifier (src_target p) \<and> unat (src_target p) \<le> KeyMax)"

text \<open>No chord is contained in another one, so at most one chord is complete at a time.\<close>

definition unambiguous :: "source list \<Rightarrow> bool" where
  "unambiguous ps \<longleftrightarrow> (\<forall>i < length ps. \<forall>j < length ps. i \<noteq> j \<longrightarrow>
     \<not> set (src_keys (ps ! i)) \<subseteq> set (src_keys (ps ! j)))"

definition config_ok :: "config \<Rightarrow> bool" where
  "config_ok cfg \<longleftrightarrow>
     0 < cfg_candidate_timeout cfg \<and> 0 < cfg_sequence_timeout cfg \<and> cfg_allowed_uids cfg \<noteq> [] \<and>
     is_abs (cfg_socket_path cfg) \<and> cfg_prefixes cfg \<noteq> [] \<and>
     list_all source_ok (cfg_prefixes cfg) \<and> unambiguous (cfg_prefixes cfg) \<and>
     distinct (cfg_reserved_modifiers cfg) \<and>
     (\<forall>k\<in>set (cfg_reserved_modifiers cfg). is_logical_modifier k \<and>
        (\<exists>p\<in>set (cfg_prefixes cfg). k \<in> set (src_keys p)))"

subsection \<open>Chords and their signatures\<close>

lemma parse_chord_from_ok:
  "parse_chord_from acc names = Inr keys \<Longrightarrow> distinct acc \<Longrightarrow> \<forall>k\<in>set acc. pressable k \<Longrightarrow>
     distinct keys \<and> (\<forall>k\<in>set keys. pressable k) \<and> length keys = length acc + length names"
proof (induction acc names rule: parse_chord_from.induct)
  case (2 acc name names)
  from "2.prems"(1) obtain key where key: "parse_key name = Inr key" "key \<notin> set acc"
    and rest: "parse_chord_from (acc @ [key]) names = Inr keys"
    by (auto split: if_splits)
  have "pressable key" by (rule name_pressable[OF key(1)])
  with "2.IH"[OF key(2) rest] "2.prems"(2,3) key(2) show ?case by auto
qed auto

lemma parse_chord_ok: "parse_chord names = Inr keys \<Longrightarrow> chord_ok keys \<and> length keys = length names"
  using parse_chord_from_ok[of "[]" names keys]
  by (auto simp: parse_chord_def chord_ok_def split: if_splits)

lemma dec_comma_split:
  assumes "dec_string m @ '','' @ xs = dec_string n @ '','' @ ys"
  shows "m = n \<and> xs = ys"
proof -
  have digits: "takeWhile is_digit (dec_string k @ '','' @ zs) = dec_string k" for k zs
    using dec_string_digits[of k] comma_not_digit by (simp add: list_all_iff takeWhile_append2)
  from assms have "dec_string m = dec_string n" by (metis digits)
  with assms show ?thesis by (simp add: dec_string_inject)
qed

lemma signature_list_inject:
  "concat (map (\<lambda>k. dec_string (unat k) @ '','') (xs :: logical list)) =
   concat (map (\<lambda>k. dec_string (unat k) @ '','') ys) \<Longrightarrow> xs = ys"
proof (induction xs arbitrary: ys)
  case Nil
  then show ?case by (cases ys) auto
next
  case (Cons x xs)
  then obtain y ys' where ys: "ys = y # ys'" by (cases ys) auto
  with Cons.prems have "dec_string (unat x) @ '','' @ concat (map (\<lambda>k. dec_string (unat k) @ '','') xs) =
    dec_string (unat y) @ '','' @ concat (map (\<lambda>k. dec_string (unat k) @ '','') ys')" by simp
  from dec_comma_split[OF this] Cons.IH[of ys'] ys show ?case by (simp add: word_unat_eq_iff)
qed

lemma chord_signature_sort: "chord_signature a = chord_signature b \<longleftrightarrow> sort a = sort b"
  unfolding chord_signature_def by (auto dest: signature_list_inject)

lemma chord_signature_set:
  "distinct a \<Longrightarrow> distinct b \<Longrightarrow> chord_signature a = chord_signature b \<longleftrightarrow> set a = set b"
proof -
  assume d: "distinct a" "distinct b"
  have "sort a = sort b \<longleftrightarrow> set a = set b"
  proof
    assume "sort a = sort b"
    then show "set a = set b" by (metis set_sort)
  next
    assume "set a = set b"
    with d show "sort a = sort b"
      by (intro sorted_distinct_set_unique) (simp_all add: distinct_sort)
  qed
  then show ?thesis by (simp add: chord_signature_sort)
qed

lemma chord_subset_psubset:
  assumes "distinct a" "distinct b"
  shows "chord_subset a b \<longleftrightarrow> set a \<subset> set b"
proof -
  have "length a < length b" if "set a \<subset> set b"
    using psubset_card_mono[OF _ that] assms by (simp add: distinct_card)
  moreover have "set a \<noteq> set b" if "length a < length b"
    using that assms by (metis distinct_card less_irrefl)
  ultimately have "set a \<subset> set b \<longleftrightarrow> length a < length b \<and> set a \<subseteq> set b"
    by (auto simp only: psubset_eq)
  then show ?thesis by (auto simp add: chord_subset_def list_all_iff)
qed

subsection \<open>The loops of the compiler\<close>

text \<open>
  The set of signatures seen so far grows by those of the chords that were accepted, and an accepted
  chord was not in it: the signatures of the result are new and pairwise different.
\<close>

lemma compile_bindings_ok:
  "compile_bindings pi bi seen raws = Inr bs \<Longrightarrow>
     list_all binding_ok bs \<and> distinct (map (chord_signature \<circ> b_keys) bs) \<and>
     set (map (chord_signature \<circ> b_keys) bs) \<inter> set seen = {} \<and> length bs = length raws"
proof (induction pi bi seen raws arbitrary: bs rule: compile_bindings.induct)
  case (2 pi bi seen raw raws)
  from "2.prems" obtain keys rest where keys: "parse_chord (fb_keys raw) = Inr keys"
    and act: "validate_id (fb_action raw) = Inr ()"
    and new: "chord_signature keys \<notin> set seen"
    and rest: "compile_bindings pi (Suc bi) (chord_signature keys # seen) raws = Inr rest"
    and bs: "bs = \<lparr>b_keys = keys, b_action = fb_action raw\<rparr> # rest"
    by (auto split: if_splits)
  have "binding_ok \<lparr>b_keys = keys, b_action = fb_action raw\<rparr>"
    using parse_chord_ok[OF keys] act by (simp add: binding_ok_def validate_id_ok)
  with "2.IH"[OF new rest] new bs show ?case by auto
qed simp

lemma distinct_chords_from_signatures:
  "list_all (\<lambda>b. chord_ok (f b)) bs \<Longrightarrow> distinct (map (chord_signature \<circ> f) bs) \<Longrightarrow>
     distinct (map (set \<circ> f) bs)"
proof (induction bs)
  case (Cons b bs)
  have "set (f b) \<noteq> set (f c)" if "c \<in> set bs" for c
    using Cons.prems that chord_signature_set[of "f b" "f c"]
    by (auto simp: chord_ok_def list_all_iff)
  with Cons show ?case by auto
qed simp

lemma compile_prefixes_ok:
  "compile_prefixes pi seen raws = Inr (ps, seen') \<Longrightarrow>
     list_all source_ok ps \<and> distinct (map (chord_signature \<circ> src_keys) ps) \<and>
     set (map (chord_signature \<circ> src_keys) ps) \<inter> set seen = {} \<and>
     set seen' = set (map (chord_signature \<circ> src_keys) ps) \<union> set seen \<and>
     length ps = length raws"
proof (induction pi seen raws arbitrary: ps seen' rule: compile_prefixes.induct)
  case (2 pi seen raw raws)
  from "2.prems" obtain keys bindings rest where keys: "parse_chord (fp_keys raw) = Inr keys"
    and md: "list_ex is_logical_modifier keys" and new: "chord_signature keys \<notin> set seen"
    and bindings: "compile_bindings pi 0 [] (fp_bindings raw) = Inr bindings" "bindings \<noteq> []"
    and rest: "compile_prefixes (Suc pi) (chord_signature keys # seen) raws = Inr (rest, seen')"
    and ps: "ps = \<lparr>src_keys = keys, src_bindings = bindings, src_mode = Action, src_target = 0\<rparr> # rest"
    by (auto split: if_splits prod.splits)
  note b = compile_bindings_ok[OF bindings(1)]
  then have "distinct (map (set \<circ> b_keys) bindings)"
    by (intro distinct_chords_from_signatures) (auto simp: list_all_iff binding_ok_def)
  with b parse_chord_ok[OF keys] md bindings(2)
  have "source_ok \<lparr>src_keys = keys, src_bindings = bindings, src_mode = Action, src_target = 0\<rparr>"
    by (auto simp: source_ok_def list_ex_iff)
  with "2.IH"[of keys bindings rest seen'] md new bindings rest ps show ?case by auto
qed simp

lemma plain_key_code:
  assumes "pressable k" "\<not> is_logical_modifier k" "k \<noteq> 0"
  shows "ucast k \<noteq> (0 :: u16) \<and> \<not> is_physical_modifier (ucast k) \<and> unat (ucast k :: u16) \<le> KeyMax"
proof -
  from assms(1) obtain code where code: "unat code \<le> KeyMax" "canonical code = k"
    by (auto simp: pressable_def)
  then have np: "\<not> is_physical_modifier code" using assms(2) logical_modifier_canonical by auto
  then have k: "k = ucast code" using code(2) by (auto simp: canonical_def is_physical_modifier_def)
  then have "(ucast k :: u16) = code" by (simp add: ucast_up_ucast_id is_up_def source_size_def
      target_size_def)
  with code np k assms(3) show ?thesis by auto
qed

lemma compile_remaps_ok:
  "compile_remaps ri seen raws = Inr ps \<Longrightarrow>
     list_all source_ok ps \<and> list_all (\<lambda>p. src_mode p \<noteq> Action) ps \<and>
     distinct (map (chord_signature \<circ> src_keys) ps) \<and>
     set (map (chord_signature \<circ> src_keys) ps) \<inter> set seen = {} \<and> length ps = length raws"
proof (induction raws arbitrary: ri seen ps)
  case (Cons raw raws)
  from Cons.prems obtain keys md tap rest target where keys: "parse_chord (frm_keys raw) = Inr keys"
    and mods: "filter is_logical_modifier keys \<noteq> []"
      "length (filter is_logical_modifier keys) \<noteq> length keys"
    and md: "md \<noteq> Action"
    and tap: "parse_key target = Inr tap" "tap \<noteq> 0" "\<not> is_logical_modifier tap"
    and new: "chord_signature keys \<notin> set seen"
    and rest: "compile_remaps (Suc ri) (chord_signature keys # seen) raws = Inr rest"
    and ps: "ps = \<lparr>src_keys = keys, src_bindings = [], src_mode = md, src_target = ucast tap\<rparr> # rest"
    by (auto simp: Let_def split: if_splits)
  have "\<exists>k\<in>set keys. is_logical_modifier k"
    using mods(1) by (auto simp: filter_empty_conv)
  moreover have "\<exists>k\<in>set keys. \<not> is_logical_modifier k"
    using mods(2) by (metis filter_True)
  ultimately have "source_ok (hd ps)"
    using parse_chord_ok[OF keys] md tap plain_key_code[OF name_pressable[OF tap(1)] tap(3,2)] ps
    by (simp add: source_ok_def)
  with Cons.IH[OF rest] md new ps show ?case by auto
qed simp

subsection \<open>The whole compiler\<close>

lemma ambiguous_pair_None:
  "ambiguous_pair ps = None \<Longrightarrow> i < j \<Longrightarrow> j < length ps \<Longrightarrow>
     \<not> chord_subset (src_keys (ps ! i)) (src_keys (ps ! j)) \<and>
     \<not> chord_subset (src_keys (ps ! j)) (src_keys (ps ! i))"
proof -
  assume none: "ambiguous_pair ps = None" and ij: "i < j" "j < length ps"
  let ?pairs = "concat (map (\<lambda>i. map (\<lambda>j. (i, j)) [Suc i..<length ps]) [0..<length ps])"
  have "(i, j) \<in> set ?pairs" using ij by (auto intro!: bexI[of _ i])
  with none show ?thesis
    unfolding ambiguous_pair_def find_None_iff by blast
qed

lemma unambiguous_compiled:
  assumes "list_all source_ok ps" "distinct (map (chord_signature \<circ> src_keys) ps)"
    and amb: "ambiguous_pair ps = None"
  shows "unambiguous ps"
proof -
  have apart: "\<not> set (src_keys (ps ! i)) \<subseteq> set (src_keys (ps ! j)) \<and>
      \<not> set (src_keys (ps ! j)) \<subseteq> set (src_keys (ps ! i))" if "i < j" "j < length ps" for i j
  proof -
    have d: "distinct (src_keys (ps ! k))" if "k < length ps" for k
      using assms(1) that by (simp add: list_all_length source_ok_def chord_ok_def)
    have "chord_signature (src_keys (ps ! i)) \<noteq> chord_signature (src_keys (ps ! j))"
      using assms(2) that nth_eq_iff_index_eq[OF assms(2), of i j] by auto
    then have "set (src_keys (ps ! i)) \<noteq> set (src_keys (ps ! j))"
      using d[of i] d[of j] that by (simp add: chord_signature_set)
    with ambiguous_pair_None[OF amb that] show ?thesis
      using d[of i] d[of j] that by (auto simp: chord_subset_psubset)
  qed
  show ?thesis unfolding unambiguous_def
    by (metis apart nat_neq_iff)
qed

lemma compile_reserved_ok:
  "compile_reserved ps acc names = Inr ks \<Longrightarrow> distinct acc \<Longrightarrow>
     \<forall>k\<in>set acc. is_logical_modifier k \<and> (\<exists>p\<in>set ps. k \<in> set (src_keys p)) \<Longrightarrow>
     distinct ks \<and> (\<forall>k\<in>set ks. is_logical_modifier k \<and> (\<exists>p\<in>set ps. k \<in> set (src_keys p)))"
proof (induction names arbitrary: acc)
  case (Cons name names)
  from Cons.prems(1) obtain key where "is_logical_modifier key" "key \<notin> set acc"
    "list_ex (\<lambda>p. key \<in> set (src_keys p)) ps" "compile_reserved ps (acc @ [key]) names = Inr ks"
    by (auto split: if_splits)
  with Cons.prems(2,3) show ?case by (intro Cons.IH[of "acc @ [key]"]) (auto simp: list_ex_iff)
qed auto

lemma all_not_Some_pair: "(\<forall>a b. x \<noteq> Some (a, b)) \<longleftrightarrow> x = None"
  by (cases x) auto

lemma compile_config_parts:
  assumes "compile_config pd raw = Inr cfg"
  obtains prefixes seen remaps where
    "compile_prefixes 0 [] (cf_prefixes raw) = Inr (prefixes, seen)"
    "compile_remaps 0 seen (cf_remaps raw) = Inr remaps"
    "cfg_prefixes cfg = prefixes @ remaps" "ambiguous_pair (prefixes @ remaps) = None"
    "compile_reserved (prefixes @ remaps) [] (cf_reserved_modifiers raw)
       = Inr (cfg_reserved_modifiers cfg)"
    "0 < cfg_candidate_timeout cfg" "0 < cfg_sequence_timeout cfg"
    "cfg_allowed_uids cfg = cf_allowed_uids raw" "cf_allowed_uids raw \<noteq> []"
    "is_abs (cfg_socket_path cfg)" "cf_prefixes raw \<noteq> [] \<or> cf_remaps raw \<noteq> []"
    "compile_devices 0 (cf_allowed_devices raw) = Inr (cfg_allowed_devices cfg)"
  using assms
  by (auto simp: compile_config_def Let_def all_not_Some_pair split: if_splits prod.splits option.splits)

lemma compile_config_ok:
  assumes "compile_config pd raw = Inr cfg"
  shows "config_ok cfg"
proof (rule compile_config_parts[OF assms])
  fix prefixes seen remaps
  assume p: "compile_prefixes 0 [] (cf_prefixes raw) = Inr (prefixes, seen)"
    and r: "compile_remaps 0 seen (cf_remaps raw) = Inr remaps"
    and cfg: "cfg_prefixes cfg = prefixes @ remaps" "ambiguous_pair (prefixes @ remaps) = None"
      "compile_reserved (prefixes @ remaps) [] (cf_reserved_modifiers raw)
         = Inr (cfg_reserved_modifiers cfg)"
    and basic: "0 < cfg_candidate_timeout cfg" "0 < cfg_sequence_timeout cfg"
      "cfg_allowed_uids cfg = cf_allowed_uids raw" "cf_allowed_uids raw \<noteq> []"
      "is_abs (cfg_socket_path cfg)" "cf_prefixes raw \<noteq> [] \<or> cf_remaps raw \<noteq> []"
  note p' = compile_prefixes_ok[OF p] and r' = compile_remaps_ok[OF r]
  have ok: "list_all source_ok (prefixes @ remaps)" using p' r' by simp
  have "distinct (map (chord_signature \<circ> src_keys) (prefixes @ remaps))" using p' r' by auto
  with ok cfg(2) have "unambiguous (prefixes @ remaps)" by (intro unambiguous_compiled)
  moreover have "prefixes @ remaps \<noteq> []" using p' r' basic(6) by auto
  ultimately show ?thesis
    using ok cfg basic compile_reserved_ok[OF cfg(3)] by (simp add: config_ok_def)
qed

end
