(* ===== verification/Engine_State.thy ===== *)
theory Engine_State
  imports Input_Event Daemon_Config
begin

text \<open>
  Package \<open>internal/engine\<close>, the data: \<open>engine.go\<close> lines 15 to 119 and \<open>physical.go\<close>.

  The Go code shares \<open>*press\<close>, \<open>*candidate\<close> and \<open>*activation\<close> pointers between its tables and the
  journal, and changes the objects through any of them.  The model keeps these objects in three
  stores of the state, \<open>e_presses\<close>, \<open>e_cands\<close> and \<open>e_acts\<close>, from addresses to contents; a pointer is
  an address and nil is \<open>None\<close>.  A press and an activation get the identifier the code counts
  (\<open>nextID\<close>, \<open>nextActivation\<close>) as their address, a candidate the next unused one.  Addresses are
  unbounded: the two uint64 counters would have to be incremented \<open>2^64\<close> times to wrap.

  A function that can panic (an index out of range, or the explicit panic of \<open>resolve\<close>) returns an
  option, with \<open>None\<close> for the panic.  \<open>time.Time\<close> is nanoseconds on the monotonic clock, and the
  zero time of \<open>deadline\<close> is \<open>None\<close>.
\<close>

section \<open>Outputs\<close>

datatype engine_output =
    ForwardFrame frame
  | ReconcileDevice device "(u16, bool) gomap"
  | EmitAction string

section \<open>Presses, candidates, activations, the journal\<close>

datatype disposition = Undecided | Forwarded | Consumed

datatype mode = ModeIdle | ModeReserved | ModePrefixCandidate | ModeAwaitBinding | ModeBindingCandidate

type_synonym pid = nat
type_synonym cid = nat
type_synonym aid = nat
type_synonym time = int

record press =
  p_device :: device
  p_code :: u16
  p_logical :: logical
  p_down :: bool
  p_route :: disposition

record candidate =
  c_possible :: "nat list"
  c_matched :: "nat option"   \<comment> \<open>\<open>-1\<close> is None\<close>
  c_members :: "(logical, pid) gomap"
  c_held :: "(pid, bool) gomap"
  c_owned :: "pid list"
  c_match_members :: "pid list"
  c_driver :: "pid option"
  c_broken :: bool
  c_route :: disposition

record activation =
  a_device :: device
  a_target :: u16
  a_members :: "pid list"
  a_driver :: "pid option"
  a_live :: bool

record recorded_event =
  r_event :: event
  r_press :: "pid option"
  r_output :: "engine_output option"
  r_repeat :: "aid option"

record journal_frame =
  j_device :: device
  j_events :: "recorded_event list"
  j_drop_scan :: bool
  j_candidate :: "cid option"

record engine =
  e_physical :: "(device, (u16, pid) gomap) gomap"
  e_count :: "(logical, int) gomap"
  e_next_id :: nat
  e_mode :: mode
  e_seq :: "cid option"
  e_active_prefix :: "nat option"   \<comment> \<open>\<open>-1\<close> is None\<close>
  e_carry :: "(logical, pid) gomap"
  e_reuse :: "(pid, bool) gomap"
  e_deadline :: "time option"
  e_journal :: "journal_frame list"
  e_active :: "aid list"
  e_next_activation :: nat
  e_presses :: "pid \<Rightarrow> press"
  e_cands :: "cid \<Rightarrow> candidate"
  e_next_cand :: nat
  e_acts :: "aid \<Rightarrow> activation"

text \<open>The contents of an address that was never allocated; no code reads it.\<close>

definition no_press :: press where
  "no_press = \<lparr>p_device = [], p_code = 0, p_logical = 0, p_down = False, p_route = Undecided\<rparr>"

definition no_candidate :: candidate where
  "no_candidate = \<lparr>c_possible = [], c_matched = None, c_members = [], c_held = [], c_owned = [],
     c_match_members = [], c_driver = None, c_broken = False, c_route = Undecided\<rparr>"

definition no_activation :: activation where
  "no_activation = \<lparr>a_device = [], a_target = 0, a_members = [], a_driver = None, a_live = False\<rparr>"

definition new_engine :: engine where
  "new_engine = \<lparr>e_physical = [], e_count = [], e_next_id = 0, e_mode = ModeIdle, e_seq = None,
     e_active_prefix = None, e_carry = [], e_reuse = [], e_deadline = None, e_journal = [],
     e_active = [], e_next_activation = 0, e_presses = (\<lambda>_. no_press),
     e_cands = (\<lambda>_. no_candidate), e_next_cand = 0, e_acts = (\<lambda>_. no_activation)\<rparr>"

text \<open>\<open>Deadline\<close>: the pending deadline, if there is one.\<close>

definition engine_deadline :: "engine \<Rightarrow> time option" where
  "engine_deadline s = e_deadline s"

section \<open>Access to the stores\<close>

abbreviation pr :: "engine \<Rightarrow> pid \<Rightarrow> press" where
  "pr s p \<equiv> e_presses s p"

definition upd_press :: "pid \<Rightarrow> (press \<Rightarrow> press) \<Rightarrow> engine \<Rightarrow> engine" where
  "upd_press p f s = s\<lparr>e_presses := (e_presses s)(p := f (e_presses s p))\<rparr>"

definition upd_cand :: "cid \<Rightarrow> (candidate \<Rightarrow> candidate) \<Rightarrow> engine \<Rightarrow> engine" where
  "upd_cand c f s = s\<lparr>e_cands := (e_cands s)(c := f (e_cands s c))\<rparr>"

definition upd_act :: "aid \<Rightarrow> (activation \<Rightarrow> activation) \<Rightarrow> engine \<Rightarrow> engine" where
  "upd_act a f s = s\<lparr>e_acts := (e_acts s)(a := f (e_acts s a))\<rparr>"

definition set_route :: "disposition \<Rightarrow> pid \<Rightarrow> engine \<Rightarrow> engine" where
  "set_route r p s = upd_press p (\<lambda>x. x\<lparr>p_route := r\<rparr>) s"

text \<open>\<open>e.physical[device]\<close> and \<open>e.physical[device][code]\<close>; a missing device reads as an empty map.\<close>

definition phys_dev :: "engine \<Rightarrow> device \<Rightarrow> (u16, pid) gomap" where
  "phys_dev s d = (case gm_get (e_physical s) d of None \<Rightarrow> [] | Some m \<Rightarrow> m)"

definition phys :: "engine \<Rightarrow> device \<Rightarrow> u16 \<Rightarrow> pid option" where
  "phys s d c = gm_get (phys_dev s d) c"

definition count_of :: "engine \<Rightarrow> logical \<Rightarrow> int" where
  "count_of s k = (case gm_get (e_count s) k of None \<Rightarrow> 0 | Some n \<Rightarrow> n)"

section \<open>Physical ingestion\<close>

record transition =
  t_press :: pid
  t_value :: i32
  t_count_after :: int

text \<open>\<open>release\<close>: the press goes up, leaves \<open>physical\<close> (with its device when it was the last),
  the logical count, the reusable modifiers and the carried modifiers.\<close>

definition release :: "pid \<Rightarrow> engine \<Rightarrow> engine" where
  "release p s =
     (let d = p_device (pr s p); c = p_code (pr s p); k = p_logical (pr s p);
          s1 = upd_press p (\<lambda>x. x\<lparr>p_down := False\<rparr>) s;
          m = gm_del c (phys_dev s1 d);
          s2 = (case gm_get (e_physical s1) d of
                  None \<Rightarrow> s1
                | Some _ \<Rightarrow> s1\<lparr>e_physical := gm_put d m (e_physical s1)\<rparr>);
          s3 = (if phys_dev s2 d = [] then s2\<lparr>e_physical := gm_del d (e_physical s2)\<rparr> else s2);
          s4 = s3\<lparr>e_count := gm_put k (count_of s3 k - 1) (e_count s3)\<rparr>;
          s5 = (if count_of s4 k = 0 then s4\<lparr>e_count := gm_del k (e_count s4)\<rparr> else s4);
          s6 = s5\<lparr>e_reuse := gm_del p (e_reuse s5)\<rparr>
      in if gm_get (e_carry s6) k = Some p then s6\<lparr>e_carry := gm_del k (e_carry s6)\<rparr> else s6)"

text \<open>A new press: the next identifier, its object, its entry in \<open>physical\<close> and the count.\<close>

definition new_press :: "device \<Rightarrow> u16 \<Rightarrow> engine \<Rightarrow> pid \<times> engine" where
  "new_press d c s =
     (let p = Suc (e_next_id s); k = canonical c;
          s1 = s\<lparr>e_next_id := p,
                 e_presses := (e_presses s)(p := \<lparr>p_device = d, p_code = c, p_logical = k,
                   p_down = True, p_route = Undecided\<rparr>)\<rparr>;
          s2 = s1\<lparr>e_physical := gm_put d (gm_put c p (phys_dev s1 d)) (e_physical s1)\<rparr>;
          s3 = s2\<lparr>e_count := gm_put k (count_of s2 k + 1) (e_count s2)\<rparr>
      in (p, s3))"

definition mk_transition :: "pid \<Rightarrow> i32 \<Rightarrow> engine \<Rightarrow> transition" where
  "mk_transition p v s =
     \<lparr>t_press = p, t_value = v, t_count_after = count_of s (p_logical (pr s p))\<rparr>"

text \<open>
  \<open>ingest\<close> returns the press the event belongs to (if any), the transition when the event is a valid
  one, and the new state.  A second press of a key that is down, a release or a repeat of a key that
  is up, and a value other than 0, 1 and 2 are not valid.
\<close>

definition ingest :: "device \<Rightarrow> event \<Rightarrow> engine \<Rightarrow> pid option \<times> transition option \<times> engine" where
  "ingest d ev s =
     (if ev_type ev \<noteq> EVKey then (None, None, s)
      else
        let q = phys s d (ev_code ev) in
        if ev_value ev = 1 then
          (case q of
             Some p \<Rightarrow> (Some p, None, s)
           | None \<Rightarrow>
               let (p, s') = new_press d (ev_code ev) s in (Some p, Some (mk_transition p 1 s'), s'))
        else if ev_value ev = 0 then
          (case q of
             None \<Rightarrow> (None, None, s)
           | Some p \<Rightarrow> let s' = release p s in (Some p, Some (mk_transition p 0 s'), s'))
        else if ev_value ev = 2 then
          (case q of
             None \<Rightarrow> (None, None, s)
           | Some p \<Rightarrow> (Some p, Some (mk_transition p 2 s), s))
        else (q, None, s))"

end
