(* ===== verification/Engine_Matcher.thy ===== *)
theory Engine_Matcher
  imports Engine_State
begin

text \<open>
  Package \<open>internal/engine\<close>, matching: \<open>matcher.go\<close> and the commit operations of \<open>engine.go\<close>
  (\<open>resolve\<close>, \<open>idle\<close>, \<open>fail\<close>, \<open>queueOutput\<close>, \<open>activate\<close>, \<open>stopActivation\<close>).
  The configuration is an argument of every function that reads \<open>e.cfg\<close>.
\<close>

section \<open>Committing a candidate\<close>

text \<open>The loop of \<open>resolve\<close> panics at a press that already has a disposition.\<close>

fun resolve_presses :: "disposition \<Rightarrow> pid list \<Rightarrow> engine \<Rightarrow> engine option" where
  "resolve_presses r [] s = Some s"
| "resolve_presses r (p # ps) s =
     (if p_route (pr s p) \<noteq> Undecided then None else resolve_presses r ps (set_route r p s))"

definition resolve :: "disposition \<Rightarrow> engine \<Rightarrow> engine option" where
  "resolve r s =
     (case e_seq s of
        None \<Rightarrow> Some s
      | Some c \<Rightarrow> do {
          s' \<leftarrow> resolve_presses r (c_owned (e_cands s c)) s;
          Some (upd_cand c (\<lambda>x. x\<lparr>c_route := r\<rparr>) s') })"

definition idle :: "engine \<Rightarrow> engine" where
  "idle s = s\<lparr>e_mode := ModeIdle, e_seq := None, e_active_prefix := None, e_carry := [],
              e_deadline := None\<rparr>"

definition fail :: "engine \<Rightarrow> engine option" where
  "fail s = do { s' \<leftarrow> resolve Forwarded s; Some (idle s') }"

definition key_output :: "device \<Rightarrow> u16 \<Rightarrow> i32 \<Rightarrow> engine_output" where
  "key_output d c v = ForwardFrame \<lparr>fr_device = d, fr_events = [key_event c v, syn_event]\<rparr>"

text \<open>A journal entry that carries a generated output instead of an input event.\<close>

definition recorded_output :: "engine_output \<Rightarrow> aid option \<Rightarrow> recorded_event" where
  "recorded_output out rep =
     \<lparr>r_event = \<lparr>ev_type = 0, ev_code = 0, ev_value = 0\<rparr>, r_press = None, r_output = Some out,
      r_repeat = rep\<rparr>"

definition recorded_input :: "event \<Rightarrow> pid option \<Rightarrow> recorded_event" where
  "recorded_input ev p = \<lparr>r_event = ev, r_press = p, r_output = None, r_repeat = None\<rparr>"

definition queue_output :: "engine_output \<Rightarrow> engine \<Rightarrow> engine" where
  "queue_output out s = s\<lparr>e_journal := e_journal s @
     [\<lparr>j_device = [], j_events = [recorded_output out None], j_drop_scan = False, j_candidate = None\<rparr>]\<rparr>"

section \<open>Held outputs\<close>

definition stop_activation :: "aid \<Rightarrow> engine \<Rightarrow> engine" where
  "stop_activation a s =
     (let s1 = upd_act a (\<lambda>x. x\<lparr>a_live := False\<rparr>) s;
          d = a_device (e_acts s1 a)
      in queue_output (ReconcileDevice d []) (queue_output (key_output d (a_target (e_acts s1 a)) 0) s1))"

definition activation_device :: "nat \<Rightarrow> device" where
  "activation_device n = ''eakd-remap:'' @ dec_string n"

definition activate :: "cid \<Rightarrow> u16 \<Rightarrow> engine \<Rightarrow> engine" where
  "activate c target s =
     (let a = Suc (e_next_activation s);
          s1 = s\<lparr>e_next_activation := a,
                 e_acts := (e_acts s)(a := \<lparr>a_device = activation_device a, a_target = target,
                   a_members = c_match_members (e_cands s c), a_driver = c_driver (e_cands s c),
                   a_live = True\<rparr>)\<rparr>;
          s2 = queue_output (key_output (activation_device a) target 1) s1
      in if c_broken (e_cands s2 c) then stop_activation a s2
         else s2\<lparr>e_active := e_active s2 @ [a]\<rparr>)"

text \<open>
  \<open>activationEvents\<close>: what a transition generates, in the order of the active held outputs, and the
  state in which the ended ones are gone.  \<open>activation_event\<close> is the body of its loop.
\<close>

definition activation_event :: "transition \<Rightarrow> aid \<Rightarrow> engine \<Rightarrow> recorded_event list \<times> engine" where
  "activation_event tr a s =
     (let x = e_acts s a in
      if t_value tr = 0 \<and> t_press tr \<in> set (a_members x) then
        ([recorded_output (key_output (a_device x) (a_target x) 0) None,
          recorded_output (ReconcileDevice (a_device x) []) None],
         upd_act a (\<lambda>x. x\<lparr>a_live := False\<rparr>) s)
      else if t_value tr = 2 \<and> a_driver x = Some (t_press tr) then
        ([recorded_output (key_output (a_device x) (a_target x) 2) (Some a)], s)
      else ([], s))"

fun activation_events_of :: "transition \<Rightarrow> aid list \<Rightarrow> engine \<Rightarrow> recorded_event list \<times> engine" where
  "activation_events_of tr [] s = ([], s)"
| "activation_events_of tr (a # as) s =
     (let (new, s') = activation_event tr a s; (rest, s'') = activation_events_of tr as s'
      in (new @ rest, s''))"

definition activation_events :: "transition \<Rightarrow> engine \<Rightarrow> recorded_event list \<times> engine" where
  "activation_events tr s =
     (let (evs, s') = activation_events_of tr (e_active s) s
      in (evs, s'\<lparr>e_active := filter (\<lambda>a. a_live (e_acts s' a)) (e_active s')\<rparr>))"

section \<open>Starting a candidate\<close>

definition new_candidate :: "nat list \<Rightarrow> (logical, pid) gomap \<Rightarrow> engine \<Rightarrow> candidate" where
  "new_candidate possible borrowed s =
     (let down = filter (\<lambda>(k, p). p_down (pr s p)) borrowed in
      no_candidate\<lparr>c_possible := possible,
        c_members := fold (\<lambda>(k, p). gm_put k p) down [],
        c_held := fold (\<lambda>(k, p). gm_put p True) down []\<rparr>)"

definition alloc_candidate :: "candidate \<Rightarrow> engine \<Rightarrow> engine" where
  "alloc_candidate x s = s\<lparr>e_seq := Some (e_next_cand s),
     e_cands := (e_cands s)(e_next_cand s := x), e_next_cand := Suc (e_next_cand s)\<rparr>"

text \<open>The reusable modifiers, by logical key.\<close>

definition reuse_by_logical :: "engine \<Rightarrow> (logical, pid) gomap" where
  "reuse_by_logical s = fold (\<lambda>p. gm_put (p_logical (pr s p)) p) (gm_keys (e_reuse s)) []"

text \<open>The body of the loop over the source chords: can the chord start with this press?\<close>

definition source_possible :: "engine \<Rightarrow> logical \<Rightarrow> (logical, pid) gomap \<Rightarrow> source \<Rightarrow> bool" where
  "source_possible s k borrowed src \<longleftrightarrow>
     k \<in> set (src_keys src) \<and>
     (src_mode src = Action \<longrightarrow>
        list_all (\<lambda>key. is_logical_modifier key \<longrightarrow> key \<in> set (src_keys src)) (gm_keys (e_count s))) \<and>
     (borrowed \<noteq> [] \<longrightarrow>
        src_mode src \<noteq> Action \<and>
        list_all (\<lambda>key. key \<in> set (src_keys src)) (gm_keys borrowed) \<and>
        list_all (\<lambda>key. is_logical_modifier key \<longrightarrow> gm_get borrowed key \<noteq> None) (src_keys src))"

definition start_source :: "config \<Rightarrow> pid \<Rightarrow> time \<Rightarrow> engine \<Rightarrow> bool \<times> engine" where
  "start_source cfg p now s =
     (let k = p_logical (pr s p);
          borrowed = (if is_logical_modifier k then [] else reuse_by_logical s)
      in if \<not> is_logical_modifier k \<and> borrowed = [] then (False, s)
         else
           let possible = filter (\<lambda>i. source_possible s k borrowed (cfg_prefixes cfg ! i))
                 [0..<length (cfg_prefixes cfg)]
           in if possible = [] then (False, s)
              else
                let s1 = alloc_candidate (new_candidate possible borrowed s) s;
                    s2 = s1\<lparr>e_mode := ModePrefixCandidate,
                            e_deadline := Some (now + cfg_candidate_timeout cfg)\<rparr>
                in if borrowed = [] \<and> k \<in> set (cfg_reserved_modifiers cfg)
                   then (True, s2\<lparr>e_mode := ModeReserved, e_deadline := None\<rparr>)
                   else (True, s2))"

text \<open>Indexing a Go slice: \<open>None\<close> is the run-time panic.\<close>

definition slice_at :: "'a list \<Rightarrow> nat \<Rightarrow> 'a option" where
  "slice_at xs i = (if i < length xs then Some (xs ! i) else None)"

definition prefix_at :: "config \<Rightarrow> nat option \<Rightarrow> source option" where
  "prefix_at cfg i = (case i of None \<Rightarrow> None | Some n \<Rightarrow> slice_at (cfg_prefixes cfg) n)"

definition start_binding :: "config \<Rightarrow> engine \<Rightarrow> engine option" where
  "start_binding cfg s = do {
     src \<leftarrow> prefix_at cfg (e_active_prefix s);
     let possible = filter (\<lambda>i. list_all (\<lambda>key. key \<in> set (b_keys (src_bindings src ! i)))
           (gm_keys (e_carry s))) [0..<length (src_bindings src)];
     Some ((alloc_candidate (new_candidate possible (e_carry s) s) s)\<lparr>e_mode := ModeBindingCandidate\<rparr>) }"

definition chord :: "config \<Rightarrow> engine \<Rightarrow> nat \<Rightarrow> logical list option" where
  "chord cfg s i =
     (if e_mode s = ModeBindingCandidate then do {
        src \<leftarrow> prefix_at cfg (e_active_prefix s);
        b \<leftarrow> slice_at (src_bindings src) i;
        Some (b_keys b) }
      else do { src \<leftarrow> slice_at (cfg_prefixes cfg) i; Some (src_keys src) })"

section \<open>Advancing a candidate\<close>

text \<open>\<open>c.possible\<close> without the chords that do not contain the key.\<close>

fun keep_possible :: "config \<Rightarrow> engine \<Rightarrow> logical \<Rightarrow> nat list \<Rightarrow> nat list option" where
  "keep_possible cfg s k [] = Some []"
| "keep_possible cfg s k (i # is) = do {
     keys \<leftarrow> chord cfg s i;
     rest \<leftarrow> keep_possible cfg s k is;
     Some (if k \<in> set keys then i # rest else rest) }"

definition key_held :: "candidate \<Rightarrow> logical \<Rightarrow> bool" where
  "key_held x key = (case gm_get (c_members x) key of None \<Rightarrow> False | Some p \<Rightarrow> gm_true (c_held x) p)"

text \<open>The first possible chord all of whose keys are held, with its keys.\<close>

fun first_complete :: "config \<Rightarrow> engine \<Rightarrow> candidate \<Rightarrow> nat list \<Rightarrow> (nat \<times> logical list) option option" where
  "first_complete cfg s x [] = Some None"
| "first_complete cfg s x (i # is) = do {
     keys \<leftarrow> chord cfg s i;
     if list_all (key_held x) keys then Some (Some (i, keys)) else first_complete cfg s x is }"

definition record_match :: "nat \<Rightarrow> logical list \<Rightarrow> candidate \<Rightarrow> candidate" where
  "record_match i keys x = x\<lparr>c_matched := Some i, c_broken := False,
     c_match_members := List.map_filter (gm_get (c_members x)) keys\<rparr>"

text \<open>The press becomes an owned, held member; the last non-modifier is the driver.\<close>

definition add_member :: "pid \<Rightarrow> logical \<Rightarrow> candidate \<Rightarrow> candidate" where
  "add_member p k x =
     (let x1 = x\<lparr>c_owned := c_owned x @ [p], c_members := gm_put k p (c_members x),
                 c_held := gm_put p True (c_held x)\<rparr>
      in if is_logical_modifier k then x1 else x1\<lparr>c_driver := Some p\<rparr>)"

text \<open>\<open>advance\<close> on a press that the candidate takes.\<close>

definition advance_press :: "config \<Rightarrow> pid \<Rightarrow> time \<Rightarrow> cid \<Rightarrow> engine \<Rightarrow> (bool \<times> engine) option" where
  "advance_press cfg p now c s = do {
     let k = p_logical (pr s p);
     let s1 = upd_cand c (add_member p k) s;
     possible \<leftarrow> keep_possible cfg s1 k (c_possible (e_cands s1 c));
     let s2 = upd_cand c (\<lambda>x. x\<lparr>c_possible := possible\<rparr>) s1;
     if possible = [] then do { s' \<leftarrow> fail s2; Some (False, s') }
     else do {
       let s3 = (if e_mode s2 = ModeReserved \<and> k \<notin> set (cfg_reserved_modifiers cfg)
                 then s2\<lparr>e_mode := ModePrefixCandidate,
                         e_deadline := Some (now + cfg_candidate_timeout cfg)\<rparr>
                 else s2);
       rematch \<leftarrow> (case c_matched (e_cands s3 c) of
          None \<Rightarrow> Some True
        | Some m \<Rightarrow>
            if e_mode s3 = ModeBindingCandidate then Some True
            else do { src \<leftarrow> slice_at (cfg_prefixes cfg) m; Some (src_mode src = Hold) });
       if \<not> rematch then Some (True, s3)
       else do {
         found \<leftarrow> first_complete cfg s3 (e_cands s3 c) (c_possible (e_cands s3 c));
         Some (True, (case found of None \<Rightarrow> s3
                      | Some (i, keys) \<Rightarrow> upd_cand c (record_match i keys) s3)) } } }"

text \<open>\<open>advance\<close> on a release: a held member goes up, and the candidate fails unless it has matched.\<close>

definition advance_release :: "transition \<Rightarrow> cid \<Rightarrow> bool \<Rightarrow> engine \<Rightarrow> (bool \<times> engine) option" where
  "advance_release tr c member s = do {
     let p = t_press tr;
     let s1 = (if member then
                 upd_cand c (\<lambda>x. let x1 = x\<lparr>c_held := gm_put p False (c_held x)\<rparr>
                   in if p \<in> set (c_match_members x1) then x1\<lparr>c_broken := True\<rparr> else x1) s
               else s);
     if (member \<or> t_count_after tr = 0) \<and> (c_matched (e_cands s1 c) = None \<or> \<not> member)
     then do { s' \<leftarrow> fail s1; Some (False, s') }
     else Some (True, s1) }"

definition advance :: "config \<Rightarrow> transition \<Rightarrow> time \<Rightarrow> engine \<Rightarrow> (bool \<times> engine) option" where
  "advance cfg tr now s =
     (case e_seq s of
        None \<Rightarrow> Some (True, s)
      | Some c \<Rightarrow>
          let p = t_press tr; x = e_cands s c;
              member = (gm_get (c_members x) (p_logical (pr s p)) = Some p)
          in if p_route (pr s p) = Consumed \<and> \<not> member then Some (True, s)
             else if e_mode s = ModeReserved \<and>
                     (t_value tr = 0 \<and> c_matched x = None \<or> p_route (pr s p) = Forwarded)
               then do { s' \<leftarrow> fail s; Some (False, s') }
             else if t_value tr = 2 then Some (True, s)
             else if t_value tr = 1 then
               (if p_route (pr s p) \<noteq> Undecided \<or> t_count_after tr \<noteq> 1
                then do { s' \<leftarrow> fail s; Some (False, s') }
                else advance_press cfg p now c s)
             else if t_value tr = 0 then advance_release tr c member s
             else Some (True, s))"

section \<open>Completing a candidate\<close>

text \<open>The down modifiers among the members: \<open>carry\<close> after a prefix.\<close>

definition down_modifiers :: "engine \<Rightarrow> candidate \<Rightarrow> (logical \<times> pid) list" where
  "down_modifiers s x = filter (\<lambda>(k, p). is_logical_modifier k \<and> p_down (pr s p)) (c_members x)"

definition complete :: "config \<Rightarrow> time \<Rightarrow> engine \<Rightarrow> engine option" where
  "complete cfg now s =
     (case e_seq s of
        None \<Rightarrow> Some s
      | Some c \<Rightarrow>
          (case c_matched (e_cands s c) of
             None \<Rightarrow> Some s
           | Some m \<Rightarrow>
               if e_mode s = ModeBindingCandidate then
                 (if list_ex (\<lambda>(k, p). gm_true (c_held (e_cands s c)) p) (c_members (e_cands s c))
                  then Some s
                  else do {
                    src \<leftarrow> prefix_at cfg (e_active_prefix s);
                    b \<leftarrow> slice_at (src_bindings src) m;
                    s1 \<leftarrow> resolve Consumed s;
                    Some (queue_output (EmitAction (b_action b)) (idle s1)) })
               else do {
                 src \<leftarrow> slice_at (cfg_prefixes cfg) m;
                 if src_mode src \<noteq> Hold \<and>
                    list_ex (\<lambda>(k, p). \<not> is_logical_modifier k \<and> gm_true (c_held (e_cands s c)) p)
                      (c_members (e_cands s c))
                 then Some s
                 else do {
                   s1 \<leftarrow> resolve Consumed s;
                   if src_mode src = Action then
                     Some (s1\<lparr>e_mode := ModeAwaitBinding, e_active_prefix := Some m, e_seq := None,
                       e_carry := fold (\<lambda>(k, p). gm_put k p) (down_modifiers s1 (e_cands s1 c)) [],
                       e_deadline := Some (now + cfg_sequence_timeout cfg)\<rparr>)
                   else do {
                     let s2 = s1\<lparr>e_reuse :=
                       fold (\<lambda>(k, p). gm_put p True) (down_modifiers s1 (e_cands s1 c)) (e_reuse s1)\<rparr>;
                     let s3 = idle s2;
                     Some (if src_mode src = Hold then activate c (src_target src) s3
                           else queue_output (key_output ''eakd-remap'' (src_target src) 0)
                                 (queue_output (key_output ''eakd-remap'' (src_target src) 1) s3)) } } }))"

end
