(* ===== verification/Engine_Steps.thy ===== *)
theory Engine_Steps
  imports Engine_Matcher
begin

text \<open>
  Package \<open>internal/engine\<close>, the operations the main loop calls: \<open>HandleFrame\<close>, \<open>HandleTimeout\<close>,
  \<open>Reconcile\<close>, \<open>Close\<close>, and \<open>drain\<close>, which turns decided journal frames into outputs.

  \<open>HandleFrame\<close> appends its frame \<open>f\<close> to the journal first and fills it while it ingests the events.
  Nothing reads the journal before the loop is over, and nothing is appended behind \<open>f\<close> before
  \<open>complete\<close>, so the model builds \<open>f\<close> in \<open>l_frame\<close> and appends it there.
\<close>

section \<open>Draining the journal\<close>

definition press_route :: "engine \<Rightarrow> pid option \<Rightarrow> disposition option" where
  "press_route s p = map_option (\<lambda>q. p_route (pr s q)) p"

definition frame_pending :: "engine \<Rightarrow> journal_frame \<Rightarrow> bool" where
  "frame_pending s f \<longleftrightarrow> list_ex (\<lambda>r. press_route s (r_press r) = Some Undecided) (j_events f)"

definition frame_has_key :: "journal_frame \<Rightarrow> bool" where
  "frame_has_key f \<longleftrightarrow> list_ex (\<lambda>r. ev_type (r_event r) = EVKey) (j_events f)"

definition frame_visible_key :: "engine \<Rightarrow> journal_frame \<Rightarrow> bool" where
  "frame_visible_key s f \<longleftrightarrow>
     list_ex (\<lambda>r. ev_type (r_event r) = EVKey \<and>
       (r_press r = None \<or> press_route s (r_press r) = Some Forwarded)) (j_events f)"

text \<open>Scan codes go with the keys of their frame: none is sent for a frame without a visible key,
  nor for a device that holds a consumed key.\<close>

definition drop_misc :: "engine \<Rightarrow> journal_frame \<Rightarrow> bool" where
  "drop_misc s f \<longleftrightarrow> j_drop_scan f \<or> frame_has_key f \<and> \<not> frame_visible_key s f \<or>
     \<not> frame_has_key f \<and>
       (case j_candidate f of None \<Rightarrow> False | Some c \<Rightarrow> c_route (e_cands s c) = Consumed)"

definition flush_events :: "device \<Rightarrow> event list \<Rightarrow> engine_output list" where
  "flush_events d evs =
     (if evs = [] then [] else [ForwardFrame \<lparr>fr_device = d, fr_events = evs @ [syn_event]\<rparr>])"

fun emit_events ::
    "engine \<Rightarrow> device \<Rightarrow> bool \<Rightarrow> event list \<Rightarrow> recorded_event list \<Rightarrow> engine_output list" where
  "emit_events s d nomisc acc [] = flush_events d acc"
| "emit_events s d nomisc acc (r # rs) =
     (case r_output r of
        Some out \<Rightarrow>
          (if (case r_repeat r of None \<Rightarrow> False | Some a \<Rightarrow> \<not> a_live (e_acts s a))
           then emit_events s d nomisc acc rs
           else flush_events d acc @ out # emit_events s d nomisc [] rs)
      | None \<Rightarrow>
          (if ev_type (r_event r) = EVSyn \<or> press_route s (r_press r) = Some Consumed
           then emit_events s d nomisc acc rs
           else if ev_type (r_event r) = EVMsc \<and> nomisc then emit_events s d nomisc acc rs
           else emit_events s d nomisc (acc @ [r_event r]) rs))"

definition frame_outputs :: "engine \<Rightarrow> journal_frame \<Rightarrow> engine_output list" where
  "frame_outputs s f = emit_events s (j_device f) (drop_misc s f) [] (j_events f)"

text \<open>The frames before the first one with an undecided press are sent, the others stay.\<close>

fun drain_frames :: "engine \<Rightarrow> journal_frame list \<Rightarrow> engine_output list \<times> journal_frame list" where
  "drain_frames s [] = ([], [])"
| "drain_frames s (f # fs) =
     (if frame_pending s f then ([], f # fs)
      else let (outs, rest) = drain_frames s fs in (frame_outputs s f @ outs, rest))"

definition drain :: "engine \<Rightarrow> engine_output list \<times> engine" where
  "drain s = (let (outs, rest) = drain_frames s (e_journal s) in (outs, s\<lparr>e_journal := rest\<rparr>))"

section \<open>Timeouts\<close>

definition expired :: "time \<Rightarrow> engine \<Rightarrow> bool" where
  "expired now s \<longleftrightarrow> (case e_deadline s of None \<Rightarrow> False | Some d \<Rightarrow> \<not> now < d)"

definition handle_timeout :: "time \<Rightarrow> engine \<Rightarrow> (engine_output list \<times> engine) option" where
  "handle_timeout now s = do {
     s1 \<leftarrow> (if expired now s then fail s else Some s);
     Some (drain s1) }"

section \<open>Frames\<close>

record frame_loop =
  l_eng :: engine
  l_frame :: journal_frame
  l_history :: "transition list"
  l_fresh :: "pid list"
  l_failed :: bool
  l_meaningful :: bool

fun advance_all :: "config \<Rightarrow> time \<Rightarrow> transition list \<Rightarrow> engine \<Rightarrow> (bool \<times> engine) option" where
  "advance_all cfg now [] s = Some (True, s)"
| "advance_all cfg now (tr # trs) s = do {
     (ok, s') \<leftarrow> advance cfg tr now s;
     if ok then advance_all cfg now trs s' else Some (False, s') }"

text \<open>A press can start a candidate: a source chord when idle, a binding after a prefix.\<close>

definition start_candidate :: "config \<Rightarrow> transition \<Rightarrow> time \<Rightarrow> engine \<Rightarrow> (bool \<times> engine) option" where
  "start_candidate cfg tr now s =
     (if t_value tr = 1 \<and> p_route (pr s (t_press tr)) = Undecided then
        (case e_mode s of
           ModeIdle \<Rightarrow> Some (start_source cfg (t_press tr) now s)
         | ModeAwaitBinding \<Rightarrow> do { s' \<leftarrow> start_binding cfg s; Some (True, s') }
         | _ \<Rightarrow> Some (False, s))
      else Some (False, s))"

text \<open>
  The matching part of the loop body, for a valid transition: start a candidate and replay the
  frame's earlier transitions on it, then advance it by this one.
\<close>

definition frame_match :: "config \<Rightarrow> transition \<Rightarrow> time \<Rightarrow> frame_loop \<Rightarrow> frame_loop option" where
  "frame_match cfg tr now L = do {
     (started, s1) \<leftarrow> start_candidate cfg tr now (l_eng L);
     (ok1, s2) \<leftarrow> (if started then advance_all cfg now (l_history L) s1 else Some (True, s1));
     (ok2, s3) \<leftarrow> (if ok1 \<and> e_seq s2 \<noteq> None then advance cfg tr now s2 else Some (ok1, s2));
     Some (L\<lparr>l_eng := s3,
             l_frame := (if started then (l_frame L)\<lparr>j_candidate := e_seq s1\<rparr> else l_frame L),
             l_history := l_history L @ [tr], l_failed := \<not> ok2\<rparr>) }"

definition fail_loop :: "frame_loop \<Rightarrow> frame_loop option" where
  "fail_loop L = do { s \<leftarrow> fail (l_eng L); Some (L\<lparr>l_eng := s, l_failed := True\<rparr>) }"

definition add_events :: "recorded_event list \<Rightarrow> frame_loop \<Rightarrow> frame_loop" where
  "add_events rs L = L\<lparr>l_frame := (l_frame L)\<lparr>j_events := j_events (l_frame L) @ rs\<rparr>\<rparr>"

definition hidden_chatter :: "event \<Rightarrow> pid option \<Rightarrow> bool \<Rightarrow> engine \<Rightarrow> bool" where
  "hidden_chatter ev p valid s \<longleftrightarrow> e_mode s = ModeReserved \<and>
     (case p of None \<Rightarrow> False | Some q \<Rightarrow> p_route (pr s q) \<noteq> Forwarded) \<and>
     (ev_value ev = 2 \<or> ev_value ev = 1 \<and> \<not> valid)"

definition is_payload :: "event \<Rightarrow> bool" where
  "is_payload ev \<longleftrightarrow> ev_type ev \<noteq> EVSyn \<and> ev_type ev \<noteq> EVMsc"

text \<open>
  One iteration of the loop over the frame's events, in three parts: the event is ingested and
  recorded, it ends or repeats held outputs, and it goes to the candidate.
\<close>

definition record_event ::
    "event \<Rightarrow> pid option \<Rightarrow> transition option \<Rightarrow> bool \<Rightarrow> frame_loop \<Rightarrow> frame_loop" where
  "record_event ev p tr chatter L =
     (let L1 = L\<lparr>l_fresh := (case (p, tr) of (Some q, Some _) \<Rightarrow>
                 if ev_value ev = 1 then l_fresh L @ [q] else l_fresh L | _ \<Rightarrow> l_fresh L),
               l_meaningful := (l_meaningful L \<or> is_payload ev \<and> \<not> chatter)\<rparr>
      in if chatter then L1 else add_events [recorded_input ev p] L1)"

definition held_outputs :: "transition option \<Rightarrow> frame_loop \<Rightarrow> frame_loop option" where
  "held_outputs tr L =
     (case tr of
        None \<Rightarrow> Some L
      | Some t \<Rightarrow> do {
          let (outs, s) = activation_events t (l_eng L);
          L' \<leftarrow> (if outs \<noteq> [] \<and> e_mode s = ModeReserved then fail_loop (L\<lparr>l_eng := s\<rparr>)
                 else Some (L\<lparr>l_eng := s\<rparr>));
          Some (add_events outs L') })"

definition frame_event ::
    "config \<Rightarrow> device \<Rightarrow> time \<Rightarrow> event \<Rightarrow> frame_loop \<Rightarrow> frame_loop option" where
  "frame_event cfg d now ev L = do {
     let (p, tr, s1) = ingest d ev (l_eng L);
     let chatter = hidden_chatter ev p (tr \<noteq> None) s1;
     L3 \<leftarrow> held_outputs tr (record_event ev p tr chatter (L\<lparr>l_eng := s1\<rparr>));
     if l_failed L3 then Some L3
     else if e_mode (l_eng L3) = ModeReserved \<and> \<not> chatter \<and> is_payload ev \<and>
             (tr = None \<or> press_route (l_eng L3) p = Some Forwarded)
       then fail_loop L3
     else (case tr of None \<Rightarrow> Some L3 | Some t \<Rightarrow> frame_match cfg t now L3) }"

fun frame_events ::
    "config \<Rightarrow> device \<Rightarrow> time \<Rightarrow> event list \<Rightarrow> frame_loop \<Rightarrow> frame_loop option" where
  "frame_events cfg d now [] L = Some L"
| "frame_events cfg d now (ev # evs) L = do {
     L' \<leftarrow> frame_event cfg d now ev L; frame_events cfg d now evs L' }"

text \<open>Ordinary presses cannot become candidates in a later frame.\<close>

fun forward_fresh :: "pid list \<Rightarrow> engine \<Rightarrow> engine" where
  "forward_fresh [] s = s"
| "forward_fresh (p # ps) s =
     forward_fresh ps
       (if p_route (pr s p) = Undecided \<and>
           (case e_seq s of None \<Rightarrow> True | Some c \<Rightarrow> p \<notin> set (c_owned (e_cands s c)))
        then set_route Forwarded p s else s)"

text \<open>A recorded event that a reservation must not hold back.\<close>

definition escapes_reservation :: "engine \<Rightarrow> recorded_event \<Rightarrow> bool" where
  "escapes_reservation s r \<longleftrightarrow> r_output r \<noteq> None \<or>
     is_payload (r_event r) \<and> (r_press r = None \<or> press_route s (r_press r) = Some Forwarded)"

text \<open>What \<open>HandleFrame\<close> does after the loop, up to the final drain.\<close>

definition finish_frame :: "config \<Rightarrow> time \<Rightarrow> frame_loop \<Rightarrow> engine option" where
  "finish_frame cfg now L = do {
     L1 \<leftarrow> (if e_mode (l_eng L) = ModeReserved \<and>
              list_ex (escapes_reservation (l_eng L)) (j_events (l_frame L))
            then fail_loop L else Some L);
     let s1 = (l_eng L1)\<lparr>e_journal := e_journal (l_eng L1) @ [l_frame L1]\<rparr>;
     s2 \<leftarrow> (if l_failed L1 then Some s1 else complete cfg now s1);
     let s3 = forward_fresh (l_fresh L1) s2;
     Some (if e_mode s3 = ModeReserved \<and> \<not> l_meaningful L1
           then s3\<lparr>e_journal := butlast (e_journal s3)\<rparr> else s3) }"

definition new_loop :: "device \<Rightarrow> engine \<Rightarrow> frame_loop" where
  "new_loop d s = \<lparr>l_eng = s,
     l_frame = \<lparr>j_device = d, j_events = [],
       j_drop_scan = list_ex (\<lambda>(c, p). p_route (pr s p) = Consumed) (phys_dev s d),
       j_candidate = e_seq s\<rparr>,
     l_history = [], l_fresh = [], l_failed = False, l_meaningful = False\<rparr>"

definition handle_frame :: "config \<Rightarrow> frame \<Rightarrow> time \<Rightarrow> engine \<Rightarrow> (engine_output list \<times> engine) option" where
  "handle_frame cfg fr now s = do {
     (outs1, s1) \<leftarrow> handle_timeout now s;
     L \<leftarrow> frame_events cfg (fr_device fr) now (fr_events fr) (new_loop (fr_device fr) s1);
     s2 \<leftarrow> finish_frame cfg now L;
     let (outs2, s3) = drain s2;
     Some (outs1 @ outs2, s3) }"

section \<open>Resynchronisation\<close>

definition drop_inputs :: "journal_frame \<Rightarrow> journal_frame" where
  "drop_inputs f = f\<lparr>j_events := filter (\<lambda>r. r_output r \<noteq> None) (j_events f)\<rparr>"

definition uses_device :: "engine \<Rightarrow> device \<Rightarrow> aid \<Rightarrow> bool" where
  "uses_device s d a \<longleftrightarrow> list_ex (\<lambda>p. p_device (pr s p) = d) (a_members (e_acts s a))"

text \<open>Codes the snapshot reports down, lowest first: adopt unknown presses as forwarded, and
  collect those the consumer may see.\<close>

definition adopt_code :: "device \<Rightarrow> u16 \<Rightarrow> engine \<Rightarrow> pid \<times> engine" where
  "adopt_code d c s =
     (let (p, s1) = (case phys s d c of
                       Some p \<Rightarrow> (p, s)
                     | None \<Rightarrow> (case ingest d (key_event c 1) s of (q, _, s') \<Rightarrow> (the q, s')))
      in (p, if p_route (pr s1 p) = Undecided then set_route Forwarded p s1 else s1))"

fun adopt_codes ::
    "device \<Rightarrow> u16 list \<Rightarrow> (u16, bool) gomap \<Rightarrow> engine \<Rightarrow> (u16, bool) gomap \<times> engine" where
  "adopt_codes d [] visible s = (visible, s)"
| "adopt_codes d (c # cs) visible s =
     (let (p, s') = adopt_code d c s
      in adopt_codes d cs (if p_route (pr s' p) = Forwarded then gm_put c True visible else visible) s')"

text \<open>The held outputs a press on the device takes part in, and their end.\<close>

definition ended_by :: "device \<Rightarrow> engine \<Rightarrow> aid list" where
  "ended_by d s = filter (uses_device s d) (e_active s)"

definition end_activations :: "aid list \<Rightarrow> engine \<Rightarrow> engine" where
  "end_activations ended s =
     (let s1 = fold (\<lambda>a. upd_act a (\<lambda>x. x\<lparr>a_live := False\<rparr>)) ended s
      in s1\<lparr>e_active := filter (\<lambda>a. a_live (e_acts s1 a)) (e_active s1)\<rparr>)"

definition drop_device_inputs :: "device \<Rightarrow> engine \<Rightarrow> engine" where
  "drop_device_inputs d s =
     s\<lparr>e_journal := map (\<lambda>f. if j_device f = d then drop_inputs f else f) (e_journal s)\<rparr>"

definition release_missing :: "device \<Rightarrow> (u16, bool) gomap \<Rightarrow> engine \<Rightarrow> engine" where
  "release_missing d pressed s =
     fold (\<lambda>(c, p) s. if gm_true pressed c then s else release p s) (phys_dev s d) s"

definition reconcile ::
    "device \<Rightarrow> (u16, bool) gomap \<Rightarrow> engine \<Rightarrow> (engine_output list \<times> engine) option" where
  "reconcile d pressed s = do {
     s1 \<leftarrow> fail s;
     let ended = ended_by d s1;
     let (outs1, s2) = drain (drop_device_inputs d (end_activations ended s1));
     let s3 = release_missing d pressed (fold stop_activation ended s2);
     let codes = sort (filter (gm_true pressed) (gm_keys pressed));
     let (visible, s4) = adopt_codes d codes [] s3;
     let (outs2, s5) = drain (queue_output (ReconcileDevice d visible) s4);
     Some (outs1 @ outs2, s5) }"

section \<open>Shutdown\<close>

definition keep_on_close :: "recorded_event \<Rightarrow> bool" where
  "keep_on_close r \<longleftrightarrow> \<not> (r_output r = None \<and>
     (ev_type (r_event r) \<noteq> EVKey \<or> ev_value (r_event r) \<noteq> 0))"

definition drop_presses :: "engine \<Rightarrow> engine" where
  "drop_presses s = s\<lparr>e_journal :=
     map (\<lambda>f. f\<lparr>j_events := filter keep_on_close (j_events f)\<rparr>) (e_journal s)\<rparr>"

definition close_device :: "device \<Rightarrow> engine \<Rightarrow> engine" where
  "close_device d s =
     queue_output (ReconcileDevice d []) (fold (\<lambda>(c, p). release p) (phys_dev s d) s)"

definition close_engine :: "engine \<Rightarrow> (engine_output list \<times> engine) option" where
  "close_engine s = do {
     s1 \<leftarrow> fail s;
     let s2 = (fold stop_activation (e_active s1) (drop_presses s1))\<lparr>e_active := []\<rparr>;
     Some (drain (fold close_device (sort (gm_keys (e_physical s2))) s2)) }"

section \<open>The engine as a machine\<close>

datatype engine_input =
    FrameIn frame time
  | TimeoutIn time
  | ReconcileIn device "(u16, bool) gomap"
  | CloseIn

fun engine_step :: "config \<Rightarrow> engine_input \<Rightarrow> engine \<Rightarrow> (engine_output list \<times> engine) option" where
  "engine_step cfg (FrameIn fr now) s = handle_frame cfg fr now s"
| "engine_step cfg (TimeoutIn now) s = handle_timeout now s"
| "engine_step cfg (ReconcileIn d pressed) s = reconcile d pressed s"
| "engine_step cfg CloseIn s = close_engine s"

text \<open>A run of the engine from \<open>New\<close>.\<close>

definition engine_run :: "config \<Rightarrow> engine_input list \<Rightarrow> (engine_output list \<times> engine) option" where
  "engine_run cfg ins = run_steps (engine_step cfg) ins new_engine"

end
