(* ===== verification/Engine_Safety.thy ===== *)
theory Engine_Safety
  imports Engine_Steps
begin

text \<open>
  The engine never panics.  \<open>safe\<close> is the invariant: the presses a candidate owns are pairwise
  different and undecided, so \<open>resolve\<close> does not meet a press with a disposition, and the indices
  the candidate and the mode keep are in the range of the configuration's slices.  It holds for
  every configuration and every sequence of inputs; nothing is assumed of either.
\<close>

section \<open>What the small operations leave alone\<close>

lemma upd_press_frame [simp]:
  "e_physical (upd_press p f s) = e_physical s"
  "e_count (upd_press p f s) = e_count s"
  "e_next_id (upd_press p f s) = e_next_id s"
  "e_mode (upd_press p f s) = e_mode s"
  "e_seq (upd_press p f s) = e_seq s"
  "e_active_prefix (upd_press p f s) = e_active_prefix s"
  "e_carry (upd_press p f s) = e_carry s"
  "e_reuse (upd_press p f s) = e_reuse s"
  "e_deadline (upd_press p f s) = e_deadline s"
  "e_journal (upd_press p f s) = e_journal s"
  "e_active (upd_press p f s) = e_active s"
  "e_next_activation (upd_press p f s) = e_next_activation s"
  "e_cands (upd_press p f s) = e_cands s"
  "e_next_cand (upd_press p f s) = e_next_cand s"
  "e_acts (upd_press p f s) = e_acts s"
  by (simp_all add: upd_press_def)

lemma upd_cand_frame [simp]:
  "e_physical (upd_cand c f s) = e_physical s"
  "e_count (upd_cand c f s) = e_count s"
  "e_next_id (upd_cand c f s) = e_next_id s"
  "e_mode (upd_cand c f s) = e_mode s"
  "e_seq (upd_cand c f s) = e_seq s"
  "e_active_prefix (upd_cand c f s) = e_active_prefix s"
  "e_carry (upd_cand c f s) = e_carry s"
  "e_reuse (upd_cand c f s) = e_reuse s"
  "e_deadline (upd_cand c f s) = e_deadline s"
  "e_journal (upd_cand c f s) = e_journal s"
  "e_active (upd_cand c f s) = e_active s"
  "e_next_activation (upd_cand c f s) = e_next_activation s"
  "e_presses (upd_cand c f s) = e_presses s"
  "e_next_cand (upd_cand c f s) = e_next_cand s"
  "e_acts (upd_cand c f s) = e_acts s"
  by (simp_all add: upd_cand_def)

lemma upd_act_frame [simp]:
  "e_physical (upd_act a f s) = e_physical s"
  "e_count (upd_act a f s) = e_count s"
  "e_next_id (upd_act a f s) = e_next_id s"
  "e_mode (upd_act a f s) = e_mode s"
  "e_seq (upd_act a f s) = e_seq s"
  "e_active_prefix (upd_act a f s) = e_active_prefix s"
  "e_carry (upd_act a f s) = e_carry s"
  "e_reuse (upd_act a f s) = e_reuse s"
  "e_deadline (upd_act a f s) = e_deadline s"
  "e_journal (upd_act a f s) = e_journal s"
  "e_active (upd_act a f s) = e_active s"
  "e_next_activation (upd_act a f s) = e_next_activation s"
  "e_presses (upd_act a f s) = e_presses s"
  "e_cands (upd_act a f s) = e_cands s"
  "e_next_cand (upd_act a f s) = e_next_cand s"
  by (simp_all add: upd_act_def)

lemma set_route_frame [simp]:
  "e_physical (set_route r p s) = e_physical s"
  "e_count (set_route r p s) = e_count s"
  "e_next_id (set_route r p s) = e_next_id s"
  "e_mode (set_route r p s) = e_mode s"
  "e_seq (set_route r p s) = e_seq s"
  "e_active_prefix (set_route r p s) = e_active_prefix s"
  "e_carry (set_route r p s) = e_carry s"
  "e_reuse (set_route r p s) = e_reuse s"
  "e_deadline (set_route r p s) = e_deadline s"
  "e_journal (set_route r p s) = e_journal s"
  "e_active (set_route r p s) = e_active s"
  "e_next_activation (set_route r p s) = e_next_activation s"
  "e_cands (set_route r p s) = e_cands s"
  "e_next_cand (set_route r p s) = e_next_cand s"
  "e_acts (set_route r p s) = e_acts s"
  by (simp_all add: set_route_def)

lemma release_frame [simp]:
  "e_next_id (release p s) = e_next_id s"
  "e_mode (release p s) = e_mode s"
  "e_seq (release p s) = e_seq s"
  "e_active_prefix (release p s) = e_active_prefix s"
  "e_deadline (release p s) = e_deadline s"
  "e_journal (release p s) = e_journal s"
  "e_active (release p s) = e_active s"
  "e_next_activation (release p s) = e_next_activation s"
  "e_cands (release p s) = e_cands s"
  "e_next_cand (release p s) = e_next_cand s"
  "e_acts (release p s) = e_acts s"
  by (simp_all add: release_def Let_def split: option.splits)

lemma new_press_frame [simp]:
  "e_mode (snd (new_press d c s)) = e_mode s"
  "e_seq (snd (new_press d c s)) = e_seq s"
  "e_active_prefix (snd (new_press d c s)) = e_active_prefix s"
  "e_carry (snd (new_press d c s)) = e_carry s"
  "e_reuse (snd (new_press d c s)) = e_reuse s"
  "e_deadline (snd (new_press d c s)) = e_deadline s"
  "e_journal (snd (new_press d c s)) = e_journal s"
  "e_active (snd (new_press d c s)) = e_active s"
  "e_next_activation (snd (new_press d c s)) = e_next_activation s"
  "e_cands (snd (new_press d c s)) = e_cands s"
  "e_next_cand (snd (new_press d c s)) = e_next_cand s"
  "e_acts (snd (new_press d c s)) = e_acts s"
  by (simp_all add: new_press_def Let_def)

lemma queue_output_frame [simp]:
  "e_physical (queue_output out s) = e_physical s"
  "e_count (queue_output out s) = e_count s"
  "e_next_id (queue_output out s) = e_next_id s"
  "e_mode (queue_output out s) = e_mode s"
  "e_seq (queue_output out s) = e_seq s"
  "e_active_prefix (queue_output out s) = e_active_prefix s"
  "e_carry (queue_output out s) = e_carry s"
  "e_reuse (queue_output out s) = e_reuse s"
  "e_deadline (queue_output out s) = e_deadline s"
  "e_active (queue_output out s) = e_active s"
  "e_next_activation (queue_output out s) = e_next_activation s"
  "e_presses (queue_output out s) = e_presses s"
  "e_cands (queue_output out s) = e_cands s"
  "e_next_cand (queue_output out s) = e_next_cand s"
  "e_acts (queue_output out s) = e_acts s"
  by (simp_all add: queue_output_def)

lemma idle_frame [simp]:
  "e_physical (idle s) = e_physical s"
  "e_count (idle s) = e_count s"
  "e_next_id (idle s) = e_next_id s"
  "e_reuse (idle s) = e_reuse s"
  "e_journal (idle s) = e_journal s"
  "e_active (idle s) = e_active s"
  "e_next_activation (idle s) = e_next_activation s"
  "e_presses (idle s) = e_presses s"
  "e_cands (idle s) = e_cands s"
  "e_next_cand (idle s) = e_next_cand s"
  "e_acts (idle s) = e_acts s"
  by (simp_all add: idle_def)

lemma stop_activation_frame [simp]:
  "e_physical (stop_activation a s) = e_physical s"
  "e_count (stop_activation a s) = e_count s"
  "e_next_id (stop_activation a s) = e_next_id s"
  "e_mode (stop_activation a s) = e_mode s"
  "e_seq (stop_activation a s) = e_seq s"
  "e_active_prefix (stop_activation a s) = e_active_prefix s"
  "e_carry (stop_activation a s) = e_carry s"
  "e_reuse (stop_activation a s) = e_reuse s"
  "e_deadline (stop_activation a s) = e_deadline s"
  "e_active (stop_activation a s) = e_active s"
  "e_next_activation (stop_activation a s) = e_next_activation s"
  "e_presses (stop_activation a s) = e_presses s"
  "e_cands (stop_activation a s) = e_cands s"
  "e_next_cand (stop_activation a s) = e_next_cand s"
  by (simp_all add: stop_activation_def Let_def)

lemma activate_frame [simp]:
  "e_physical (activate c k s) = e_physical s"
  "e_count (activate c k s) = e_count s"
  "e_next_id (activate c k s) = e_next_id s"
  "e_mode (activate c k s) = e_mode s"
  "e_seq (activate c k s) = e_seq s"
  "e_active_prefix (activate c k s) = e_active_prefix s"
  "e_carry (activate c k s) = e_carry s"
  "e_reuse (activate c k s) = e_reuse s"
  "e_deadline (activate c k s) = e_deadline s"
  "e_presses (activate c k s) = e_presses s"
  "e_cands (activate c k s) = e_cands s"
  "e_next_cand (activate c k s) = e_next_cand s"
  by (simp_all add: activate_def Let_def)

lemma alloc_candidate_frame [simp]:
  "e_physical (alloc_candidate x s) = e_physical s"
  "e_count (alloc_candidate x s) = e_count s"
  "e_next_id (alloc_candidate x s) = e_next_id s"
  "e_mode (alloc_candidate x s) = e_mode s"
  "e_active_prefix (alloc_candidate x s) = e_active_prefix s"
  "e_carry (alloc_candidate x s) = e_carry s"
  "e_reuse (alloc_candidate x s) = e_reuse s"
  "e_deadline (alloc_candidate x s) = e_deadline s"
  "e_journal (alloc_candidate x s) = e_journal s"
  "e_active (alloc_candidate x s) = e_active s"
  "e_next_activation (alloc_candidate x s) = e_next_activation s"
  "e_presses (alloc_candidate x s) = e_presses s"
  "e_acts (alloc_candidate x s) = e_acts s"
  by (simp_all add: alloc_candidate_def)

lemma upd_press_presses [simp]:
  "e_presses (upd_press p f s) = (e_presses s)(p := f (e_presses s p))"
  by (simp add: upd_press_def)

lemma upd_cand_cands [simp]: "e_cands (upd_cand c f s) = (e_cands s)(c := f (e_cands s c))"
  by (simp add: upd_cand_def)

lemma upd_act_acts [simp]: "e_acts (upd_act a f s) = (e_acts s)(a := f (e_acts s a))"
  by (simp add: upd_act_def)

lemma set_route_presses [simp]:
  "e_presses (set_route r p s) = (e_presses s)(p := (e_presses s p)\<lparr>p_route := r\<rparr>)"
  by (simp add: set_route_def)

lemma idle_fields [simp]:
  "e_mode (idle s) = ModeIdle" "e_seq (idle s) = None" "e_active_prefix (idle s) = None"
  "e_carry (idle s) = []" "e_deadline (idle s) = None"
  by (simp_all add: idle_def)

lemma alloc_candidate_fields [simp]:
  "e_seq (alloc_candidate x s) = Some (e_next_cand s)"
  "e_cands (alloc_candidate x s) = (e_cands s)(e_next_cand s := x)"
  "e_next_cand (alloc_candidate x s) = Suc (e_next_cand s)"
  by (simp_all add: alloc_candidate_def)

lemma release_presses [simp]:
  "e_presses (release p s) = (e_presses s)(p := (e_presses s p)\<lparr>p_down := False\<rparr>)"
  by (simp add: release_def Let_def split: option.splits)

lemma new_press_fields [simp]:
  "fst (new_press d c s) = Suc (e_next_id s)"
  "e_next_id (snd (new_press d c s)) = Suc (e_next_id s)"
  "e_presses (snd (new_press d c s)) = (e_presses s)(Suc (e_next_id s) :=
     \<lparr>p_device = d, p_code = c, p_logical = canonical c, p_down = True, p_route = Undecided\<rparr>)"
  by (simp_all add: new_press_def Let_def)

lemma new_candidate_fields [simp]:
  "c_possible (new_candidate is b s) = is" "c_matched (new_candidate is b s) = None"
  "c_owned (new_candidate is b s) = []" "c_match_members (new_candidate is b s) = []"
  "c_driver (new_candidate is b s) = None" "c_broken (new_candidate is b s) = False"
  "c_route (new_candidate is b s) = Undecided"
  by (simp_all add: new_candidate_def no_candidate_def Let_def)

lemma add_member_fields [simp]:
  "c_possible (add_member p k x) = c_possible x" "c_matched (add_member p k x) = c_matched x"
  "c_owned (add_member p k x) = c_owned x @ [p]"
  "c_members (add_member p k x) = gm_put k p (c_members x)"
  "c_held (add_member p k x) = gm_put p True (c_held x)"
  "c_match_members (add_member p k x) = c_match_members x"
  "c_broken (add_member p k x) = c_broken x" "c_route (add_member p k x) = c_route x"
  by (simp_all add: add_member_def Let_def)

lemma record_match_fields [simp]:
  "c_possible (record_match i ks x) = c_possible x" "c_matched (record_match i ks x) = Some i"
  "c_owned (record_match i ks x) = c_owned x" "c_members (record_match i ks x) = c_members x"
  "c_held (record_match i ks x) = c_held x" "c_driver (record_match i ks x) = c_driver x"
  "c_broken (record_match i ks x) = False" "c_route (record_match i ks x) = c_route x"
  by (simp_all add: record_match_def)

section \<open>The invariant\<close>

definition owned_of :: "engine \<Rightarrow> pid list" where
  "owned_of s = (case e_seq s of None \<Rightarrow> [] | Some c \<Rightarrow> c_owned (e_cands s c))"

lemma owned_of_cong: "e_seq s' = e_seq s \<Longrightarrow> e_cands s' = e_cands s \<Longrightarrow> owned_of s' = owned_of s"
  by (simp add: owned_of_def split: option.split)

text \<open>The number of chords the indices of a candidate range over.\<close>

definition chord_count :: "config \<Rightarrow> engine \<Rightarrow> nat" where
  "chord_count cfg s =
     (if e_mode s = ModeBindingCandidate then
        (case prefix_at cfg (e_active_prefix s) of None \<Rightarrow> 0 | Some src \<Rightarrow> length (src_bindings src))
      else length (cfg_prefixes cfg))"

definition indices_ok :: "config \<Rightarrow> engine \<Rightarrow> bool" where
  "indices_ok cfg s \<longleftrightarrow> (case e_seq s of
      None \<Rightarrow> e_mode s \<in> {ModeIdle, ModeAwaitBinding}
    | Some c \<Rightarrow> e_mode s \<in> {ModeReserved, ModePrefixCandidate, ModeBindingCandidate} \<and>
        (\<forall>i\<in>set (c_possible (e_cands s c)). i < chord_count cfg s) \<and>
        (\<forall>i. c_matched (e_cands s c) = Some i \<longrightarrow> i < chord_count cfg s))"

definition prefix_ok :: "config \<Rightarrow> engine \<Rightarrow> bool" where
  "prefix_ok cfg s \<longleftrightarrow> (e_mode s \<in> {ModeAwaitBinding, ModeBindingCandidate} \<longrightarrow>
     prefix_at cfg (e_active_prefix s) \<noteq> None)"

text \<open>A deadline is pending exactly while the engine waits for keys it must not wait for forever.\<close>

definition deadline_ok :: "engine \<Rightarrow> bool" where
  "deadline_ok s \<longleftrightarrow> (e_deadline s = None \<longleftrightarrow> e_mode s \<in> {ModeIdle, ModeReserved})"

definition owned_ok :: "engine \<Rightarrow> bool" where
  "owned_ok s \<longleftrightarrow> distinct (owned_of s) \<and>
     (\<forall>p\<in>set (owned_of s). p_route (pr s p) = Undecided \<and> p \<le> e_next_id s)"

definition safe :: "config \<Rightarrow> engine \<Rightarrow> bool" where
  "safe cfg s \<longleftrightarrow> indices_ok cfg s \<and> prefix_ok cfg s \<and> deadline_ok s \<and> owned_ok s"

lemma safe_new: "safe cfg new_engine"
  by (simp add: safe_def indices_ok_def prefix_ok_def deadline_ok_def owned_ok_def owned_of_def
      new_engine_def)

text \<open>\<open>safe\<close> reads these fields only.\<close>

lemma safe_cong:
  assumes "e_seq s' = e_seq s" "e_mode s' = e_mode s" "e_active_prefix s' = e_active_prefix s"
    "e_cands s' = e_cands s" "e_deadline s' = e_deadline s" "e_next_id s \<le> e_next_id s'"
    "\<And>p. p \<in> set (owned_of s) \<Longrightarrow> p_route (pr s' p) = p_route (pr s p)"
  shows "safe cfg s \<Longrightarrow> safe cfg s'"
proof -
  have "owned_of s' = owned_of s" using assms(1,4) by (simp add: owned_of_def split: option.split)
  moreover assume "safe cfg s"
  ultimately show ?thesis
    using assms unfolding safe_def indices_ok_def prefix_ok_def deadline_ok_def owned_ok_def chord_count_def
    by (auto split: option.splits)
qed

section \<open>Resolving and failing\<close>

definition route_all :: "disposition \<Rightarrow> pid list \<Rightarrow> engine \<Rightarrow> engine" where
  "route_all r ps s = s\<lparr>e_presses := (\<lambda>p. if p \<in> set ps then (pr s p)\<lparr>p_route := r\<rparr> else pr s p)\<rparr>"

lemma resolve_presses_ok:
  "distinct ps \<Longrightarrow> \<forall>p\<in>set ps. p_route (pr s p) = Undecided \<Longrightarrow>
     resolve_presses r ps s = Some (route_all r ps s)"
proof (induction ps arbitrary: s)
  case (Cons p ps)
  then have "resolve_presses r (p # ps) s = Some (route_all r ps (set_route r p s))" by simp
  also have "route_all r ps (set_route r p s) = route_all r (p # ps) s"
    using Cons.prems(1) by (auto simp: route_all_def set_route_def upd_press_def fun_eq_iff)
  finally show ?case .
qed (simp add: route_all_def)

definition resolved :: "disposition \<Rightarrow> engine \<Rightarrow> engine" where
  "resolved r s = (case e_seq s of None \<Rightarrow> s
     | Some c \<Rightarrow> upd_cand c (\<lambda>x. x\<lparr>c_route := r\<rparr>) (route_all r (owned_of s) s))"

lemma resolve_ok: "owned_ok s \<Longrightarrow> resolve r s = Some (resolved r s)"
  by (auto simp: resolve_def resolved_def owned_ok_def owned_of_def resolve_presses_ok
      split: option.splits)

lemma fail_ok: "owned_ok s \<Longrightarrow> fail s = Some (idle (resolved Forwarded s))"
  by (simp add: fail_def resolve_ok)

lemma resolved_fields [simp]:
  "e_seq (resolved r s) = e_seq s" "e_mode (resolved r s) = e_mode s"
  "e_active_prefix (resolved r s) = e_active_prefix s" "e_next_id (resolved r s) = e_next_id s"
  "e_physical (resolved r s) = e_physical s" "e_count (resolved r s) = e_count s"
  "e_carry (resolved r s) = e_carry s" "e_reuse (resolved r s) = e_reuse s"
  "e_deadline (resolved r s) = e_deadline s" "e_journal (resolved r s) = e_journal s"
  "e_active (resolved r s) = e_active s" "e_acts (resolved r s) = e_acts s"
  "e_next_activation (resolved r s) = e_next_activation s" "e_next_cand (resolved r s) = e_next_cand s"
  by (simp_all add: resolved_def route_all_def split: option.splits)

lemma resolved_presses:
  "e_presses (resolved r s) =
     (\<lambda>p. if p \<in> set (owned_of s) then (pr s p)\<lparr>p_route := r\<rparr> else pr s p)"
  by (auto simp: resolved_def route_all_def owned_of_def fun_eq_iff split: option.splits)

lemma resolved_cands:
  "e_cands (resolved r s) = (case e_seq s of None \<Rightarrow> e_cands s
     | Some c \<Rightarrow> (e_cands s)(c := (e_cands s c)\<lparr>c_route := r\<rparr>))"
  by (simp add: resolved_def route_all_def split: option.splits)

text \<open>The state after a failed candidate: its presses are forwarded and the mode is idle.\<close>

definition failed :: "engine \<Rightarrow> engine" where
  "failed s = idle (resolved Forwarded s)"

lemma fail_failed: "safe cfg s \<Longrightarrow> fail s = Some (failed s)"
  by (simp add: fail_ok failed_def safe_def)

lemma failed_fields [simp]:
  "e_seq (failed s) = None" "e_mode (failed s) = ModeIdle" "e_active_prefix (failed s) = None"
  "e_carry (failed s) = []" "e_deadline (failed s) = None" "e_next_id (failed s) = e_next_id s"
  "e_physical (failed s) = e_physical s" "e_count (failed s) = e_count s"
  "e_reuse (failed s) = e_reuse s" "e_journal (failed s) = e_journal s"
  "e_active (failed s) = e_active s" "e_acts (failed s) = e_acts s"
  "e_next_activation (failed s) = e_next_activation s" "e_next_cand (failed s) = e_next_cand s"
  "e_cands (failed s) = e_cands (resolved Forwarded s)"
  "e_presses (failed s) = e_presses (resolved Forwarded s)"
  by (simp_all add: failed_def)

lemma no_candidate_safe:
  "e_seq s = None \<Longrightarrow> e_mode s = ModeIdle \<and> e_deadline s = None \<or>
     e_mode s = ModeAwaitBinding \<and> e_deadline s \<noteq> None \<and> prefix_at cfg (e_active_prefix s) \<noteq> None \<Longrightarrow>
     safe cfg s"
  by (auto simp: safe_def indices_ok_def prefix_ok_def deadline_ok_def owned_ok_def owned_of_def)

lemma safe_failed [simp]: "safe cfg (failed s)"
  by (rule no_candidate_safe) simp_all

section \<open>What matching may change\<close>

text \<open>It appends generated outputs to the journal, and nothing else.\<close>

definition generated :: "journal_frame \<Rightarrow> bool" where
  "generated f \<longleftrightarrow> (\<exists>out. j_events f = [recorded_output out None])"

definition appends :: "engine \<Rightarrow> engine \<Rightarrow> bool" where
  "appends s s' \<longleftrightarrow> (\<exists>fs. e_journal s' = e_journal s @ fs \<and> (\<forall>f\<in>set fs. generated f))"

lemma appends_same: "e_journal s' = e_journal s \<Longrightarrow> appends s s'"
  by (auto simp: appends_def)

lemma appends_cong: "appends s s' \<Longrightarrow> e_journal s'' = e_journal s' \<Longrightarrow> appends s s''"
  by (simp add: appends_def)

lemma appends_trans: "appends s s' \<Longrightarrow> appends s' s'' \<Longrightarrow> appends s s''"
  unfolding appends_def by fastforce

lemma appends_queue_output: "appends s (queue_output out s)"
  by (auto simp: appends_def queue_output_def generated_def)

lemma appends_stop_activation: "appends s (stop_activation a s)"
proof -
  have "appends s (upd_act a f s)" for f by (rule appends_same) simp
  then show ?thesis
    unfolding stop_activation_def Let_def by (blast intro: appends_trans appends_queue_output)
qed

lemma appends_activate: "appends s (activate c k s)"
proof -
  let ?a = "Suc (e_next_activation s)"
  define s1 where "s1 = s\<lparr>e_next_activation := ?a, e_acts := (e_acts s)(?a :=
    \<lparr>a_device = activation_device ?a, a_target = k, a_members = c_match_members (e_cands s c),
     a_driver = c_driver (e_cands s c), a_live = True\<rparr>)\<rparr>"
  define s2 where "s2 = queue_output (key_output (activation_device ?a) k 1) s1"
  have "appends s s1" by (rule appends_same) (simp add: s1_def)
  then have 2: "appends s s2" unfolding s2_def by (blast intro: appends_trans appends_queue_output)
  have "appends s (stop_activation ?a s2)" "appends s (s2\<lparr>e_active := as\<rparr>)" for as
    using appends_trans[OF 2 appends_stop_activation] appends_cong[OF 2] by simp_all
  then show ?thesis by (simp add: activate_def Let_def s1_def[symmetric] s2_def[symmetric])
qed

text \<open>
  Matching leaves the physical state alone, and of a press it changes the route only, once, from
  undecided; a press the candidate owned is still owned or has been decided.
\<close>

definition follows :: "engine \<Rightarrow> engine \<Rightarrow> bool" where
  "follows s s' \<longleftrightarrow>
     e_physical s' = e_physical s \<and> e_count s' = e_count s \<and> e_next_id s' = e_next_id s \<and>
     appends s s' \<and>
     (\<forall>p. pr s' p = (pr s p)\<lparr>p_route := p_route (pr s' p)\<rparr>) \<and>
     (\<forall>p. p_route (pr s p) \<noteq> Undecided \<longrightarrow> p_route (pr s' p) = p_route (pr s p)) \<and>
     (\<forall>p\<in>set (owned_of s). p_route (pr s' p) = Undecided \<longrightarrow> p \<in> set (owned_of s'))"

lemma follows_same:
  "e_physical s' = e_physical s \<Longrightarrow> e_count s' = e_count s \<Longrightarrow> e_next_id s' = e_next_id s \<Longrightarrow>
   e_presses s' = e_presses s \<Longrightarrow> e_journal s' = e_journal s \<Longrightarrow>
   set (owned_of s) \<subseteq> set (owned_of s') \<Longrightarrow> follows s s'"
  by (auto simp: follows_def intro: appends_same)

lemma follows_refl [simp]: "follows s s"
  by (rule follows_same) simp_all

lemma follows_trans:
  assumes "follows s s'" "follows s' s''"
  shows "follows s s''"
proof -
  have "pr s'' p = (pr s p)\<lparr>p_route := p_route (pr s'' p)\<rparr>" for p
    using assms unfolding follows_def by (metis press.simps(5) press.update_convs(5) press.surjective)
  moreover have "appends s s''" using assms unfolding follows_def by (blast intro: appends_trans)
  ultimately show ?thesis using assms unfolding follows_def by (metis (full_types))
qed

text \<open>Leaving the candidate behind is fine once its presses are decided.\<close>

lemma follows_resolved_then:
  assumes "owned_ok s" "r \<noteq> Undecided" "e_physical s' = e_physical s" "e_count s' = e_count s"
    "e_next_id s' = e_next_id s" "e_presses s' = e_presses (resolved r s)" "appends s s'"
  shows "follows s s'"
  using assms by (auto simp: follows_def resolved_presses owned_ok_def)

lemma follows_failed: "safe cfg s \<Longrightarrow> follows s (failed s)"
  by (rule follows_resolved_then[where r = Forwarded]) (simp_all add: safe_def appends_same)

section \<open>Ingestion, held outputs, the journal\<close>

lemma safe_release: "safe cfg s \<Longrightarrow> safe cfg (release p s)"
  by (erule safe_cong[rotated 7]) auto

lemma safe_new_press:
  assumes "safe cfg s"
  shows "safe cfg (snd (new_press d c s))"
  by (rule safe_cong[OF _ _ _ _ _ _ _ assms])
    (use assms in \<open>auto simp: safe_def owned_ok_def\<close>)

text \<open>The transition of an event, when it is a valid one.\<close>

lemma ingest_transition:
  assumes "ingest d ev s = (p, Some t, s')"
  shows "p = Some (t_press t)" "t_value t = ev_value ev" "ev_type ev = EVKey"
    "t_value t = 1 \<Longrightarrow> t_press t = Suc (e_next_id s) \<and> s' = snd (new_press d (ev_code ev) s)"
    "t_value t = 0 \<Longrightarrow> phys s d (ev_code ev) = Some (t_press t) \<and> s' = release (t_press t) s"
    "t_value t = 2 \<Longrightarrow> phys s d (ev_code ev) = Some (t_press t) \<and> s' = s"
    "t_value t \<in> {0, 1, 2}"
  using assms
  by (auto simp: ingest_def Let_def mk_transition_def split_beta split: if_splits option.splits)

lemma ingest_invalid: "ingest d ev s = (p, None, s') \<Longrightarrow> s' = s"
  by (auto simp: ingest_def Let_def split_beta split: if_splits option.splits)

lemma ingest_cases:
  assumes "ingest d ev s = (p, tr, s')"
  obtains (invalid) "tr = None" "s' = s"
  | (press) t where "tr = Some t" "t_value t = 1" "t_press t = Suc (e_next_id s)"
      "s' = snd (new_press d (ev_code ev) s)"
  | (released) t where "tr = Some t" "t_value t = 0" "phys s d (ev_code ev) = Some (t_press t)"
      "s' = release (t_press t) s"
  | (rep) t where "tr = Some t" "t_value t = 2" "phys s d (ev_code ev) = Some (t_press t)" "s' = s"
proof (cases tr)
  case None
  with assms invalid show ?thesis by (auto dest: ingest_invalid)
next
  case (Some t)
  note tr = ingest_transition[OF assms[unfolded Some]]
  from tr(7) consider "t_value t = 0" | "t_value t = 1" | "t_value t = 2" by auto
  then show ?thesis
  proof cases
    case 1 show ?thesis using released[OF Some 1] tr(5)[OF 1] by blast
  next
    case 2 show ?thesis using press[OF Some 2] tr(4)[OF 2] by blast
  next
    case 3 show ?thesis using rep[OF Some 3] tr(6)[OF 3] by blast
  qed
qed

lemma safe_ingest:
  assumes "safe cfg s" "ingest d ev s = (p, tr, s')"
  shows "safe cfg s'"
  using assms(2) by (cases rule: ingest_cases) (use assms(1) in \<open>simp_all add: safe_release safe_new_press\<close>)

lemma ingest_next_id: "ingest d ev s = (p, tr, s') \<Longrightarrow> e_next_id s \<le> e_next_id s'"
  by (erule ingest_cases) simp_all

text \<open>What a transition does to the held outputs leaves the rest of the state alone.\<close>

lemma activation_event_rest: "(snd (activation_event tr a s))\<lparr>e_acts := A\<rparr> = s\<lparr>e_acts := A\<rparr>"
  by (simp add: activation_event_def Let_def upd_act_def)

lemma activation_events_of_rest:
  "(snd (activation_events_of tr as s))\<lparr>e_acts := A\<rparr> = s\<lparr>e_acts := A\<rparr>"
proof (induction as arbitrary: s)
  case (Cons a as)
  have "(snd (activation_events_of tr (a # as) s))\<lparr>e_acts := A\<rparr> =
    (snd (activation_event tr a s))\<lparr>e_acts := A\<rparr>"
    by (simp add: case_prod_beta Cons.IH)
  then show ?case by (simp add: activation_event_rest)
qed simp

lemma activation_events_rest:
  "(snd (activation_events tr s))\<lparr>e_acts := A, e_active := B\<rparr> = s\<lparr>e_acts := A, e_active := B\<rparr>"
proof -
  have "(snd (activation_events tr s))\<lparr>e_acts := A, e_active := B\<rparr> =
    (snd (activation_events_of tr (e_active s) s))\<lparr>e_acts := A\<rparr>\<lparr>e_active := B\<rparr>"
    by (simp add: activation_events_def case_prod_beta)
  then show ?thesis by (simp add: activation_events_of_rest)
qed

text \<open>The fields other than the stores of the held outputs.\<close>

lemma same_rest:
  assumes "s'\<lparr>e_acts := A, e_active := B\<rparr> = s\<lparr>e_acts := A, e_active := B\<rparr>"
  shows "e_physical s' = e_physical s" "e_count s' = e_count s" "e_next_id s' = e_next_id s"
    "e_mode s' = e_mode s" "e_seq s' = e_seq s" "e_active_prefix s' = e_active_prefix s"
    "e_carry s' = e_carry s" "e_reuse s' = e_reuse s" "e_deadline s' = e_deadline s"
    "e_journal s' = e_journal s" "e_presses s' = e_presses s" "e_cands s' = e_cands s"
    "e_next_cand s' = e_next_cand s" "e_next_activation s' = e_next_activation s"
  using assms by (cases s, cases s', simp)+

lemma activation_events_frame:
  assumes "activation_events tr s = (evs, s')"
  shows "e_physical s' = e_physical s" "e_count s' = e_count s" "e_next_id s' = e_next_id s"
    "e_mode s' = e_mode s" "e_seq s' = e_seq s" "e_active_prefix s' = e_active_prefix s"
    "e_carry s' = e_carry s" "e_reuse s' = e_reuse s" "e_deadline s' = e_deadline s"
    "e_journal s' = e_journal s" "e_presses s' = e_presses s" "e_cands s' = e_cands s"
    "e_next_cand s' = e_next_cand s" "e_next_activation s' = e_next_activation s"
  using same_rest[OF activation_events_rest[where tr = tr and s = s]] assms by auto

lemma safe_activation_events: "safe cfg s \<Longrightarrow> activation_events tr s = (evs, s') \<Longrightarrow> safe cfg s'"
  by (erule safe_cong[rotated 7]) (simp_all add: activation_events_frame)

section \<open>Starting and advancing a candidate\<close>

lemma chord_total:
  assumes "prefix_ok cfg s" "i < chord_count cfg s"
  shows "\<exists>keys. chord cfg s i = Some keys"
  using assms by (auto simp: chord_def chord_count_def prefix_ok_def slice_at_def split: if_splits option.splits)

lemma keep_possible_total:
  assumes "prefix_ok cfg s" "\<forall>i\<in>set is. i < chord_count cfg s"
  shows "\<exists>js. keep_possible cfg s k is = Some js \<and> set js \<subseteq> set is"
  using assms(2)
proof (induction "is")
  case (Cons i "is")
  then obtain keys js where "chord cfg s i = Some keys" "keep_possible cfg s k is = Some js"
    "set js \<subseteq> set is" using chord_total[OF assms(1), of i] by auto
  then show ?case by auto
qed simp

lemma first_complete_total:
  assumes "prefix_ok cfg s" "\<forall>i\<in>set is. i < chord_count cfg s"
  shows "\<exists>r. first_complete cfg s x is = Some r \<and> (\<forall>i keys. r = Some (i, keys) \<longrightarrow> i \<in> set is)"
  using assms(2)
proof (induction "is")
  case (Cons i "is")
  then obtain keys r where "chord cfg s i = Some keys" "first_complete cfg s x is = Some r"
    "\<forall>i keys. r = Some (i, keys) \<longrightarrow> i \<in> set is" using chord_total[OF assms(1), of i] by auto
  then show ?case by auto
qed simp

lemma safe_start_source:
  assumes "safe cfg s" "e_mode s = ModeIdle"
  shows "safe cfg (snd (start_source cfg p now s))"
    and "e_next_id (snd (start_source cfg p now s)) = e_next_id s"
    and "set (owned_of (snd (start_source cfg p now s))) \<subseteq> set (owned_of s)"
    and "follows s (snd (start_source cfg p now s))"
  using assms
  by (auto intro!: follows_same simp: start_source_def Let_def safe_def indices_ok_def prefix_ok_def deadline_ok_def owned_ok_def
      owned_of_def chord_count_def split: if_splits option.splits)

lemma safe_start_binding:
  assumes "safe cfg s" "e_mode s = ModeAwaitBinding"
  shows "\<exists>s'. start_binding cfg s = Some s' \<and> safe cfg s' \<and> e_next_id s' = e_next_id s \<and>
    owned_of s' = [] \<and> follows s s'"
proof -
  from assms obtain src where src: "prefix_at cfg (e_active_prefix s) = Some src"
    by (auto simp: safe_def prefix_ok_def)
  then show ?thesis using assms
    by (auto intro!: follows_same simp: start_binding_def safe_def indices_ok_def prefix_ok_def deadline_ok_def owned_ok_def
      owned_of_def chord_count_def split: option.splits)
qed

lemma safe_start_candidate:
  assumes "safe cfg s"
  shows "\<exists>started s'. start_candidate cfg tr now s = Some (started, s') \<and> safe cfg s' \<and>
    e_next_id s' = e_next_id s \<and> set (owned_of s') \<subseteq> set (owned_of s) \<and> follows s s'"
proof (cases "t_value tr = 1 \<and> p_route (pr s (t_press tr)) = Undecided")
  case True
  show ?thesis
  proof (cases "e_mode s")
    case ModeIdle
    then show ?thesis
      using True safe_start_source[OF assms ModeIdle, of "t_press tr" now]
      by (cases "start_source cfg (t_press tr) now s") (simp add: start_candidate_def)
  next
    case ModeAwaitBinding
    then show ?thesis using True safe_start_binding[OF assms ModeAwaitBinding]
      by (auto simp: start_candidate_def)
  qed (use True assms in \<open>auto simp: start_candidate_def\<close>)
qed (use assms in \<open>auto simp: start_candidate_def\<close>)

text \<open>A candidate that changes without touching what it owns.\<close>

lemma safe_upd_cand:
  assumes "safe cfg s" "e_seq s = Some c" "c_owned (f (e_cands s c)) = c_owned (e_cands s c)"
    "set (c_possible (f (e_cands s c))) \<subseteq> set (c_possible (e_cands s c))"
    "c_matched (f (e_cands s c)) = c_matched (e_cands s c) \<or>
     (\<exists>i. c_matched (f (e_cands s c)) = Some i \<and> i < chord_count cfg s)"
  shows "safe cfg (upd_cand c f s)"
  using assms unfolding safe_def indices_ok_def prefix_ok_def deadline_ok_def owned_ok_def owned_of_def chord_count_def
  by (auto split: if_splits)

lemma owned_of_upd_cand:
  "e_seq s = Some c \<Longrightarrow> owned_of (upd_cand c f s) = c_owned (f (e_cands s c))"
  by (simp add: owned_of_def)

lemma owned_of_failed [simp]: "owned_of (failed s) = []"
  by (simp add: owned_of_def)

lemma safe_add_member:
  assumes "safe cfg s" "e_seq s = Some c" "p \<notin> set (owned_of s)" "p \<le> e_next_id s"
    "p_route (pr s p) = Undecided"
  shows "safe cfg (upd_cand c (add_member p k) s)"
  using assms unfolding safe_def indices_ok_def prefix_ok_def deadline_ok_def owned_ok_def owned_of_def chord_count_def
  by (auto split: if_splits)

lemma safe_leave_reserved:
  assumes "safe cfg s" "e_mode s = ModeReserved"
  shows "safe cfg (s\<lparr>e_mode := ModePrefixCandidate, e_deadline := Some t\<rparr>)"
  using assms by (auto simp: safe_def indices_ok_def prefix_ok_def deadline_ok_def owned_ok_def owned_of_def
      chord_count_def split: option.splits)

text \<open>What \<open>advance\<close> guarantees: no panic, the invariant, and at most the press joins the owned.\<close>

definition advances :: "config \<Rightarrow> pid set \<Rightarrow> engine \<Rightarrow> (bool \<times> engine) option \<Rightarrow> bool" where
  "advances cfg P s r \<longleftrightarrow> (\<exists>ok s'. r = Some (ok, s') \<and> safe cfg s' \<and> e_next_id s' = e_next_id s \<and>
     set (owned_of s') \<subseteq> set (owned_of s) \<union> P \<and> follows s s' \<and> (\<not> ok \<longrightarrow> e_seq s' = None))"

lemma advances_fail:
  assumes "safe cfg s" "e_next_id s = e_next_id s0" "follows s0 s"
  shows "advances cfg P s0 (do { s' \<leftarrow> fail s; Some (False, s') })"
  using assms follows_trans[OF assms(3) follows_failed[OF assms(1)]]
  by (auto simp: advances_def fail_failed)

lemma advances_stay: "safe cfg s \<Longrightarrow> advances cfg P s (Some (True, s))"
  by (auto simp: advances_def)

lemma advance_press_safe:
  assumes "safe cfg s" "e_seq s = Some c" "p \<notin> set (owned_of s)" "p \<le> e_next_id s"
    "p_route (pr s p) = Undecided"
  shows "advances cfg {p} s (advance_press cfg p now c s)"
proof -
  define k where "k = p_logical (pr s p)"
  define s1 where "s1 = upd_cand c (add_member p k) s"
  have s1: "safe cfg s1" "e_seq s1 = Some c" "e_next_id s1 = e_next_id s"
    "c_owned (e_cands s1 c) = owned_of s @ [p]" "follows s s1"
    using assms safe_add_member[OF assms, of k] by (auto simp: s1_def owned_of_def intro: follows_same)
  have idx: "\<forall>i\<in>set (c_possible (e_cands s1 c)). i < chord_count cfg s1"
    using s1(1,2) by (simp add: safe_def indices_ok_def)
  have pre: "prefix_ok cfg s1" using s1(1) by (simp add: safe_def)
  obtain js where js: "keep_possible cfg s1 k (c_possible (e_cands s1 c)) = Some js"
    "set js \<subseteq> set (c_possible (e_cands s1 c))" using keep_possible_total[OF pre idx] by blast
  define s2 where "s2 = upd_cand c (\<lambda>x. x\<lparr>c_possible := js\<rparr>) s1"
  have s2: "safe cfg s2" "e_seq s2 = Some c" "e_next_id s2 = e_next_id s"
    "c_owned (e_cands s2 c) = owned_of s @ [p]" "c_possible (e_cands s2 c) = js"
    using s1 js(2) by (auto simp: s2_def intro!: safe_upd_cand)
  have f2: "follows s s2"
    by (rule follows_trans[OF s1(5)]) (auto simp: s2_def owned_of_def s1(2) intro: follows_same)
  define s3 where "s3 = (if e_mode s2 = ModeReserved \<and> k \<notin> set (cfg_reserved_modifiers cfg)
    then s2\<lparr>e_mode := ModePrefixCandidate, e_deadline := Some (now + cfg_candidate_timeout cfg)\<rparr>
    else s2)"
  have s3: "safe cfg s3" "e_seq s3 = Some c" "e_next_id s3 = e_next_id s"
    "c_owned (e_cands s3 c) = owned_of s @ [p]" "c_possible (e_cands s3 c) = js"
    using s2 safe_leave_reserved[OF s2(1)] by (simp_all add: s3_def)
  have f3: "follows s s3"
    by (rule follows_trans[OF f2]) (auto simp: s3_def owned_of_def intro: follows_same)
  have own3: "set (owned_of s3) \<subseteq> set (owned_of s) \<union> {p}" using s3(2,4) by (simp add: owned_of_def)
  have pre3: "prefix_ok cfg s3" and idx3: "\<forall>i\<in>set (c_possible (e_cands s3 c)). i < chord_count cfg s3"
    and mat3: "\<forall>m. c_matched (e_cands s3 c) = Some m \<longrightarrow> m < chord_count cfg s3"
    using s3(1,2) by (simp_all add: safe_def indices_ok_def)
  obtain found where found: "first_complete cfg s3 (e_cands s3 c) (c_possible (e_cands s3 c)) = Some found"
    "\<forall>i keys. found = Some (i, keys) \<longrightarrow> i \<in> set (c_possible (e_cands s3 c))"
    using first_complete_total[OF pre3 idx3] by blast
  define s4 where "s4 = (case found of None \<Rightarrow> s3 | Some (i, keys) \<Rightarrow> upd_cand c (record_match i keys) s3)"
  have "safe cfg (upd_cand c (record_match i keys) s3)" if "found = Some (i, keys)" for i keys
    using that found(2) idx3 s3(1,2) by (intro safe_upd_cand) auto
  then have s4: "safe cfg s4" "e_next_id s4 = e_next_id s" "owned_of s4 = owned_of s3"
    using s3 by (auto simp: s4_def owned_of_def split: option.split)
  have f4: "follows s s4"
    by (rule follows_trans[OF f3])
      (auto simp: s4_def owned_of_def s3(2) intro: follows_same split: option.split)
  obtain rematch where rematch: "(case c_matched (e_cands s3 c) of None \<Rightarrow> Some True
     | Some m \<Rightarrow> if e_mode s3 = ModeBindingCandidate then Some True
         else do { src \<leftarrow> slice_at (cfg_prefixes cfg) m; Some (src_mode src = Hold) }) = Some rematch"
    using mat3
    by (cases "c_matched (e_cands s3 c)"; cases "e_mode s3 = ModeBindingCandidate")
      (auto simp: chord_count_def slice_at_def)
  have "advance_press cfg p now c s =
    (if js = [] then do { s' \<leftarrow> fail s2; Some (False, s') }
     else if \<not> rematch then Some (True, s3) else Some (True, s4))"
    unfolding advance_press_def Let_def k_def[symmetric] s1_def[symmetric] js(1) Option.bind.bind_lunit
      s2_def[symmetric] s3_def[symmetric] rematch found(1) s4_def[symmetric] by simp
  then show ?thesis
    using advances_fail[OF s2(1,3) f2, of "{p}"] f3 f4 s3 own3 s4 by (auto simp: advances_def)
qed

lemma advance_release_safe:
  assumes "safe cfg s" "e_seq s = Some c"
  shows "advances cfg {} s (advance_release tr c member s)"
proof -
  define s1 where "s1 = (if member then
      upd_cand c (\<lambda>x. let x1 = x\<lparr>c_held := gm_put (t_press tr) False (c_held x)\<rparr>
        in if t_press tr \<in> set (c_match_members x1) then x1\<lparr>c_broken := True\<rparr> else x1) s
      else s)"
  have s1: "safe cfg s1" "e_next_id s1 = e_next_id s" "owned_of s1 = owned_of s"
    using assms by (auto simp: s1_def Let_def owned_of_def split: if_splits intro!: safe_upd_cand)
  moreover have f1: "follows s s1"
    using s1(3) by (intro follows_same) (auto simp: s1_def)
  ultimately have "advances cfg {} s (Some (True, s1))" by (auto simp: advances_def)
  then show ?thesis using advances_fail[OF s1(1,2) f1]
    by (simp add: advance_release_def Let_def s1_def[symmetric] del: upd_cand_cands)
qed

lemma advance_safe:
  assumes "safe cfg s"
    "t_value tr = 1 \<Longrightarrow> t_press tr \<notin> set (owned_of s) \<and> t_press tr \<le> e_next_id s"
  shows "advances cfg (if t_value tr = 1 then {t_press tr} else {}) s (advance cfg tr now s)"
proof (cases "e_seq s")
  case None
  then show ?thesis using assms(1) by (simp add: advance_def advances_stay)
next
  case (Some c)
  note stay = advances_stay[OF assms(1)] and fail = advances_fail[OF assms(1) refl follows_refl]
  show ?thesis
    using Some stay fail advance_press_safe[OF assms(1) Some] advance_release_safe[OF assms(1) Some]
      assms(2) by (simp add: advance_def Let_def)
qed

section \<open>The loop over a frame's events\<close>

text \<open>The presses of the transitions the loop remembers are pairwise different and exist.\<close>

abbreviation presses_in :: "transition list \<Rightarrow> pid list" where
  "presses_in trs \<equiv> map t_press (filter (\<lambda>t. t_value t = 1) trs)"

lemma advances_mono: "advances cfg P s r \<Longrightarrow> P \<subseteq> Q \<Longrightarrow> advances cfg Q s r"
  unfolding advances_def by blast

lemma advances_then:
  assumes "advances cfg P s (Some (True, s1))" "advances cfg Q s1 r"
  shows "advances cfg (P \<union> Q) s r"
proof -
  from assms(2) obtain ok s' where 2: "r = Some (ok, s')" "safe cfg s'" "e_next_id s' = e_next_id s1"
    "set (owned_of s') \<subseteq> set (owned_of s1) \<union> Q" "follows s1 s'" "\<not> ok \<longrightarrow> e_seq s' = None"
    unfolding advances_def by blast
  moreover from assms(1) have 1: "e_next_id s1 = e_next_id s" "set (owned_of s1) \<subseteq> set (owned_of s) \<union> P"
    "follows s s1" unfolding advances_def by blast+
  moreover have "follows s s'" using follows_trans[OF 1(3) 2(5)] .
  moreover have "set (owned_of s') \<subseteq> set (owned_of s) \<union> (P \<union> Q)" using 1(2) 2(4) by blast
  ultimately show ?thesis unfolding advances_def by metis
qed

lemma advance_all_safe:
  assumes "safe cfg s" "distinct (presses_in trs)" "\<forall>p\<in>set (presses_in trs). p \<le> e_next_id s"
    "set (presses_in trs) \<inter> set (owned_of s) = {}"
  shows "advances cfg (set (presses_in trs)) s (advance_all cfg now trs s)"
  using assms
proof (induction trs arbitrary: s)
  case Nil
  then show ?case by (simp add: advances_stay)
next
  case (Cons tr trs)
  let ?P = "if t_value tr = 1 then {t_press tr} else {}"
  have adv: "advances cfg ?P s (advance cfg tr now s)"
    using Cons.prems by (intro advance_safe) auto
  then obtain ok s' where 1: "advance cfg tr now s = Some (ok, s')" "safe cfg s'"
    "e_next_id s' = e_next_id s" "set (owned_of s') \<subseteq> set (owned_of s) \<union> ?P"
    unfolding advances_def by blast
  have P: "?P \<union> set (presses_in trs) = set (presses_in (tr # trs))" by simp
  show ?case
  proof (cases ok)
    case True
    have "set (presses_in trs) \<inter> set (owned_of s) = {}" "?P \<inter> set (presses_in trs) = {}"
      using Cons.prems(2,4) by (cases "t_value tr = 1", auto)+
    then have "set (presses_in trs) \<inter> set (owned_of s') = {}" using 1(4) by blast
    with Cons.IH[OF 1(2)] Cons.prems(2,3) 1(3)
    have "advances cfg (set (presses_in trs)) s' (advance_all cfg now trs s')" by (auto split: if_splits)
    from advances_then[OF _ this, of ?P s] show ?thesis using adv True 1(1) P by simp
  next
    case False
    then show ?thesis using advances_mono[OF adv] 1(1) P by auto
  qed
qed

definition loop_ok :: "config \<Rightarrow> frame_loop \<Rightarrow> bool" where
  "loop_ok cfg L \<longleftrightarrow> safe cfg (l_eng L) \<and> distinct (presses_in (l_history L)) \<and>
     (\<forall>p\<in>set (presses_in (l_history L)). p \<le> e_next_id (l_eng L))"

text \<open>
  The replay of earlier transitions in \<open>frame_match\<close> meets a candidate that owns nothing: one was
  just started.
\<close>

lemma started_owns_nothing:
  assumes "start_candidate cfg tr now s = Some (True, s')" "safe cfg s"
  shows "owned_of s' = []"
  using assms
  by (auto simp: start_candidate_def start_source_def start_binding_def Let_def owned_of_def
      safe_def indices_ok_def split: if_splits mode.splits Option.bind_splits option.splits)

lemma frame_match_safe:
  assumes "loop_ok cfg L"
    "t_value tr = 1 \<Longrightarrow> t_press tr \<notin> set (owned_of (l_eng L)) \<and> t_press tr \<le> e_next_id (l_eng L) \<and>
       t_press tr \<notin> set (presses_in (l_history L))"
  shows "\<exists>L'. frame_match cfg tr now L = Some L' \<and> loop_ok cfg L' \<and>
    follows (l_eng L) (l_eng L') \<and> l_fresh L' = l_fresh L \<and>
    j_events (l_frame L') = j_events (l_frame L) \<and> j_device (l_frame L') = j_device (l_frame L) \<and>
    (l_failed L' \<longrightarrow> e_seq (l_eng L') = None)"
proof -
  from assms(1) have saf: "safe cfg (l_eng L)" by (simp add: loop_ok_def)
  from safe_start_candidate[OF saf, of tr now] obtain started s1 where
    1: "start_candidate cfg tr now (l_eng L) = Some (started, s1)" "safe cfg s1"
       "e_next_id s1 = e_next_id (l_eng L)" "set (owned_of s1) \<subseteq> set (owned_of (l_eng L))"
       "follows (l_eng L) s1" by blast
  let ?H = "set (presses_in (l_history L))"
  define r where "r = (if started then advance_all cfg now (l_history L) s1 else Some (True, s1))"
  have "advances cfg ?H s1 (advance_all cfg now (l_history L) s1)" if started
    using that 1 started_owns_nothing[OF _ saf, of tr now s1] assms(1)
    by (intro advance_all_safe) (auto simp: loop_ok_def)
  then have "advances cfg ?H s1 r"
    using advances_stay[OF 1(2)] by (auto simp: r_def advances_def)
  then obtain ok1 s2 where 2: "r = Some (ok1, s2)" "safe cfg s2" "e_next_id s2 = e_next_id s1"
    "set (owned_of s2) \<subseteq> set (owned_of s1) \<union> ?H" "\<not> ok1 \<longrightarrow> e_seq s2 = None" "follows s1 s2"
    by (auto simp: advances_def)
  let ?P = "if t_value tr = 1 then {t_press tr} else {}"
  have "advances cfg ?P s2 (advance cfg tr now s2)"
    using assms(2) 1 2 by (intro advance_safe) auto
  then have "advances cfg ?P s2 (if ok1 \<and> e_seq s2 \<noteq> None then advance cfg tr now s2 else Some (ok1, s2))"
    using 2 by (auto simp: advances_def)
  then obtain ok2 s3 where 3: "(if ok1 \<and> e_seq s2 \<noteq> None then advance cfg tr now s2 else Some (ok1, s2))
      = Some (ok2, s3)" "safe cfg s3" "e_next_id s3 = e_next_id s2" "\<not> ok2 \<longrightarrow> e_seq s3 = None"
      "follows s2 s3"
    unfolding advances_def by blast
  have fol: "follows (l_eng L) s3" using 1(5) 2(6) 3(5) by (blast intro: follows_trans)
  have "frame_match cfg tr now L = Some (L\<lparr>l_eng := s3,
      l_frame := (if started then (l_frame L)\<lparr>j_candidate := e_seq s1\<rparr> else l_frame L),
      l_history := l_history L @ [tr], l_failed := \<not> ok2\<rparr>)"
    using 1(1) 2(1) 3(1) by (simp add: frame_match_def r_def[symmetric])
  then show ?thesis using assms 1(3) 2(3) 3(2-4) fol by (auto simp: loop_ok_def)
qed

lemma add_events_fields [simp]:
  "l_eng (add_events rs L) = l_eng L" "l_history (add_events rs L) = l_history L"
  "l_fresh (add_events rs L) = l_fresh L" "l_failed (add_events rs L) = l_failed L"
  "l_meaningful (add_events rs L) = l_meaningful L"
  by (simp_all add: add_events_def)

lemma fail_loop_ok:
  "loop_ok cfg L \<Longrightarrow> fail_loop L = Some (L\<lparr>l_eng := failed (l_eng L), l_failed := True\<rparr>)"
  using fail_failed[of cfg "l_eng L"] by (simp add: fail_loop_def loop_ok_def)

lemma loop_ok_failed:
  "loop_ok cfg L \<Longrightarrow> loop_ok cfg (L\<lparr>l_eng := failed (l_eng L), l_failed := True\<rparr>)"
  by (simp add: loop_ok_def)

lemma record_event_fields [simp]:
  "l_eng (record_event ev p tr ch L) = l_eng L" "l_history (record_event ev p tr ch L) = l_history L"
  "l_failed (record_event ev p tr ch L) = l_failed L"
  by (simp_all add: record_event_def Let_def)

lemma held_outputs_ok:
  assumes "loop_ok cfg L2"
  shows "\<exists>L3. held_outputs tr L2 = Some L3 \<and> loop_ok cfg L3 \<and> l_history L3 = l_history L2 \<and>
    e_next_id (l_eng L3) = e_next_id (l_eng L2) \<and>
    set (owned_of (l_eng L3)) \<subseteq> set (owned_of (l_eng L2))"
proof (cases tr)
  case None
  then show ?thesis using assms by (simp add: held_outputs_def)
next
  case (Some t)
  obtain outs s2 where act: "activation_events t (l_eng L2) = (outs, s2)" by (metis surj_pair)
  note fr = activation_events_frame[OF act]
  have s2: "loop_ok cfg (L2\<lparr>l_eng := s2\<rparr>)" "owned_of s2 = owned_of (l_eng L2)"
    using assms safe_activation_events[OF _ act] by (auto simp: loop_ok_def fr intro: owned_of_cong)
  show ?thesis
    using Some act s2 fail_loop_ok[OF s2(1)] loop_ok_failed[OF s2(1)] fr(3)
    by (auto simp: held_outputs_def loop_ok_def)
qed

lemma ingest_owned:
  assumes "ingest d ev s = (p, tr, s')"
  shows "owned_of s' = owned_of s"
  using assms by (cases rule: ingest_cases) (auto intro: owned_of_cong)

text \<open>The state the candidate sees: the press of a valid press event is new to it.\<close>

definition new_to :: "frame_loop \<Rightarrow> transition option \<Rightarrow> bool" where
  "new_to L tr \<longleftrightarrow> (\<forall>t. tr = Some t \<and> t_value t = 1 \<longrightarrow>
     t_press t \<notin> set (owned_of (l_eng L)) \<and> t_press t \<le> e_next_id (l_eng L) \<and>
     t_press t \<notin> set (presses_in (l_history L)))"

lemma frame_event_stages:
  assumes "loop_ok cfg L" "ingest d ev (l_eng L) = (p, tr, s1)"
  obtains L3 where
    "held_outputs tr (record_event ev p tr (hidden_chatter ev p (tr \<noteq> None) s1) (L\<lparr>l_eng := s1\<rparr>)) = Some L3"
    "loop_ok cfg L3" "new_to L3 tr"
proof -
  let ?s = "l_eng L"
  have saf: "safe cfg ?s" "\<forall>q\<in>set (presses_in (l_history L)). q \<le> e_next_id ?s"
    using assms(1) by (simp_all add: loop_ok_def)
  have own: "owned_of s1 = owned_of ?s" "\<forall>q\<in>set (owned_of ?s). q \<le> e_next_id ?s"
    using ingest_owned[OF assms(2)] saf(1) by (simp_all add: safe_def owned_ok_def)
  let ?L2 = "record_event ev p tr (hidden_chatter ev p (tr \<noteq> None) s1) (L\<lparr>l_eng := s1\<rparr>)"
  have L2: "loop_ok cfg ?L2"
    using assms(1) safe_ingest[OF saf(1) assms(2)] ingest_next_id[OF assms(2)] by (auto simp: loop_ok_def)
  obtain L3 where L3: "held_outputs tr ?L2 = Some L3" "loop_ok cfg L3" "l_history L3 = l_history L"
    "e_next_id (l_eng L3) = e_next_id s1" "set (owned_of (l_eng L3)) \<subseteq> set (owned_of ?s)"
    using held_outputs_ok[OF L2, of tr] own(1) by auto
  have "t_press t = Suc (e_next_id ?s) \<and> e_next_id s1 = Suc (e_next_id ?s)"
    if "tr = Some t" "t_value t = 1" for t
    using ingest_transition(4)[OF assms(2)[unfolded that(1)] that(2)] by simp
  then have "new_to L3 tr" using L3(3,4,5) own(2) saf(2) by (fastforce simp: new_to_def)
  with L3(1,2) show ?thesis by (rule that)
qed

lemma frame_event_ok:
  assumes "loop_ok cfg L"
  shows "\<exists>L'. frame_event cfg d now ev L = Some L' \<and> loop_ok cfg L'"
proof -
  obtain p tr s1 where ing: "ingest d ev (l_eng L) = (p, tr, s1)" by (metis surj_pair)
  obtain L3 where L3: "held_outputs tr (record_event ev p tr (hidden_chatter ev p (tr \<noteq> None) s1)
      (L\<lparr>l_eng := s1\<rparr>)) = Some L3" "loop_ok cfg L3" "new_to L3 tr"
    by (rule frame_event_stages[OF assms ing])
  have "\<exists>L'. frame_match cfg t now L3 = Some L' \<and> loop_ok cfg L'" if "tr = Some t" for t
    using frame_match_safe[OF L3(2), of t now] L3(3) that by (auto simp: new_to_def)
  then show ?thesis
    using L3(1,2) fail_loop_ok[OF L3(2)] loop_ok_failed[OF L3(2)]
    by (auto simp: frame_event_def ing split: option.split)
qed

lemma frame_events_ok:
  "loop_ok cfg L \<Longrightarrow> \<exists>L'. frame_events cfg d now evs L = Some L' \<and> loop_ok cfg L'"
proof (induction evs arbitrary: L)
  case (Cons ev evs)
  then show ?case using frame_event_ok[OF Cons.prems, of d now ev] by fastforce
qed simp

section \<open>After the loop\<close>

lemma complete_safe:
  assumes "safe cfg s"
  shows "\<exists>s'. complete cfg now s = Some s' \<and> safe cfg s' \<and> follows s s'"
proof (cases "e_seq s")
  case None
  then show ?thesis using assms by (simp add: complete_def)
next
  case (Some c)
  have res: "resolve Consumed s = Some (resolved Consumed s)"
    using assms by (simp add: resolve_ok safe_def)
  have fol: "follows s s'" if "e_physical s' = e_physical s" "e_count s' = e_count s"
    "e_next_id s' = e_next_id s" "e_presses s' = e_presses (resolved Consumed s)" "appends s s'" for s'
    using that assms by (intro follows_resolved_then[where r = Consumed]) (simp_all add: safe_def)
  have same: "appends s s'" if "e_journal s' = e_journal s" for s' using that by (rule appends_same)
  have queue: "appends s (queue_output out s')" if "e_journal s' = e_journal s" for s' out
    using that by (blast intro: appends_trans appends_same appends_queue_output)
  have queue2: "appends s (queue_output out (queue_output out' s'))" if "e_journal s' = e_journal s" for s' out out'
    using queue[OF that] by (blast intro: appends_trans appends_queue_output)
  have act: "appends s (activate c k s')" if "e_journal s' = e_journal s" for s' k
    using that by (blast intro: appends_trans appends_same appends_activate)
  show ?thesis
  proof (cases "c_matched (e_cands s c)")
    case None
    then show ?thesis using assms Some by (simp add: complete_def)
  next
    case (Some m)
    with \<open>e_seq s = Some c\<close> assms have m: "m < chord_count cfg s" by (simp add: safe_def indices_ok_def)
    show ?thesis
    proof (cases "e_mode s = ModeBindingCandidate")
      case True
      with m obtain src where "prefix_at cfg (e_active_prefix s) = Some src" "m < length (src_bindings src)"
        by (auto simp: chord_count_def split: option.splits)
      then show ?thesis
        using \<open>e_seq s = Some c\<close> Some True assms res
        by (auto simp: complete_def slice_at_def intro!: no_candidate_safe fol same queue queue2 act)
    next
      case False
      with m have "slice_at (cfg_prefixes cfg) m = Some (cfg_prefixes cfg ! m)"
        by (simp add: chord_count_def slice_at_def)
      then show ?thesis
        using \<open>e_seq s = Some c\<close> Some False assms res
        by (auto simp: complete_def Let_def prefix_at_def intro!: no_candidate_safe fol same queue queue2 act)
    qed
  qed
qed

lemma safe_forward_fresh: "safe cfg s \<Longrightarrow> safe cfg (forward_fresh ps s)"
proof (induction ps s rule: forward_fresh.induct)
  case (2 p ps s)
  have "safe cfg (set_route Forwarded p s)" if "p \<notin> set (owned_of s)"
    by (rule safe_cong[OF _ _ _ _ _ _ _ "2.prems"]) (use that in \<open>auto\<close>)
  then show ?case using 2 by (auto simp: owned_of_def split: option.splits)
qed simp

lemma follows_set_route:
  "p_route (pr s p) = Undecided \<Longrightarrow> p \<notin> set (owned_of s) \<Longrightarrow> follows s (set_route r p s)"
  by (auto simp: follows_def owned_of_def appends_same split: option.splits)

lemma follows_forward_fresh: "follows s (forward_fresh ps s)"
proof (induction ps s rule: forward_fresh.induct)
  case (2 p ps s)
  let ?s = "if p_route (pr s p) = Undecided \<and>
      (case e_seq s of None \<Rightarrow> True | Some c \<Rightarrow> p \<notin> set (c_owned (e_cands s c)))
    then set_route Forwarded p s else s"
  have "follows s ?s"
    using follows_set_route[of s p] by (auto simp: owned_of_def split: option.splits)
  with 2 show ?case by (auto intro: follows_trans)
qed simp

lemma safe_journal [simp]: "safe cfg (s\<lparr>e_journal := js\<rparr>) = safe cfg s"
  by (auto elim!: safe_cong[rotated 7])

lemma finish_frame_safe:
  assumes "loop_ok cfg L"
  shows "\<exists>s'. finish_frame cfg now L = Some s' \<and> safe cfg s'"
proof -
  let ?reserved = "e_mode (l_eng L) = ModeReserved \<and>
    list_ex (escapes_reservation (l_eng L)) (j_events (l_frame L))"
  obtain L1 where L1: "(if ?reserved then fail_loop L else Some L) = Some L1" "loop_ok cfg L1"
    using fail_loop_ok[OF assms] loop_ok_failed[OF assms] assms by (cases ?reserved) simp_all
  define s1 where "s1 = (l_eng L1)\<lparr>e_journal := e_journal (l_eng L1) @ [l_frame L1]\<rparr>"
  have "safe cfg s1" using L1(2) by (simp add: s1_def loop_ok_def)
  then obtain s2 where s2: "(if l_failed L1 then Some s1 else complete cfg now s1) = Some s2" "safe cfg s2"
    using complete_safe[of cfg s1 now] by (cases "l_failed L1") auto
  show ?thesis
    unfolding finish_frame_def Let_def L1(1) Option.bind.bind_lunit s1_def[symmetric] s2(1)
    using safe_forward_fresh[OF s2(2), of "l_fresh L1"] by simp
qed

lemma drain_state: "snd (drain s) = s\<lparr>e_journal := snd (drain_frames s (e_journal s))\<rparr>"
  by (simp add: drain_def case_prod_beta)

lemma safe_drain [simp]: "safe cfg (snd (drain s)) = safe cfg s"
  by (simp add: drain_state)

definition returns_safe :: "config \<Rightarrow> ('o \<times> engine) option \<Rightarrow> bool" where
  "returns_safe cfg r \<longleftrightarrow> (\<exists>out s'. r = Some (out, s') \<and> safe cfg s')"

lemma returns_safe_drain: "safe cfg s \<Longrightarrow> returns_safe cfg (Some (drain s))"
  by (metis returns_safe_def safe_drain surj_pair snd_conv)

lemma handle_timeout_safe: "safe cfg s \<Longrightarrow> returns_safe cfg (handle_timeout now s)"
  by (simp add: handle_timeout_def returns_safe_drain fail_failed)

lemma handle_frame_safe:
  assumes "safe cfg s"
  shows "returns_safe cfg (handle_frame cfg fr now s)"
proof -
  obtain outs1 s1 where 1: "handle_timeout now s = Some (outs1, s1)" "safe cfg s1"
    using handle_timeout_safe[OF assms, of now] by (auto simp: returns_safe_def)
  have "loop_ok cfg (new_loop (fr_device fr) s1)" using 1(2) by (simp add: loop_ok_def new_loop_def)
  then obtain L where L: "frame_events cfg (fr_device fr) now (fr_events fr)
      (new_loop (fr_device fr) s1) = Some L" "loop_ok cfg L" using frame_events_ok by blast
  obtain s2 where s2: "finish_frame cfg now L = Some s2" "safe cfg s2"
    using finish_frame_safe[OF L(2)] by blast
  obtain outs3 s3 where "drain s2 = (outs3, s3)" "safe cfg s3"
    using safe_drain[of cfg s2] s2(2) by (metis surj_pair snd_conv)
  then show ?thesis using 1(1) L(1) s2(1) by (simp add: handle_frame_def returns_safe_def)
qed

section \<open>Recovery and shutdown\<close>

lemma safe_upd_act [simp]: "safe cfg (upd_act a f s) = safe cfg s"
  by (auto elim!: safe_cong[rotated 7])

lemma safe_queue_output [simp]: "safe cfg (queue_output out s) = safe cfg s"
  by (simp add: queue_output_def)

lemma safe_stop_activation [simp]: "safe cfg (stop_activation a s) = safe cfg s"
  by (simp add: stop_activation_def Let_def)

lemma safe_active [simp]: "safe cfg (s\<lparr>e_active := as\<rparr>) = safe cfg s"
  by (auto elim!: safe_cong[rotated 7])

lemma safe_fold:
  "(\<And>x s. safe cfg s \<Longrightarrow> safe cfg (f x s)) \<Longrightarrow> safe cfg s \<Longrightarrow> safe cfg (fold f xs s)"
  by (induction xs arbitrary: s) auto

lemma e_seq_fold: "(\<And>x s. e_seq (f x s) = e_seq s) \<Longrightarrow> e_seq (fold f xs s) = e_seq s"
  by (induction xs arbitrary: s) auto

lemma ingest_seq: "ingest d ev s = (p, tr, s') \<Longrightarrow> e_seq s' = e_seq s"
  by (erule ingest_cases) simp_all

text \<open>Outside a candidate no press is owned, so any press may get a disposition.\<close>

lemma safe_adopt_code:
  assumes "safe cfg s" "e_seq s = None"
  shows "safe cfg (snd (adopt_code d c s))" "e_seq (snd (adopt_code d c s)) = None"
proof -
  obtain q tr s' where ing: "ingest d (key_event c 1) s = (q, tr, s')" by (metis surj_pair)
  obtain p s1 where 1: "(case phys s d c of Some p \<Rightarrow> (p, s)
      | None \<Rightarrow> (case ingest d (key_event c 1) s of (q, _, s') \<Rightarrow> (the q, s'))) = (p, s1)"
    by (metis surj_pair)
  then have s1: "safe cfg s1" "e_seq s1 = None"
    using safe_ingest[OF assms(1) ing] ingest_seq[OF ing] ing assms by (auto split: option.splits)
  then have "owned_of s1 = []" by (simp add: owned_of_def)
  with s1 have "safe cfg (set_route Forwarded p s1)" by (auto elim!: safe_cong[rotated 7])
  with s1 show "safe cfg (snd (adopt_code d c s))" "e_seq (snd (adopt_code d c s)) = None"
    using 1 by (simp_all add: adopt_code_def)
qed

lemma safe_adopt_codes:
  "safe cfg s \<Longrightarrow> e_seq s = None \<Longrightarrow> safe cfg (snd (adopt_codes d cs vis s))"
  by (induction cs arbitrary: vis s) (simp_all add: case_prod_beta Let_def safe_adopt_code)

lemma end_activations_frame [simp]:
  "e_seq (end_activations as s) = e_seq s" "safe cfg (end_activations as s) = safe cfg s"
proof -
  have "e_seq (fold (\<lambda>a. upd_act a f) as s) = e_seq s \<and>
      safe cfg (fold (\<lambda>a. upd_act a f) as s) = safe cfg s" for f
    by (induction as arbitrary: s) simp_all
  then show "e_seq (end_activations as s) = e_seq s" "safe cfg (end_activations as s) = safe cfg s"
    by (simp_all add: end_activations_def Let_def)
qed

lemma drop_device_inputs_frame [simp]:
  "e_seq (drop_device_inputs d s) = e_seq s" "safe cfg (drop_device_inputs d s) = safe cfg s"
  by (simp_all add: drop_device_inputs_def)

lemma safe_release_missing: "safe cfg s \<Longrightarrow> safe cfg (release_missing d pressed s)"
  unfolding release_missing_def by (rule safe_fold) (auto simp: safe_release split: prod.split)

lemma release_missing_seq: "e_seq (release_missing d pressed s) = e_seq s"
  unfolding release_missing_def by (rule e_seq_fold) (auto split: prod.split)

lemma reconcile_safe:
  assumes "safe cfg s"
  shows "returns_safe cfg (reconcile d pressed s)"
proof -
  define ended where "ended = ended_by d (failed s)"
  define s1 where "s1 = drop_device_inputs d (end_activations ended (failed s))"
  have s1: "safe cfg s1" "e_seq s1 = None" by (simp_all add: s1_def)
  obtain outs1 s2 where 2: "drain s1 = (outs1, s2)" by (metis surj_pair)
  have s2: "safe cfg s2" "e_seq s2 = None"
    using s1 safe_drain[of cfg s1] drain_state[of s1] by (simp_all add: 2)
  define s3 where "s3 = release_missing d pressed (fold stop_activation ended s2)"
  have "safe cfg (fold stop_activation ended s2)" "e_seq (fold stop_activation ended s2) = None"
    using s2 by (auto simp: e_seq_fold intro: safe_fold)
  then have s3: "safe cfg s3" "e_seq s3 = None"
    by (simp_all add: s3_def safe_release_missing release_missing_seq)
  let ?codes = "sort (filter (gm_true pressed) (gm_keys pressed))"
  obtain vis s4 where 4: "adopt_codes d ?codes [] s3 = (vis, s4)" by (metis surj_pair)
  have "safe cfg s4" using safe_adopt_codes[OF s3, of d ?codes "[]"] 4 by simp
  then have "returns_safe cfg (Some (drain (queue_output (ReconcileDevice d vis) s4)))"
    by (intro returns_safe_drain) simp
  then show ?thesis
    using fail_failed[OF assms] 2 4
    by (auto simp: reconcile_def Let_def ended_def[symmetric] s1_def[symmetric] s3_def[symmetric]
        returns_safe_def)
qed

lemma safe_close_device: "safe cfg s \<Longrightarrow> safe cfg (close_device d s)"
  by (auto simp: close_device_def safe_release intro!: safe_fold)

lemma close_engine_safe:
  assumes "safe cfg s"
  shows "returns_safe cfg (close_engine s)"
proof -
  have "safe cfg (fold stop_activation as (drop_presses (failed s)))" for as
    by (rule safe_fold) (simp_all add: drop_presses_def)
  then have "safe cfg (fold close_device ds
      ((fold stop_activation as (drop_presses (failed s)))\<lparr>e_active := []\<rparr>))" for ds as
    by (intro safe_fold safe_close_device) simp_all
  then show ?thesis
    using fail_failed[OF assms] by (simp add: close_engine_def Let_def returns_safe_drain)
qed

section \<open>The engine never panics\<close>

lemma engine_step_safe: "safe cfg s \<Longrightarrow> \<exists>os s'. engine_step cfg i s = Some (os, s') \<and> safe cfg s'"
  using handle_frame_safe handle_timeout_safe reconcile_safe close_engine_safe
  by (cases i) (simp_all add: returns_safe_def)

interpretation em: panic_free_machine "engine_step cfg" "safe cfg" for cfg
  by unfold_locales (rule engine_step_safe)

lemma engine_run_safe: "engine_run cfg ins = Some (os, s) \<Longrightarrow> safe cfg s"
  unfolding engine_run_def by (rule em.run_keeps[OF safe_new])

text \<open>
  C3. The engine never panics and never stops: for every configuration, valid or not, and every
  sequence of frames, timeouts, resynchronisations and shutdowns, \<open>engine_run\<close> returns.  In
  particular \<open>resolve\<close> never meets a press that has a disposition, and no slice index is out of range.
\<close>

theorem engine_never_panics: "\<exists>os s. engine_run cfg ins = Some (os, s)"
  unfolding engine_run_def using em.run_returns[OF safe_new, of cfg ins] by blast

end
