(* ===== verification/Engine_Ownership.thy ===== *)
theory Engine_Ownership
  imports Engine_Safety
begin

text \<open>
  Who owns a key, in every reachable state of the engine.
  \<^item> \<open>phys_ok\<close>: \<open>physical\<close> holds exactly the presses that are down, under their device and code,
    and \<open>logicalCount\<close> counts them.
  \<^item> \<open>settled\<close>: a press without a disposition belongs to the pending candidate, and only such a
    press keeps a frame in the journal.
\<close>

section \<open>The physical state\<close>

definition down_of :: "engine \<Rightarrow> logical \<Rightarrow> pid set" where
  "down_of s k = {p. p_down (pr s p) \<and> p_logical (pr s p) = k}"

definition devices_ok :: "engine \<Rightarrow> bool" where
  "devices_ok s \<longleftrightarrow> gm_wf (e_physical s) \<and>
     (\<forall>d m. gm_get (e_physical s) d = Some m \<longrightarrow> gm_wf m \<and> m \<noteq> [])"

definition down_ok :: "engine \<Rightarrow> bool" where
  "down_ok s \<longleftrightarrow>
     (\<forall>d c p. phys s d c = Some p \<longleftrightarrow> p_down (pr s p) \<and> p_device (pr s p) = d \<and> p_code (pr s p) = c) \<and>
     (\<forall>p. p_down (pr s p) \<longrightarrow> 0 < p \<and> p \<le> e_next_id s) \<and>
     (\<forall>p. 0 < p \<and> p \<le> e_next_id s \<longrightarrow> p_logical (pr s p) = canonical (p_code (pr s p)))"

definition counts_ok :: "engine \<Rightarrow> bool" where
  "counts_ok s \<longleftrightarrow> gm_wf (e_count s) \<and>
     (\<forall>k. gm_get (e_count s) k = (if down_of s k = {} then None else Some (int (card (down_of s k)))))"

definition phys_ok :: "engine \<Rightarrow> bool" where
  "phys_ok s \<longleftrightarrow> devices_ok s \<and> down_ok s \<and> counts_ok s"

lemma phys_ok_new: "phys_ok new_engine"
  by (simp add: phys_ok_def devices_ok_def down_ok_def counts_ok_def down_of_def new_engine_def
      phys_def phys_dev_def no_press_def)

lemma phys_ok_cong:
  assumes "e_physical s' = e_physical s" "e_count s' = e_count s" "e_next_id s' = e_next_id s"
    "\<And>p. pr s' p = (pr s p)\<lparr>p_route := p_route (pr s' p)\<rparr>"
  shows "phys_ok s' = phys_ok s"
proof -
  have 1: "p_down (pr s' p) = p_down (pr s p)" "p_device (pr s' p) = p_device (pr s p)"
    "p_code (pr s' p) = p_code (pr s p)" "p_logical (pr s' p) = p_logical (pr s p)" for p
    by (subst assms(4), simp)+
  show ?thesis
    by (simp add: phys_ok_def devices_ok_def down_ok_def counts_ok_def down_of_def phys_def
        phys_dev_def assms(1-3) 1)
qed

lemma phys_ok_follows: "follows s s' \<Longrightarrow> phys_ok s' = phys_ok s"
  by (rule phys_ok_cong) (simp_all add: follows_def)

lemma finite_down: "down_ok s \<Longrightarrow> finite (down_of s k)"
  by (rule finite_subset[of _ "{..e_next_id s}"]) (auto simp: down_of_def down_ok_def)

lemma count_of_down: "counts_ok s \<Longrightarrow> count_of s k = int (card (down_of s k))"
  by (simp add: counts_ok_def count_of_def)

subsection \<open>A new press\<close>

lemma new_press_physical:
  "e_physical (snd (new_press d c s)) =
     gm_put d (gm_put c (Suc (e_next_id s)) (phys_dev s d)) (e_physical s)"
  by (simp add: new_press_def Let_def phys_dev_def)

lemma phys_new_press:
  "phys (snd (new_press d c s)) d' c' =
     (if d' = d \<and> c' = c then Some (Suc (e_next_id s)) else phys s d' c')"
  by (simp add: phys_def phys_dev_def new_press_physical)

lemma new_press_count:
  "e_count (snd (new_press d c s)) = gm_put (canonical c) (count_of s (canonical c) + 1) (e_count s)"
  by (simp add: new_press_def Let_def count_of_def)

lemma phys_ok_new_press:
  assumes "phys_ok s" "phys s d c = None"
  shows "phys_ok (snd (new_press d c s))"
proof -
  let ?s = "snd (new_press d c s)" and ?p = "Suc (e_next_id s)"
  from assms(1) have dev: "devices_ok s" and dn: "down_ok s" and cnt: "counts_ok s"
    by (simp_all add: phys_ok_def)
  have fresh: "\<not> p_down (pr s ?p)" using dn by (auto simp: down_ok_def)
  have none: "\<not> (p_down (pr s q) \<and> p_device (pr s q) = d \<and> p_code (pr s q) = c)" for q
    using dn assms(2) by (metis down_ok_def option.distinct(1))
  have "gm_wf (phys_dev s d)" using dev by (simp add: devices_ok_def phys_dev_def split: option.split)
  then have "devices_ok ?s"
    using dev by (auto simp: devices_ok_def new_press_physical gm_empty_iff)
  moreover have "down_ok ?s"
    using dn fresh none unfolding down_ok_def phys_new_press
    by (auto simp: le_Suc_eq)
  moreover have down: "down_of ?s k = (if k = canonical c then insert ?p (down_of s k) else down_of s k)" for k
    using fresh by (auto simp: down_of_def)
  have "?p \<notin> down_of s k" for k using fresh by (simp add: down_of_def)
  then have "counts_ok ?s"
    using cnt finite_down[OF dn]
    by (auto simp: counts_ok_def down new_press_count count_of_down[OF cnt])
  ultimately show ?thesis by (simp add: phys_ok_def)
qed

subsection \<open>A release\<close>

lemma release_physical:
  assumes "gm_get (e_physical s) (p_device (pr s p)) = Some m"
  shows "e_physical (release p s) =
    (let d = p_device (pr s p); m' = gm_del (p_code (pr s p)) m
     in if m' = [] then gm_del d (gm_put d [] (e_physical s)) else gm_put d m' (e_physical s))"
  using assms by (simp add: release_def Let_def phys_dev_def)

lemma release_count:
  "e_count (release p s) =
    (let k = p_logical (pr s p); m = gm_put k (count_of s k - 1) (e_count s)
     in if count_of s k = 1 then gm_del k m else m)"
  by (simp add: release_def Let_def count_of_def split: option.splits)

lemma release_reuse: "e_reuse (release p s) = gm_del p (e_reuse s)"
  by (simp add: release_def Let_def split: option.splits)

lemma release_carry:
  "e_carry (release p s) =
     (if gm_get (e_carry s) (p_logical (pr s p)) = Some p
      then gm_del (p_logical (pr s p)) (e_carry s) else e_carry s)"
  by (simp add: release_def Let_def split: option.splits)

lemma phys_release:
  assumes "down_ok s" "p_down (pr s p)"
  shows "phys (release p s) d c =
    (if d = p_device (pr s p) \<and> c = p_code (pr s p) then None else phys s d c)"
proof -
  from assms have "phys s (p_device (pr s p)) (p_code (pr s p)) = Some p" by (simp add: down_ok_def)
  then obtain m where m: "gm_get (e_physical s) (p_device (pr s p)) = Some m"
    by (auto simp: phys_def phys_dev_def split: option.splits)
  show ?thesis
    by (auto simp: phys_def phys_dev_def release_physical[OF m] Let_def m gm_empty_iff[of "gm_del _ m"]
        split: if_splits)
qed

text \<open>One press at most is down for a key of a device.\<close>

lemma down_unique:
  assumes "down_ok s" "p_down (pr s p)" "p_down (pr s q)" "p_device (pr s p) = p_device (pr s q)"
    "p_code (pr s p) = p_code (pr s q)"
  shows "p = q"
  using assms by (metis down_ok_def option.inject)

lemma phys_ok_release:
  assumes "phys_ok s" "p_down (pr s p)"
  shows "phys_ok (release p s)"
proof -
  let ?s = "release p s"
  from assms(1) have dev: "devices_ok s" and dn: "down_ok s" and cnt: "counts_ok s"
    by (simp_all add: phys_ok_def)
  from dn assms(2) have "phys s (p_device (pr s p)) (p_code (pr s p)) = Some p"
    by (simp add: down_ok_def)
  then obtain m where m: "gm_get (e_physical s) (p_device (pr s p)) = Some m"
    by (auto simp: phys_def phys_dev_def split: option.splits)
  have other: "\<not> (p_down (pr s q) \<and> p_device (pr s q) = p_device (pr s p) \<and>
      p_code (pr s q) = p_code (pr s p))" if "q \<noteq> p" for q
    using that down_unique[OF dn, of q p] assms(2) by blast
  have "devices_ok ?s"
    using dev m by (auto simp: devices_ok_def release_physical[OF m] Let_def split: if_splits)
  moreover have "down_ok ?s"
    using dn assms(2) other unfolding down_ok_def phys_release[OF dn assms(2)]
    by (auto split: if_splits)
  moreover have down: "down_of ?s k = (if k = p_logical (pr s p) then down_of s k - {p} else down_of s k)" for k
    by (auto simp: down_of_def)
  have p: "p \<in> down_of s (p_logical (pr s p))" using assms(2) by (simp add: down_of_def)
  have card: "card (down_of s (p_logical (pr s p)) - {p}) = card (down_of s (p_logical (pr s p))) - 1"
    "card (down_of s (p_logical (pr s p))) > 0"
    using p finite_down[OF dn] by (auto simp: card_gt_0_iff)
  have "down_of s (p_logical (pr s p)) - {p} = {} \<longleftrightarrow> card (down_of s (p_logical (pr s p))) = 1"
    using p card finite_down[OF dn] by (metis card_0_eq diff_is_0_eq finite_Diff le_antisym less_eq_Suc_le One_nat_def)
  then have "counts_ok ?s"
    using cnt card p by (auto simp: counts_ok_def down release_count count_of_down[OF cnt] Let_def)
  ultimately show ?thesis by (simp add: phys_ok_def)
qed

lemma phys_ok_ingest:
  assumes "phys_ok s" "ingest d ev s = (p, tr, s')"
  shows "phys_ok s'"
proof -
  from assms(1) have dn: "down_ok s" by (simp add: phys_ok_def)
  from assms(2) show ?thesis
  proof (cases rule: ingest_cases)
    case (press t)
    then have "phys s d (ev_code ev) = None"
      using assms(2) by (auto simp: ingest_def Let_def mk_transition_def split: if_splits option.splits prod.splits)
    with press(4) assms(1) show ?thesis by (simp add: phys_ok_new_press)
  next
    case (released t)
    then have "p_down (pr s (t_press t))" using dn by (auto simp: down_ok_def)
    with released(4) assms(1) show ?thesis by (simp add: phys_ok_release)
  qed (use assms in simp_all)
qed

section \<open>Presses without a disposition\<close>

definition known :: "engine \<Rightarrow> pid \<Rightarrow> bool" where
  "known s p \<longleftrightarrow> 0 < p \<and> p \<le> e_next_id s"

definition undecided :: "engine \<Rightarrow> pid set" where
  "undecided s = {p. known s p \<and> p_route (pr s p) = Undecided}"

definition events_ok :: "engine \<Rightarrow> recorded_event list \<Rightarrow> bool" where
  "events_ok s rs \<longleftrightarrow> (\<forall>r\<in>set rs. \<forall>p. r_press r = Some p \<longrightarrow> known s p)"

definition journal_ok :: "engine \<Rightarrow> bool" where
  "journal_ok s \<longleftrightarrow> (\<forall>f\<in>set (e_journal s). events_ok s (j_events f))"

definition engine_inv :: "config \<Rightarrow> engine \<Rightarrow> bool" where
  "engine_inv cfg s \<longleftrightarrow> safe cfg s \<and> phys_ok s \<and> undecided s \<subseteq> set (owned_of s) \<and> journal_ok s"

text \<open>Inside the loop the presses of this frame may also be undecided.\<close>

definition loop_inv :: "config \<Rightarrow> frame_loop \<Rightarrow> bool" where
  "loop_inv cfg L \<longleftrightarrow> loop_ok cfg L \<and> phys_ok (l_eng L) \<and>
     undecided (l_eng L) \<subseteq> set (owned_of (l_eng L)) \<union> set (l_fresh L) \<and>
     journal_ok (l_eng L) \<and> events_ok (l_eng L) (j_events (l_frame L))"

lemma events_ok_simps [simp]:
  "events_ok s []" "events_ok s (r # rs) \<longleftrightarrow> (\<forall>p. r_press r = Some p \<longrightarrow> known s p) \<and> events_ok s rs"
  "events_ok s (rs @ rs') \<longleftrightarrow> events_ok s rs \<and> events_ok s rs'"
  by (auto simp: events_ok_def)

lemma recorded_fields [simp]:
  "r_press (recorded_output out rep) = None" "r_output (recorded_output out rep) = Some out"
  "r_repeat (recorded_output out rep) = rep" "r_event (recorded_input ev p) = ev"
  "r_press (recorded_input ev p) = p" "r_output (recorded_input ev p) = None"
  by (simp_all add: recorded_output_def recorded_input_def)

lemma events_ok_mono: "events_ok s rs \<Longrightarrow> e_next_id s \<le> e_next_id s' \<Longrightarrow> events_ok s' rs"
  by (fastforce simp: events_ok_def known_def)

lemma journal_ok_mono:
  "journal_ok s \<Longrightarrow> e_journal s' = e_journal s \<Longrightarrow> e_next_id s \<le> e_next_id s' \<Longrightarrow> journal_ok s'"
  by (auto simp: journal_ok_def intro: events_ok_mono)

lemma journal_ok_appends:
  assumes "appends s s'" "e_next_id s' = e_next_id s" "journal_ok s"
  shows "journal_ok s'"
proof -
  from assms(1) obtain fs where fs: "e_journal s' = e_journal s @ fs" "\<forall>f\<in>set fs. generated f"
    by (auto simp: appends_def)
  have "events_ok s' (j_events f)" if "f \<in> set fs" for f
    using fs(2) that by (auto simp: generated_def)
  then show ?thesis using assms(2,3) fs(1) by (auto simp: journal_ok_def intro: events_ok_mono)
qed

lemma known_follows: "follows s s' \<Longrightarrow> known s' p = known s p"
  by (simp add: known_def follows_def)

lemma follows_route: "follows s s' \<Longrightarrow> p_route (pr s' p) = Undecided \<Longrightarrow> p_route (pr s p) = Undecided"
  unfolding follows_def by metis

lemma undecided_follows:
  assumes "follows s s'" "undecided s \<subseteq> set (owned_of s) \<union> F"
  shows "undecided s' \<subseteq> set (owned_of s') \<union> F"
proof
  fix p assume p: "p \<in> undecided s'"
  then have "p_route (pr s p) = Undecided" using assms(1) unfolding follows_def undecided_def by force
  then have "p \<in> set (owned_of s) \<union> F"
    using assms p known_follows[OF assms(1)] by (auto simp: undecided_def)
  then show "p \<in> set (owned_of s') \<union> F"
    using p assms(1) by (auto simp: follows_def undecided_def)
qed

lemma inv_follows:
  assumes "follows s s'" "engine_inv cfg s" "safe cfg s'"
  shows "engine_inv cfg s'"
  using assms phys_ok_follows[OF assms(1)] undecided_follows[OF assms(1), of "{}"]
    journal_ok_appends[of s s']
  by (auto simp: engine_inv_def follows_def)

lemma inv_failed: "engine_inv cfg s \<Longrightarrow> engine_inv cfg (failed s)"
  by (rule inv_follows) (auto simp: engine_inv_def intro: follows_failed)

section \<open>The loop\<close>

lemma loop_inv_follows:
  assumes "loop_inv cfg L" "follows (l_eng L) (l_eng L')" "loop_ok cfg L'" "l_fresh L' = l_fresh L"
    "j_events (l_frame L') = j_events (l_frame L)"
  shows "loop_inv cfg L'"
  using assms phys_ok_follows[OF assms(2)] undecided_follows[OF assms(2)]
    journal_ok_appends[of "l_eng L" "l_eng L'"]
  by (auto simp: loop_inv_def follows_def events_ok_def known_def)

lemma loop_inv_fail:
  assumes "loop_inv cfg L"
  shows "loop_inv cfg (L\<lparr>l_eng := failed (l_eng L), l_failed := True\<rparr>)"
  by (rule loop_inv_follows[OF assms])
    (use assms in \<open>auto simp: loop_inv_def loop_ok_failed loop_ok_def intro: follows_failed\<close>)

lemma ingest_undecided:
  assumes "ingest d ev s = (p, tr, s')" "phys_ok s"
  shows "undecided s' \<subseteq> undecided s \<union> (case tr of Some t \<Rightarrow> if t_value t = 1 then {t_press t} else {} | None \<Rightarrow> {})"
  using assms(1)
  by (cases rule: ingest_cases) (auto simp: undecided_def known_def split: if_splits)

lemma ingest_known:
  assumes "ingest d ev s = (Some q, tr, s')" "phys_ok s"
  shows "known s' q"
proof -
  have "known s q" if "phys s d (ev_code ev) = Some q"
    using that assms(2) by (auto simp: phys_ok_def down_ok_def known_def)
  moreover have "known s' q" if "new_press d (ev_code ev) s = (q, s')"
    using arg_cong[OF that, of fst] arg_cong[OF that, of "e_next_id \<circ> snd"] by (simp add: known_def)
  ultimately show ?thesis
    using assms(1)
    by (auto simp: ingest_def Let_def known_def split: if_splits option.splits prod.splits)
qed

lemma record_event_inv:
  assumes "loop_inv cfg L" "ingest d ev (l_eng L) = (p, tr, s1)"
  shows "loop_inv cfg (record_event ev p tr ch (L\<lparr>l_eng := s1\<rparr>))"
proof -
  let ?s = "l_eng L"
  from assms(1) have L: "safe cfg ?s" "phys_ok ?s" "journal_ok ?s" "events_ok ?s (j_events (l_frame L))"
    "undecided ?s \<subseteq> set (owned_of ?s) \<union> set (l_fresh L)" "loop_ok cfg L"
    by (auto simp: loop_inv_def loop_ok_def)
  note mono = ingest_next_id[OF assms(2)]
  have "e_journal s1 = e_journal ?s" using assms(2) by (cases rule: ingest_cases) simp_all
  then have j: "journal_ok s1" using journal_ok_mono[OF L(3) _ mono] by simp
  have ok: "loop_ok cfg (record_event ev p tr ch (L\<lparr>l_eng := s1\<rparr>))"
    using L(6) safe_ingest[OF L(1) assms(2)] mono by (auto simp: loop_ok_def)
  have ev: "events_ok s1 (j_events (l_frame (record_event ev p tr ch (L\<lparr>l_eng := s1\<rparr>))))"
    using events_ok_mono[OF L(4) mono] ingest_known[of d ev ?s _ tr s1] assms(2) L(2)
    by (auto simp: record_event_def Let_def add_events_def)
  have fresh: "set (l_fresh (record_event ev p tr ch (L\<lparr>l_eng := s1\<rparr>))) \<supseteq> set (l_fresh L) \<union>
      (case tr of Some t \<Rightarrow> if t_value t = 1 then {t_press t} else {} | None \<Rightarrow> {})"
    using ingest_transition(1,2)[of d ev ?s p _ s1] assms(2)
    by (auto simp: record_event_def Let_def add_events_def split: option.splits)
  have "undecided s1 \<subseteq> set (owned_of s1) \<union> set (l_fresh (record_event ev p tr ch (L\<lparr>l_eng := s1\<rparr>)))"
    using ingest_undecided[OF assms(2) L(2)] L(5) fresh ingest_owned[OF assms(2)] by auto
  then show ?thesis
    using ok j ev phys_ok_ingest[OF L(2) assms(2)] by (simp add: loop_inv_def)
qed

lemma activation_event_silent: "events_ok s' (fst (activation_event tr a s))"
  by (simp add: activation_event_def Let_def)

lemma activation_events_silent: "events_ok s' (fst (activation_events tr s))"
proof -
  have "events_ok s' (fst (activation_events_of tr as s))" for as s
    by (induction as arbitrary: s)
      (simp_all add: case_prod_beta activation_event_silent)
  then show ?thesis by (simp add: activation_events_def case_prod_beta)
qed

lemma held_outputs_inv:
  assumes "loop_inv cfg L"
  shows "\<exists>L'. held_outputs tr L = Some L' \<and> loop_inv cfg L'"
proof (cases tr)
  case None
  then show ?thesis using assms by (simp add: held_outputs_def)
next
  case (Some t)
  obtain outs s where act: "activation_events t (l_eng L) = (outs, s)" by (metis surj_pair)
  note fr = activation_events_frame[OF act]
  have "follows (l_eng L) s"
    by (rule follows_same) (simp_all add: fr owned_of_cong[of s "l_eng L"])
  then have 1: "loop_inv cfg (L\<lparr>l_eng := s\<rparr>)"
    using assms safe_activation_events[OF _ act]
    by (intro loop_inv_follows[OF assms]) (simp_all add: loop_inv_def loop_ok_def fr)
  have add: "loop_inv cfg (add_events outs L')" if "loop_inv cfg L'" for L'
    using that activation_events_silent[of "l_eng L'" t "l_eng L"]
    by (simp add: loop_inv_def loop_ok_def act) (simp add: add_events_def)
  have "fail_loop (L\<lparr>l_eng := s\<rparr>) = Some (L\<lparr>l_eng := failed s, l_failed := True\<rparr>)"
    using fail_loop_ok[of cfg "L\<lparr>l_eng := s\<rparr>"] 1 by (simp add: loop_inv_def)
  then show ?thesis
    using Some act add[OF 1] add[OF loop_inv_fail[OF 1]] by (auto simp: held_outputs_def)
qed

lemma frame_event_inv:
  assumes "loop_inv cfg L" "frame_event cfg d now ev L = Some L'"
  shows "loop_inv cfg L'"
proof -
  obtain p tr s1 where ing: "ingest d ev (l_eng L) = (p, tr, s1)" by (metis surj_pair)
  let ?ch = "hidden_chatter ev p (tr \<noteq> None) s1"
  let ?L2 = "record_event ev p tr ?ch (L\<lparr>l_eng := s1\<rparr>)"
  have "loop_ok cfg L" using assms(1) by (simp add: loop_inv_def)
  then obtain L3 where L3: "held_outputs tr ?L2 = Some L3" "loop_ok cfg L3" "new_to L3 tr"
    by (rule frame_event_stages[OF _ ing])
  with held_outputs_inv[OF record_event_inv[OF assms(1) ing, of ?ch], of tr]
  have inv3: "loop_inv cfg L3" by auto
  have "loop_inv cfg L'" if "tr = Some t" "frame_match cfg t now L3 = Some L'" for t
    using frame_match_safe[OF L3(2), of t now] L3(3) that
    by (auto simp: new_to_def intro: loop_inv_follows[OF inv3])
  then show ?thesis
    using assms(2) L3(1) inv3 fail_loop_ok[OF L3(2)] loop_inv_fail[OF inv3]
    by (auto simp: frame_event_def ing split: if_splits option.splits)
qed

lemma frame_events_inv:
  "loop_inv cfg L \<Longrightarrow> frame_events cfg d now evs L = Some L' \<Longrightarrow> loop_inv cfg L'"
  by (induction evs arbitrary: L) (auto split: Option.bind_splits dest: frame_event_inv)

section \<open>The operations\<close>

definition drained :: "engine \<Rightarrow> bool" where
  "drained s \<longleftrightarrow> e_journal s = [] \<or> frame_pending s (hd (e_journal s))"

lemma drain_frames_rest:
  "snd (drain_frames s fs) = dropWhile (\<lambda>f. \<not> frame_pending s f) fs"
  by (induction fs) (simp_all add: case_prod_beta)

lemma frame_pending_cong:
  "e_presses s' = e_presses s \<Longrightarrow> frame_pending s' f = frame_pending s f"
  by (simp add: frame_pending_def press_route_def)

lemma drained_drain: "drained (snd (drain s))"
proof -
  let ?rest = "dropWhile (\<lambda>f. \<not> frame_pending s f) (e_journal s)"
  have "?rest = [] \<or> frame_pending s (hd ?rest)" using hd_dropWhile by blast
  then show ?thesis
    by (simp add: drained_def drain_state drain_frames_rest frame_pending_cong[of "s\<lparr>e_journal := _\<rparr>" s])
qed

lemma journal_ok_drain: "journal_ok s \<Longrightarrow> journal_ok (snd (drain s))"
  by (auto simp: journal_ok_def drain_state drain_frames_rest events_ok_def known_def dest: set_dropWhileD)

text \<open>The invariant reads these fields only.\<close>

lemma inv_cong:
  assumes "engine_inv cfg s" "safe cfg s'" "e_physical s' = e_physical s" "e_count s' = e_count s"
    "e_next_id s' = e_next_id s" "e_presses s' = e_presses s" "e_seq s' = e_seq s"
    "e_cands s' = e_cands s" "journal_ok s'"
  shows "engine_inv cfg s'"
proof -
  have "phys_ok s'" using assms phys_ok_cong[of s' s] by (simp add: engine_inv_def)
  moreover have "undecided s' = undecided s" using assms by (simp add: undecided_def known_def)
  moreover have "owned_of s' = owned_of s" by (rule owned_of_cong) (simp_all add: assms)
  ultimately show ?thesis using assms by (simp add: engine_inv_def)
qed

lemma inv_drain:
  assumes "engine_inv cfg s"
  shows "engine_inv cfg (snd (drain s))"
  by (rule inv_cong[OF assms])
    (use assms in \<open>simp_all add: engine_inv_def journal_ok_drain\<close>, simp_all add: drain_state)

lemma handle_timeout_inv:
  assumes "engine_inv cfg s" "handle_timeout now s = Some (outs, s')"
  shows "engine_inv cfg s' \<and> drained s'"
proof -
  have "safe cfg s" using assms(1) by (simp add: engine_inv_def)
  then have "drain (if expired now s then failed s else s) = (outs, s')"
    using assms(2) fail_failed[of cfg s] by (cases "expired now s") (simp_all add: handle_timeout_def)
  moreover have "engine_inv cfg (if expired now s then failed s else s)"
    using assms(1) inv_failed by simp
  ultimately show ?thesis using inv_drain drained_drain by (metis snd_conv)
qed

lemma owned_of_set_route [simp]: "owned_of (set_route r p s) = owned_of s"
  by (rule owned_of_cong) simp_all

lemma owned_of_forward_fresh: "owned_of (forward_fresh ps s) = owned_of s"
  by (induction ps arbitrary: s) simp_all

lemma forward_fresh_route:
  "p \<in> set ps \<Longrightarrow> p_route (pr (forward_fresh ps s) p) = Undecided \<Longrightarrow> p \<in> set (owned_of s)"
proof (induction ps s rule: forward_fresh.induct)
  case (2 q ps s)
  let ?s = "if p_route (pr s q) = Undecided \<and>
      (case e_seq s of None \<Rightarrow> True | Some c \<Rightarrow> q \<notin> set (c_owned (e_cands s c)))
    then set_route Forwarded q s else s"
  have own: "owned_of ?s = owned_of s" by simp
  have und: "p_route (pr ?s p) = Undecided"
    using "2.prems"(2) follows_route[OF follows_forward_fresh[of ?s ps], of p] by simp
  show ?case
  proof (cases "p = q")
    case True
    then show ?thesis using und by (auto simp: owned_of_def split: if_splits option.splits)
  next
    case False
    then show ?thesis using "2.IH" "2.prems" own by simp
  qed
qed simp

lemma finish_frame_inv:
  assumes "loop_inv cfg L" "finish_frame cfg now L = Some s'"
  shows "engine_inv cfg s'"
proof -
  have ok: "loop_ok cfg L" using assms(1) by (simp add: loop_inv_def)
  let ?reserved = "e_mode (l_eng L) = ModeReserved \<and>
    list_ex (escapes_reservation (l_eng L)) (j_events (l_frame L))"
  obtain L1 where L1: "(if ?reserved then fail_loop L else Some L) = Some L1" "loop_inv cfg L1"
    using fail_loop_ok[OF ok] loop_inv_fail[OF assms(1)] assms(1) by (cases ?reserved) simp_all
  define s1 where "s1 = (l_eng L1)\<lparr>e_journal := e_journal (l_eng L1) @ [l_frame L1]\<rparr>"
  have s1: "safe cfg s1" "undecided s1 \<subseteq> set (owned_of s1) \<union> set (l_fresh L1)" "journal_ok s1" "phys_ok s1"
    using L1(2) phys_ok_cong[of s1 "l_eng L1"] owned_of_cong[of s1 "l_eng L1"]
    by (auto simp: s1_def loop_inv_def loop_ok_def undecided_def journal_ok_def events_ok_def known_def)
  obtain s2 where s2: "(if l_failed L1 then Some s1 else complete cfg now s1) = Some s2" "safe cfg s2"
    "follows s1 s2" using complete_safe[OF s1(1), of now] s1(1) by (cases "l_failed L1") auto
  define s3 where "s3 = forward_fresh (l_fresh L1) s2"
  have f3: "follows s1 s3" using s2(3) follows_forward_fresh unfolding s3_def by (blast intro: follows_trans)
  have "undecided s3 \<subseteq> set (owned_of s3)"
    using undecided_follows[OF f3 s1(2)] forward_fresh_route[of _ "l_fresh L1" s2]
    by (fastforce simp: s3_def owned_of_forward_fresh undecided_def)
  moreover have "journal_ok s3" "phys_ok s3"
    using f3 s1(3,4) journal_ok_appends[of s1 s3] phys_ok_follows[OF f3] by (simp_all add: follows_def)
  ultimately have inv3: "engine_inv cfg s3"
    using safe_forward_fresh[OF s2(2)] by (simp add: engine_inv_def s3_def)
  have "journal_ok (s3\<lparr>e_journal := butlast (e_journal s3)\<rparr>)"
    using inv3 by (auto simp: engine_inv_def journal_ok_def events_ok_def known_def dest: in_set_butlastD)
  then have "engine_inv cfg (s3\<lparr>e_journal := butlast (e_journal s3)\<rparr>)"
    using inv3 by (intro inv_cong[OF inv3]) (simp_all add: engine_inv_def)
  moreover have "s' = (if e_mode s3 = ModeReserved \<and> \<not> l_meaningful L1
      then s3\<lparr>e_journal := butlast (e_journal s3)\<rparr> else s3)"
    using assms(2) unfolding finish_frame_def Let_def L1(1) Option.bind.bind_lunit s1_def[symmetric] s2(1)
      s3_def[symmetric] by simp
  ultimately show ?thesis using inv3 by simp
qed

lemma loop_inv_new: "engine_inv cfg s \<Longrightarrow> loop_inv cfg (new_loop d s)"
  by (simp add: engine_inv_def loop_inv_def loop_ok_def new_loop_def)

lemma handle_frame_inv:
  assumes "engine_inv cfg s" "handle_frame cfg fr now s = Some (outs, s')"
  shows "engine_inv cfg s' \<and> drained s'"
proof -
  from assms(2) obtain outs1 s1 L s2 outs2 where 1: "handle_timeout now s = Some (outs1, s1)"
    "frame_events cfg (fr_device fr) now (fr_events fr) (new_loop (fr_device fr) s1) = Some L"
    "finish_frame cfg now L = Some s2" "drain s2 = (outs2, s')"
    by (auto simp: handle_frame_def split: Option.bind_splits prod.splits)
  have "engine_inv cfg s1" using handle_timeout_inv[OF assms(1) 1(1)] by simp
  then have "loop_inv cfg L" using frame_events_inv[OF loop_inv_new 1(2)] by simp
  then have "engine_inv cfg s2" by (rule finish_frame_inv[OF _ 1(3)])
  then show ?thesis using inv_drain[of cfg s2] drained_drain[of s2] 1(4) by simp
qed

section \<open>Recovery and shutdown\<close>

lemma fold_invariant: "(\<And>x s. P s \<Longrightarrow> P (f x s)) \<Longrightarrow> P s \<Longrightarrow> P (fold f xs s)"
  by (induction xs arbitrary: s) auto

text \<open>The entries of a device: presses that are down, each once.\<close>

lemma phys_entries:
  assumes "phys_ok s" "(c, p) \<in> set (phys_dev s d)"
  shows "phys s d c = Some p" "p_down (pr s p)" "p_device (pr s p) = d" "p_code (pr s p) = c"
proof -
  have "gm_wf (phys_dev s d)"
    using assms(1) by (auto simp: phys_ok_def devices_ok_def phys_dev_def split: option.split)
  then show "phys s d c = Some p" using assms(2) by (simp add: phys_def gm_entry_get)
  then show "p_down (pr s p)" "p_device (pr s p) = d" "p_code (pr s p) = c"
    using assms(1) by (simp_all add: phys_ok_def down_ok_def)
qed

lemma phys_entries_distinct:
  assumes "phys_ok s"
  shows "distinct (map snd (phys_dev s d))"
proof -
  have "gm_wf (phys_dev s d)"
    using assms by (auto simp: phys_ok_def devices_ok_def phys_dev_def split: option.split)
  moreover have "inj_on snd (set (phys_dev s d))"
  proof (rule inj_onI)
    fix e e' assume "e \<in> set (phys_dev s d)" "e' \<in> set (phys_dev s d)" "snd e = snd e'"
    then show "e = e'" using phys_entries(4)[OF assms] by (metis prod.collapse)
  qed
  ultimately show ?thesis by (simp add: gm_wf_def distinct_map)
qed

lemma inv_release:
  assumes "engine_inv cfg s" "p_down (pr s p)"
  shows "engine_inv cfg (release p s)"
proof -
  have "undecided (release p s) = undecided s" by (auto simp: undecided_def known_def)
  moreover have "owned_of (release p s) = owned_of s" by (rule owned_of_cong) simp_all
  moreover have "journal_ok (release p s)"
    using assms(1) journal_ok_mono[of s "release p s"] by (simp add: engine_inv_def)
  ultimately show ?thesis
    using assms safe_release phys_ok_release by (simp add: engine_inv_def)
qed

text \<open>Releasing some entries of a device: just these presses go up.\<close>

lemma inv_release_some:
  fixes keep :: "u16 \<Rightarrow> bool"
  assumes "engine_inv cfg s" "distinct (map snd xs)" "\<forall>e\<in>set xs. p_down (pr s (snd e))"
  defines "s' \<equiv> fold (\<lambda>(c, p) s. if keep c then s else release p s) xs s"
  shows "engine_inv cfg s' \<and> e_seq s' = e_seq s \<and> e_next_id s' = e_next_id s \<and> e_journal s' = e_journal s \<and>
    e_mode s' = e_mode s \<and> e_active s' = e_active s \<and>
    (\<forall>q. p_device (pr s' q) = p_device (pr s q) \<and> p_code (pr s' q) = p_code (pr s q) \<and>
      p_logical (pr s' q) = p_logical (pr s q) \<and> p_route (pr s' q) = p_route (pr s q)) \<and>
    (\<forall>q. p_down (pr s' q) \<longleftrightarrow> p_down (pr s q) \<and> \<not> (\<exists>c. (c, q) \<in> set xs \<and> \<not> keep c))"
  using assms(1-3) unfolding s'_def
proof (induction xs arbitrary: s)
  case (Cons e xs)
  obtain c p where e: "e = (c, p)" by (cases e)
  show ?case
  proof (cases "keep c")
    case True
    have "(\<exists>c'. (c', q) \<in> set (e # xs) \<and> \<not> keep c') = (\<exists>c'. (c', q) \<in> set xs \<and> \<not> keep c')" for q
      using True e by auto
    then show ?thesis using Cons.IH[OF Cons.prems(1)] Cons.prems e True by simp
  next
    case False
    have inv: "engine_inv cfg (release p s)" using Cons.prems e by (intro inv_release) auto
    have "\<forall>e\<in>set xs. p_down (pr (release p s) (snd e))" using Cons.prems(2,3) e by auto
    note IH = Cons.IH[OF inv _ this]
    have "(\<exists>c'. (c', q) \<in> set (e # xs) \<and> \<not> keep c') = (q = p \<or> (\<exists>c'. (c', q) \<in> set xs \<and> \<not> keep c'))" for q
      using False e by auto
    moreover have "p_device (pr (release p s) q) = p_device (pr s q) \<and> p_code (pr (release p s) q) = p_code (pr s q) \<and>
      p_logical (pr (release p s) q) = p_logical (pr s q) \<and> p_route (pr (release p s) q) = p_route (pr s q)" for q
      by simp
    ultimately show ?thesis using IH Cons.prems(2) False e by simp
  qed
qed simp

lemma inv_stop_activation:
  assumes "engine_inv cfg s"
  shows "engine_inv cfg (stop_activation a s)"
  using assms journal_ok_appends[OF appends_stop_activation[of s a]]
  by (intro inv_cong[OF assms]) (simp_all add: engine_inv_def)

lemma fold_upd_act_frame:
  "\<exists>acts. fold (\<lambda>a. upd_act a f) as s = s\<lparr>e_acts := acts\<rparr>"
proof (induction as arbitrary: s)
  case Nil
  show ?case by (rule exI[of _ "e_acts s"]) simp
next
  case (Cons a as)
  obtain acts where "fold (\<lambda>a. upd_act a f) as (upd_act a f s) = (upd_act a f s)\<lparr>e_acts := acts\<rparr>"
    using Cons by blast
  moreover have "(upd_act a f s)\<lparr>e_acts := acts\<rparr> = s\<lparr>e_acts := acts\<rparr>" by (simp add: upd_act_def)
  ultimately show ?case by (intro exI[of _ acts]) simp
qed

lemma inv_end_activations:
  assumes "engine_inv cfg s"
  shows "engine_inv cfg (end_activations as s)"
proof -
  obtain acts where "fold (\<lambda>a. upd_act a (\<lambda>x. x\<lparr>a_live := False\<rparr>)) as s = s\<lparr>e_acts := acts\<rparr>"
    using fold_upd_act_frame by blast
  moreover from this have "safe cfg (end_activations as s)" using assms by (simp add: engine_inv_def)
  ultimately show ?thesis
    using assms by (intro inv_cong[OF assms])
      (simp_all add: end_activations_def engine_inv_def journal_ok_def events_ok_def known_def)
qed

lemma inv_drop_journal:
  assumes "engine_inv cfg s" "\<forall>f\<in>set js. \<exists>f'\<in>set (e_journal s). set (j_events f) \<subseteq> set (j_events f')"
  shows "engine_inv cfg (s\<lparr>e_journal := js\<rparr>)"
proof -
  have "journal_ok (s\<lparr>e_journal := js\<rparr>)"
    using assms unfolding engine_inv_def journal_ok_def events_ok_def known_def by fastforce
  then show ?thesis using assms(1) by (intro inv_cong[OF assms(1)]) (simp_all add: engine_inv_def)
qed

lemma inv_drop_device_inputs: "engine_inv cfg s \<Longrightarrow> engine_inv cfg (drop_device_inputs d s)"
  unfolding drop_device_inputs_def by (rule inv_drop_journal) (force simp: drop_inputs_def)+

lemma inv_drop_presses: "engine_inv cfg s \<Longrightarrow> engine_inv cfg (drop_presses s)"
  unfolding drop_presses_def by (rule inv_drop_journal) force+

lemma inv_queue_output:
  assumes "engine_inv cfg s"
  shows "engine_inv cfg (queue_output out s)"
  using assms journal_ok_appends[OF appends_queue_output[of s out]]
  by (intro inv_cong[OF assms]) (simp_all add: engine_inv_def)

subsection \<open>Adoption of the keys a snapshot reports\<close>

lemma no_undecided: "engine_inv cfg s \<Longrightarrow> e_seq s = None \<Longrightarrow> undecided s = {}"
  by (auto simp: engine_inv_def owned_of_def)

lemma adopt_known:
  assumes "engine_inv cfg s" "e_seq s = None" "phys s d c = Some p"
  shows "adopt_code d c s = (p, s)"
proof -
  have "known s p" using assms(1,3) by (auto simp: engine_inv_def phys_ok_def down_ok_def known_def)
  then have "p_route (pr s p) \<noteq> Undecided" using no_undecided[OF assms(1,2)] by (auto simp: undecided_def)
  then show ?thesis using assms(3) by (simp add: adopt_code_def)
qed

lemma adopt_new:
  assumes "phys s d c = None"
  shows "adopt_code d c s =
    (Suc (e_next_id s), set_route Forwarded (Suc (e_next_id s)) (snd (new_press d c s)))"
  using assms by (simp add: adopt_code_def ingest_def Let_def case_prod_beta)

lemma phys_set_route [simp]: "phys (set_route r p s) d c = phys s d c"
  by (simp add: phys_def phys_dev_def)

lemma adopt_code_inv:
  fixes d :: device and c :: u16
  assumes "engine_inv cfg s" "e_seq s = None"
  defines "p \<equiv> fst (adopt_code d c s)" and "s' \<equiv> snd (adopt_code d c s)"
  shows "engine_inv cfg s' \<and> e_seq s' = None \<and> e_journal s' = e_journal s \<and>
    phys s' d c = Some p \<and> e_next_id s \<le> e_next_id s' \<and>
    (\<forall>d' c'. (d', c') \<noteq> (d, c) \<longrightarrow> phys s' d' c' = phys s d' c') \<and>
    (\<forall>q. phys s d c = Some q \<longrightarrow> p = q) \<and> (\<forall>q. known s q \<longrightarrow> pr s' q = pr s q)"
proof (cases "phys s d c")
  case (Some q)
  then show ?thesis using adopt_known[OF assms(1,2) Some] assms by simp
next
  case None
  let ?n = "snd (new_press d c s)"
  have s': "p = Suc (e_next_id s)" "s' = set_route Forwarded p ?n"
    using adopt_new[OF None] by (simp_all add: p_def s'_def)
  have "undecided s' = {}"
    using no_undecided[OF assms(1,2)] by (auto simp: undecided_def known_def s' split: if_splits)
  moreover have "phys_ok s'"
    using phys_ok_new_press[of s d c] assms(1) None phys_ok_cong[of s' ?n]
    by (simp add: engine_inv_def s')
  moreover have "journal_ok s'"
    using assms(1) journal_ok_mono[of s s'] by (simp add: engine_inv_def s')
  moreover have "safe cfg s'"
    using safe_adopt_code(1)[of cfg s d c] assms by (simp add: engine_inv_def)
  ultimately have "engine_inv cfg s'" by (simp add: engine_inv_def)
  then show ?thesis
    using assms(2) None by (auto simp: s' phys_new_press known_def)
qed

lemma adopt_codes_inv:
  assumes "engine_inv cfg s" "e_seq s = None" "adopt_codes d cs vis s = (vis', s')"
  shows "engine_inv cfg s' \<and> e_seq s' = None \<and> e_journal s' = e_journal s \<and> e_next_id s \<le> e_next_id s' \<and>
    (\<forall>d' c'. phys s' d' c' = None \<longleftrightarrow> phys s d' c' = None \<and> \<not> (d' = d \<and> c' \<in> set cs)) \<and>
    (\<forall>d' c' q. phys s d' c' = Some q \<longrightarrow> phys s' d' c' = Some q) \<and>
    (\<forall>q. known s q \<longrightarrow> pr s' q = pr s q) \<and>
    (\<forall>c'. gm_true vis' c' \<longleftrightarrow> gm_true vis c' \<or>
       c' \<in> set cs \<and> (\<exists>q. phys s' d c' = Some q \<and> p_route (pr s' q) = Forwarded))"
  using assms
proof (induction cs arbitrary: vis s)
  case (Cons c cs)
  obtain p s1 where 1: "adopt_code d c s = (p, s1)" by (metis surj_pair)
  note step = adopt_code_inv[OF Cons.prems(1,2), of d c, unfolded 1, simplified]
  let ?vis = "if p_route (pr s1 p) = Forwarded then gm_put c True vis else vis"
  have "adopt_codes d cs ?vis s1 = (vis', s')" using Cons.prems(3) 1 by simp
  from Cons.IH[OF _ _ this] step have IH: "engine_inv cfg s'" "e_seq s' = None" "e_journal s' = e_journal s1"
    "e_next_id s1 \<le> e_next_id s'"
    "\<forall>d' c'. phys s' d' c' = None \<longleftrightarrow> phys s1 d' c' = None \<and> \<not> (d' = d \<and> c' \<in> set cs)"
    "\<forall>d' c' q. phys s1 d' c' = Some q \<longrightarrow> phys s' d' c' = Some q"
    "\<forall>q. known s1 q \<longrightarrow> pr s' q = pr s1 q"
    "\<forall>c'. gm_true vis' c' \<longleftrightarrow> gm_true ?vis c' \<or>
       c' \<in> set cs \<and> (\<exists>q. phys s' d c' = Some q \<and> p_route (pr s' q) = Forwarded)" by auto
  have "known s1 p" using step by (auto simp: engine_inv_def phys_ok_def down_ok_def known_def)
  then have p: "phys s' d c = Some p" "pr s' p = pr s1 p" using IH(6,7) step by auto
  have "phys s' d' c' = None \<longleftrightarrow> phys s d' c' = None \<and> \<not> (d' = d \<and> c' \<in> set (c # cs))" for d' c'
    using IH(5) step by (cases "(d', c') = (d, c)") auto
  moreover have "phys s d' c' = Some q \<longrightarrow> phys s' d' c' = Some q" for d' c' q
    using IH(6) step p(1) by (cases "(d', c') = (d, c)") auto
  moreover have "known s q \<longrightarrow> pr s' q = pr s q" for q using IH(7) step by (auto simp: known_def)
  moreover have "gm_true vis' c' \<longleftrightarrow> gm_true vis c' \<or>
       c' \<in> set (c # cs) \<and> (\<exists>q. phys s' d c' = Some q \<and> p_route (pr s' q) = Forwarded)" for c'
    using IH(8) p by (cases "c' = c") auto
  ultimately show ?case using IH(1-4) step by auto
qed simp

lemma adopt_codes_mode: "e_mode (snd (adopt_codes d cs vis s)) = e_mode s"
proof (induction cs arbitrary: vis s)
  case (Cons c cs)
  have "e_mode (snd (adopt_code d c s)) = e_mode s"
    by (cases "phys s d c") (simp_all add: adopt_new, simp add: adopt_code_def)
  then show ?case using Cons by (simp add: case_prod_beta Let_def)
qed simp

subsection \<open>Draining when nothing is undecided\<close>

lemma nothing_pending:
  assumes "engine_inv cfg s" "e_seq s = None" "f \<in> set (e_journal s)"
  shows "\<not> frame_pending s f"
proof -
  have "events_ok s (j_events f)" using assms(1,3) by (simp add: engine_inv_def journal_ok_def)
  then show ?thesis
    using no_undecided[OF assms(1,2)]
    by (auto simp: frame_pending_def press_route_def events_ok_def undecided_def list_ex_iff)
qed

lemma drain_frames_all:
  "\<forall>f\<in>set fs. \<not> frame_pending s f \<Longrightarrow> drain_frames s fs = (concat (map (frame_outputs s) fs), [])"
  by (induction fs) simp_all

lemma drain_all:
  assumes "engine_inv cfg s" "e_seq s = None"
  shows "drain s = (concat (map (frame_outputs s) (e_journal s)), s\<lparr>e_journal := []\<rparr>)"
  using drain_frames_all[of "e_journal s" s] nothing_pending[OF assms] by (simp add: drain_def)

lemma frame_outputs_generated: "j_events f = [recorded_output out None] \<Longrightarrow> frame_outputs s f = [out]"
  by (simp add: frame_outputs_def flush_events_def)

lemma drain_queued:
  assumes "engine_inv cfg s" "e_seq s = None"
  shows "\<exists>outs. drain (queue_output out s) = (outs @ [out], (queue_output out s)\<lparr>e_journal := []\<rparr>)"
  using drain_all[OF inv_queue_output[OF assms(1)], of out] assms(2)
  by (auto simp: queue_output_def frame_outputs_generated)

subsection \<open>Resynchronisation\<close>

lemma end_activations_phys [simp]:
  "e_physical (end_activations as s) = e_physical s" "e_mode (end_activations as s) = e_mode s"
  "e_presses (end_activations as s) = e_presses s"
proof -
  obtain acts where "fold (\<lambda>a. upd_act a (\<lambda>x. x\<lparr>a_live := False\<rparr>)) as s = s\<lparr>e_acts := acts\<rparr>"
    using fold_upd_act_frame by blast
  then show "e_physical (end_activations as s) = e_physical s" "e_mode (end_activations as s) = e_mode s"
    "e_presses (end_activations as s) = e_presses s"
    by (simp_all add: end_activations_def)
qed

lemma fold_stop_frame:
  "e_physical (fold stop_activation as s) = e_physical s" "e_mode (fold stop_activation as s) = e_mode s"
  "e_seq (fold stop_activation as s) = e_seq s" "e_presses (fold stop_activation as s) = e_presses s"
  "e_next_id (fold stop_activation as s) = e_next_id s"
  by (induction as arbitrary: s) simp_all

lemma phys_same: "e_physical s' = e_physical s \<Longrightarrow> phys s' d c = phys s d c"
  by (simp add: phys_def phys_dev_def)

lemma phys_release_missing:
  fixes d :: device and pressed :: "(u16, bool) gomap"
  assumes "engine_inv cfg s"
  defines "s' \<equiv> release_missing d pressed s"
  shows "engine_inv cfg s'" "e_seq s' = e_seq s" "e_mode s' = e_mode s" "e_journal s' = e_journal s"
    "\<And>c p. phys s' d c = Some p \<longleftrightarrow> phys s d c = Some p \<and> gm_true pressed c"
    "\<And>d' c p. d' \<noteq> d \<Longrightarrow> phys s' d' c = Some p \<longleftrightarrow> phys s d' c = Some p"
    "\<And>p. p_route (pr s' p) = p_route (pr s p)"
proof -
  have ok: "phys_ok s" using assms(1) by (simp add: engine_inv_def)
  note entries = phys_entries[OF ok]
  have "\<forall>e\<in>set (phys_dev s d). p_down (pr s (snd e))" using entries(2) by auto
  note rel = inv_release_some[OF assms(1) phys_entries_distinct[OF ok] this, of "gm_true pressed",
      folded release_missing_def, folded s'_def]
  show "engine_inv cfg s'" "e_seq s' = e_seq s" "e_mode s' = e_mode s" "e_journal s' = e_journal s"
    "\<And>p. p_route (pr s' p) = p_route (pr s p)" using rel by simp_all
  then have ok': "phys_ok s'" by (simp add: engine_inv_def)
  have down: "phys t d c = Some p \<longleftrightarrow> p_down (pr t p) \<and> p_device (pr t p) = d \<and> p_code (pr t p) = c"
    if "phys_ok t" for t d c p using that by (simp add: phys_ok_def down_ok_def)
  have entry: "(c, p) \<in> set (phys_dev s d) \<longleftrightarrow> phys s d c = Some p" for c p
    using entries(1) by (auto simp: phys_def dest: gm_get_entry)
  show "phys s' d c = Some p \<longleftrightarrow> phys s d c = Some p \<and> gm_true pressed c" for c p
    using rel unfolding down[OF ok'] down[OF ok] entry by auto
  show "phys s' d' c = Some p \<longleftrightarrow> phys s d' c = Some p" if "d' \<noteq> d" for d' c p
    using rel that unfolding down[OF ok'] down[OF ok] entry by auto
qed

lemma pressed_codes: "set (sort (filter (gm_true m) (gm_keys m))) = {c. gm_true m c}"
  by (auto simp: gm.keys_get gm_true_def)

lemma reconcile_result:
  assumes "engine_inv cfg s" "reconcile d pressed s = Some (outs, s')"
  shows "engine_inv cfg s' \<and> e_seq s' = None \<and> e_mode s' = ModeIdle \<and> e_journal s' = [] \<and>
    (\<forall>c. phys s' d c \<noteq> None \<longleftrightarrow> gm_true pressed c) \<and>
    (\<forall>d' c. d' \<noteq> d \<longrightarrow> phys s' d' c = phys s d' c) \<and>
    (\<exists>rest visible. outs = rest @ [ReconcileDevice d visible] \<and>
       (\<forall>c. gm_true visible c \<longleftrightarrow> (\<exists>p. phys s' d c = Some p \<and> p_route (pr s' p) = Forwarded)))"
proof -
  define ended where "ended = ended_by d (failed s)"
  define s1 where "s1 = drop_device_inputs d (end_activations ended (failed s))"
  have s1: "engine_inv cfg s1" "e_seq s1 = None" "e_mode s1 = ModeIdle" "e_physical s1 = e_physical s"
    using assms(1) by (simp_all add: s1_def inv_failed inv_end_activations inv_drop_device_inputs,
      simp_all add: drop_device_inputs_def)
  obtain outs1 s2 where 2: "drain s1 = (outs1, s2)" by (metis surj_pair)
  have s2: "engine_inv cfg s2" "s2 = s1\<lparr>e_journal := []\<rparr>"
    using inv_drain[OF s1(1)] drain_all[OF s1(1,2)] 2 by simp_all
  define s3 where "s3 = fold stop_activation ended s2"
  have s3: "engine_inv cfg s3" "e_seq s3 = None" "e_mode s3 = ModeIdle" "e_physical s3 = e_physical s"
    using s1 s2 by (simp_all add: s3_def fold_stop_frame fold_invariant[of "engine_inv cfg"] inv_stop_activation)
  define s4 where "s4 = release_missing d pressed s3"
  note rel = phys_release_missing[OF s3(1), where d = d and pressed = pressed, folded s4_def]
  let ?codes = "sort (filter (gm_true pressed) (gm_keys pressed))"
  obtain vis s5 where 5: "adopt_codes d ?codes [] s4 = (vis, s5)" by (metis surj_pair)
  have seq4: "e_seq s4 = None" using rel(2) s3(2) by simp
  have ad: "engine_inv cfg s5" "e_seq s5 = None" "e_journal s5 = e_journal s4" "e_next_id s4 \<le> e_next_id s5"
    "\<forall>d' c'. phys s5 d' c' = None \<longleftrightarrow> phys s4 d' c' = None \<and> \<not> (d' = d \<and> c' \<in> set ?codes)"
    "\<forall>d' c' q. phys s4 d' c' = Some q \<longrightarrow> phys s5 d' c' = Some q"
    "\<forall>q. known s4 q \<longrightarrow> pr s5 q = pr s4 q"
    "\<forall>c'. gm_true vis c' \<longleftrightarrow> gm_true [] c' \<or>
       c' \<in> set ?codes \<and> (\<exists>q. phys s5 d c' = Some q \<and> p_route (pr s5 q) = Forwarded)"
    using adopt_codes_inv[OF rel(1) seq4 5] by - ((elim conjE, assumption)+)
  note ad5 = ad(1,2)
  have m5: "e_mode s5 = ModeIdle" using adopt_codes_mode[of d ?codes "[]" s4] 5 rel(3) s3(3) by simp
  obtain outs2 where 6: "drain (queue_output (ReconcileDevice d vis) s5) =
      (outs2 @ [ReconcileDevice d vis], (queue_output (ReconcileDevice d vis) s5)\<lparr>e_journal := []\<rparr>)"
    using drain_queued[OF ad5] by blast
  have "safe cfg s" using assms(1) by (simp add: engine_inv_def)
  then have res: "outs = (outs1 @ outs2) @ [ReconcileDevice d vis]"
    "s' = (queue_output (ReconcileDevice d vis) s5)\<lparr>e_journal := []\<rparr>"
    using assms(2) 2 5 6 fail_failed[of cfg s]
    by (simp_all add: reconcile_def Let_def ended_def[symmetric] s1_def[symmetric] s3_def[symmetric] s4_def[symmetric])
  have inv: "engine_inv cfg s'"
    using inv_drain[OF inv_queue_output[OF ad5(1), of "ReconcileDevice d vis"]] by (simp only: 6 snd_conv res(2))
  have ph: "phys s' d' c = phys s5 d' c" "pr s' p = pr s5 p" for d' c p
    unfolding res(2) by (simp_all add: phys_def phys_dev_def)
  have codes: "c \<in> set ?codes \<longleftrightarrow> gm_true pressed c" for c using pressed_codes[of pressed] by auto
  have keys: "phys s' d c \<noteq> None \<longleftrightarrow> gm_true pressed c" for c
    using ad(5)[rule_format, of d c] rel(5)[of c] codes[of c] unfolding ph by (cases "phys s4 d c") auto
  have others: "phys s' d' c = phys s d' c" if "d' \<noteq> d" for d' c
  proof -
    have "phys s4 d' c = phys s d' c"
      using rel(6)[OF that, of c] phys_same[OF s3(4), of d' c] by (metis not_Some_eq)
    then show ?thesis
      using ad(5)[rule_format, of d' c] ad(6)[rule_format, of d' c] that unfolding ph
      by (cases "phys s d' c") auto
  qed
  have vis: "gm_true vis c \<longleftrightarrow> (\<exists>p. phys s' d c = Some p \<and> p_route (pr s' p) = Forwarded)" for c
    using ad(8)[rule_format, of c] codes[of c] keys[of c] unfolding ph by auto
  have "e_seq s' = None" "e_mode s' = ModeIdle" "e_journal s' = []"
    using ad5(2) m5 by (simp_all add: res(2))
  with inv keys others vis res(1) show ?thesis by blast
qed

subsection \<open>Shutdown\<close>

definition cleared :: "engine \<Rightarrow> device \<Rightarrow> bool" where
  "cleared s d \<longleftrightarrow> (\<exists>f\<in>set (e_journal s). j_events f = [recorded_output (ReconcileDevice d []) None])"

lemma close_device_result:
  fixes d :: device
  assumes "engine_inv cfg s"
  defines "s' \<equiv> close_device d s"
  shows "engine_inv cfg s'" "e_seq s' = e_seq s" "e_mode s' = e_mode s" "e_active s' = e_active s"
    "cleared s' d" "set (e_journal s) \<subseteq> set (e_journal s')"
    "phys s' d' c = (if d' = d then None else phys s d' c)"
proof -
  have ok: "phys_ok s" using assms(1) by (simp add: engine_inv_def)
  have eq: "(\<lambda>(c, p) s. if (\<lambda>_::u16. False) c then s else release p s) = (\<lambda>(c, p). release p)" by auto
  let ?t = "fold (\<lambda>(c, p). release p) (phys_dev s d) s"
  have "\<forall>e\<in>set (phys_dev s d). p_down (pr s (snd e))" using phys_entries(2)[OF ok] by auto
  note rel = inv_release_some[OF assms(1) phys_entries_distinct[OF ok] this, of "\<lambda>_. False", unfolded eq]
  have s': "s' = queue_output (ReconcileDevice d []) ?t" by (simp add: s'_def close_device_def)
  show "engine_inv cfg s'" using rel by (simp add: s' inv_queue_output)
  show "e_seq s' = e_seq s" "e_mode s' = e_mode s" "e_active s' = e_active s"
    using rel by (simp_all add: s')
  show "cleared s' d" "set (e_journal s) \<subseteq> set (e_journal s')"
    using rel by (auto simp: s' cleared_def queue_output_def)
  have ok': "phys_ok ?t" using rel by (simp add: engine_inv_def)
  have down: "phys t d c = Some p \<longleftrightarrow> p_down (pr t p) \<and> p_device (pr t p) = d \<and> p_code (pr t p) = c"
    if "phys_ok t" for t d c p using that by (simp add: phys_ok_def down_ok_def)
  have entry: "(c, p) \<in> set (phys_dev s d) \<longleftrightarrow> phys s d c = Some p" for c p
    using phys_entries(1)[OF ok] by (auto simp: phys_def dest: gm_get_entry)
  have "phys ?t d' c = Some p \<longleftrightarrow> d' \<noteq> d \<and> phys s d' c = Some p" for p
    using rel unfolding down[OF ok'] down[OF ok] entry by auto
  then have "phys ?t d' c = (if d' = d then None else phys s d' c)"
    by (metis not_Some_eq)
  then show "phys s' d' c = (if d' = d then None else phys s d' c)"
    by (simp add: s' phys_def phys_dev_def)
qed

lemma close_devices_result:
  fixes ds :: "device list"
  assumes "engine_inv cfg s"
  defines "s' \<equiv> fold close_device ds s"
  shows "engine_inv cfg s' \<and> e_seq s' = e_seq s \<and> e_mode s' = e_mode s \<and> e_active s' = e_active s \<and>
    (\<forall>d\<in>set ds. cleared s' d) \<and> set (e_journal s) \<subseteq> set (e_journal s') \<and>
    (\<forall>d c. phys s' d c = (if d \<in> set ds then None else phys s d c))"
  using assms(1) unfolding s'_def
proof (induction ds arbitrary: s)
  case (Cons d ds)
  note one = close_device_result[OF Cons.prems, of d]
  note IH = Cons.IH[OF one(1)]
  have "cleared (fold close_device ds (close_device d s)) d"
    using one(5) IH by (auto simp: cleared_def)
  with IH one show ?case by auto
qed simp

lemma close_result:
  assumes "engine_inv cfg s" "close_engine s = Some (outs, s')"
  shows "engine_inv cfg s' \<and> e_seq s' = None \<and> e_mode s' = ModeIdle \<and> e_journal s' = [] \<and>
    e_active s' = [] \<and> (\<forall>d c. phys s' d c = None) \<and>
    (\<forall>d c. phys s d c \<noteq> None \<longrightarrow> ReconcileDevice d [] \<in> set outs)"
proof -
  define s1 where "s1 = fold stop_activation (e_active s) (drop_presses (failed s))"
  define s2 where "s2 = s1\<lparr>e_active := []\<rparr>"
  have inv1: "engine_inv cfg s1"
    unfolding s1_def by (rule fold_invariant) (simp_all add: inv_stop_activation inv_drop_presses inv_failed assms(1))
  have s1: "e_seq s1 = None" "e_mode s1 = ModeIdle" "e_physical s1 = e_physical s"
    by (simp_all add: s1_def fold_stop_frame drop_presses_def)
  have "journal_ok s1" "safe cfg s1" using inv1 by (simp_all add: engine_inv_def)
  moreover from this have "journal_ok s2" using journal_ok_mono[of s1 s2] by (simp add: s2_def)
  ultimately have inv2: "engine_inv cfg s2"
    by (intro inv_cong[OF inv1]) (simp_all add: s2_def)
  let ?ds = "sort (gm_keys (e_physical s2))"
  define s3 where "s3 = fold close_device ?ds s2"
  note cl = close_devices_result[OF inv2, of ?ds, folded s3_def]
  have s2: "e_seq s2 = None" "e_mode s2 = ModeIdle" "e_active s2 = []" "e_physical s2 = e_physical s"
    using s1 by (simp_all add: s2_def)
  have "safe cfg s" using assms(1) by (simp add: engine_inv_def)
  then have dr: "drain s3 = (outs, s')"
    using assms(2) fail_failed[of cfg s]
    by (simp add: close_engine_def s1_def s2_def s3_def)
  have inv3: "engine_inv cfg s3" "e_seq s3 = None" using cl s2(1) by simp_all
  have outs: "outs = concat (map (frame_outputs s3) (e_journal s3))" "s' = s3\<lparr>e_journal := []\<rparr>"
    using drain_all[OF inv3] dr by simp_all
  have dev: "d \<in> set ?ds" if "phys s2 d c \<noteq> None" for d c
    using that by (auto simp: phys_def phys_dev_def gm.keys_get split: option.splits)
  have gone: "phys s3 d c = None" for d c using cl dev[of d c] by (cases "phys s2 d c = None") auto
  have "ReconcileDevice d [] \<in> set outs" if "phys s d c \<noteq> None" for d c
  proof -
    have "phys s2 d c \<noteq> None" using that phys_same[OF s2(4)] by simp
    then have "cleared s3 d" using cl dev by blast
    then obtain f where f: "f \<in> set (e_journal s3)" "frame_outputs s3 f = [ReconcileDevice d []]"
      unfolding cleared_def using frame_outputs_generated by blast
    from f(1) have "frame_outputs s3 f \<in> set (map (frame_outputs s3) (e_journal s3))" by simp
    moreover have "ReconcileDevice d [] \<in> set (frame_outputs s3 f)" by (simp add: f(2))
    ultimately show ?thesis unfolding outs(1) set_concat by blast
  qed
  moreover have "engine_inv cfg s'" using inv_drain[OF inv3(1)] dr by simp
  moreover have "phys s' d c = None" for d c using gone by (simp add: outs(2) phys_def phys_dev_def)
  ultimately show ?thesis using cl s2 by (simp add: outs(2))
qed

section \<open>Every reachable state\<close>

lemma drained_empty: "e_journal s = [] \<Longrightarrow> drained s"
  by (simp add: drained_def)

lemma engine_step_inv:
  assumes "engine_inv cfg s" "engine_step cfg i s = Some (os, s')"
  shows "engine_inv cfg s' \<and> drained s'"
proof (cases i)
  case (FrameIn fr now)
  then show ?thesis using handle_frame_inv[OF assms(1)] assms(2) by simp
next
  case (TimeoutIn now)
  then show ?thesis using handle_timeout_inv[OF assms(1)] assms(2) by simp
next
  case (ReconcileIn d pressed)
  then have "reconcile d pressed s = Some (os, s')" using assms(2) by simp
  from reconcile_result[OF assms(1) this] show ?thesis by (blast intro: drained_empty)
next
  case CloseIn
  then have "close_engine s = Some (os, s')" using assms(2) by simp
  from close_result[OF assms(1) this] show ?thesis by (blast intro: drained_empty)
qed

lemma engine_inv_new: "engine_inv cfg new_engine \<and> drained new_engine"
proof -
  have "e_journal new_engine = []" "e_next_id new_engine = 0" by (simp_all add: new_engine_def)
  then have "undecided new_engine = {}" "journal_ok new_engine" "drained new_engine"
    by (auto simp: undecided_def known_def journal_ok_def drained_def)
  then show ?thesis by (simp add: engine_inv_def safe_new phys_ok_new)
qed

interpretation eo: panic_free_machine "engine_step cfg" "\<lambda>s. engine_inv cfg s \<and> drained s" for cfg
proof
  fix s i
  assume inv: "engine_inv cfg s \<and> drained s"
  then obtain os s' where "engine_step cfg i s = Some (os, s')"
    using engine_step_safe[of cfg s i] by (auto simp: engine_inv_def)
  with inv show "\<exists>os s'. engine_step cfg i s = Some (os, s') \<and> engine_inv cfg s' \<and> drained s'"
    using engine_step_inv by blast
qed

lemma engine_run_inv: "engine_run cfg ins = Some (os, s) \<Longrightarrow> engine_inv cfg s \<and> drained s"
  unfolding engine_run_def
  by (rule eo.run_keeps[OF engine_inv_new])

end
