(* ===== verification/Engine_Routes.thy ===== *)
theory Engine_Routes
  imports Engine_Ownership
begin

text \<open>
  Every press has one disposition.  \<open>persists\<close> relates the state before and after an operation: a
  press keeps its device, code and logical key, keeps its route once it has one, and never goes down
  again (a key that is pressed again is a new press).  It holds across every operation.
\<close>

definition press_kept :: "press \<Rightarrow> press \<Rightarrow> bool" where
  "press_kept x y \<longleftrightarrow> p_device y = p_device x \<and> p_code y = p_code x \<and> p_logical y = p_logical x \<and>
     (p_route x \<noteq> Undecided \<longrightarrow> p_route y = p_route x) \<and> (p_down y \<longrightarrow> p_down x)"

definition persists :: "engine \<Rightarrow> engine \<Rightarrow> bool" where
  "persists s s' \<longleftrightarrow> e_next_id s \<le> e_next_id s' \<and> (\<forall>p. known s p \<longrightarrow> press_kept (pr s p) (pr s' p))"

lemma press_kept_refl [simp]: "press_kept x x"
  by (simp add: press_kept_def)

lemma press_kept_trans: "press_kept x y \<Longrightarrow> press_kept y z \<Longrightarrow> press_kept x z"
  by (auto simp: press_kept_def)

lemma persists_same: "e_next_id s' = e_next_id s \<Longrightarrow> e_presses s' = e_presses s \<Longrightarrow> persists s s'"
  by (simp add: persists_def)

lemma persists_refl: "persists s s"
  by (simp add: persists_same)

lemma persists_trans: "persists s s' \<Longrightarrow> persists s' s'' \<Longrightarrow> persists s s''"
  unfolding persists_def known_def by (metis le_trans press_kept_trans)

lemma persists_follows:
  assumes "follows s s'"
  shows "persists s s'"
proof -
  have "pr s' p = (pr s p)\<lparr>p_route := p_route (pr s' p)\<rparr>" for p using assms by (simp add: follows_def)
  then have "p_device (pr s' p) = p_device (pr s p)" "p_code (pr s' p) = p_code (pr s p)"
    "p_logical (pr s' p) = p_logical (pr s p)" "p_down (pr s' p) = p_down (pr s p)" for p
    by (metis press.select_convs(1-4) press.surjective press.update_convs(5))+
  then show ?thesis using assms by (simp add: persists_def press_kept_def follows_def)
qed

lemma persists_failed: "safe cfg s \<Longrightarrow> persists s (failed s)"
  by (rule persists_follows) (rule follows_failed)

lemma persists_ingest: "ingest d ev s = (p, tr, s') \<Longrightarrow> persists s s'"
  by (erule ingest_cases) (auto simp: persists_def press_kept_def known_def)

lemma persists_drain: "persists s (snd (drain s))"
  by (simp add: drain_state persists_same)

section \<open>Frames\<close>

lemma persists_held_outputs:
  assumes "loop_ok cfg L" "held_outputs tr L = Some L'"
  shows "persists (l_eng L) (l_eng L')"
proof (cases tr)
  case None
  then show ?thesis using assms(2) by (simp add: held_outputs_def persists_refl)
next
  case (Some t)
  obtain outs s where act: "activation_events t (l_eng L) = (outs, s)" by (metis surj_pair)
  note fr = activation_events_frame[OF act]
  have s: "loop_ok cfg (L\<lparr>l_eng := s\<rparr>)"
    using assms(1) safe_activation_events[OF _ act] by (auto simp: loop_ok_def fr)
  have 1: "persists (l_eng L) s" by (simp add: persists_same fr)
  have "persists (l_eng L) (failed s)"
    using persists_trans[OF 1 persists_failed[of cfg s]] s by (simp add: loop_ok_def)
  then show ?thesis
    using Some act assms(2) 1 fail_loop_ok[OF s] by (auto simp: held_outputs_def split: if_splits)
qed

lemma persists_frame_event:
  assumes "loop_ok cfg L" "frame_event cfg d now ev L = Some L'"
  shows "persists (l_eng L) (l_eng L')"
proof -
  obtain p tr s1 where ing: "ingest d ev (l_eng L) = (p, tr, s1)" by (metis surj_pair)
  let ?L2 = "record_event ev p tr (hidden_chatter ev p (tr \<noteq> None) s1) (L\<lparr>l_eng := s1\<rparr>)"
  obtain L3 where L3: "held_outputs tr ?L2 = Some L3" "loop_ok cfg L3" "new_to L3 tr"
    by (rule frame_event_stages[OF assms(1) ing])
  have "loop_ok cfg ?L2"
    using assms(1) safe_ingest[OF _ ing] ingest_next_id[OF ing] by (auto simp: loop_ok_def)
  from persists_trans[OF persists_ingest[OF ing]] persists_held_outputs[OF this L3(1)]
  have 3: "persists (l_eng L) (l_eng L3)" by simp
  have "persists (l_eng L3) (l_eng L')" if "tr = Some t" "frame_match cfg t now L3 = Some L'" for t
    using frame_match_safe[OF L3(2), of t now] L3(3) that by (auto simp: new_to_def intro: persists_follows)
  moreover have "persists (l_eng L3) (failed (l_eng L3))"
    using L3(2) by (auto simp: loop_ok_def intro: persists_failed)
  ultimately have "persists (l_eng L3) (l_eng L')"
    using assms(2) L3(1) fail_loop_ok[OF L3(2)]
    by (auto simp: frame_event_def ing persists_refl split: if_splits option.splits)
  with 3 show ?thesis by (rule persists_trans)
qed

lemma persists_frame_events:
  "loop_ok cfg L \<Longrightarrow> frame_events cfg d now evs L = Some L' \<Longrightarrow> persists (l_eng L) (l_eng L')"
proof (induction evs arbitrary: L)
  case (Cons ev evs)
  then obtain L1 where 1: "frame_event cfg d now ev L = Some L1" "frame_events cfg d now evs L1 = Some L'"
    by (auto split: Option.bind_splits)
  have "loop_ok cfg L1" using frame_event_ok[OF Cons.prems(1), of d now ev] 1(1) by auto
  then show ?case
    using persists_frame_event[OF Cons.prems(1) 1(1)] Cons.IH[OF _ 1(2)] by (blast intro: persists_trans)
qed (simp add: persists_refl)

lemma persists_finish_frame:
  assumes "loop_ok cfg L" "finish_frame cfg now L = Some s'"
  shows "persists (l_eng L) s'"
proof -
  let ?reserved = "e_mode (l_eng L) = ModeReserved \<and>
    list_ex (escapes_reservation (l_eng L)) (j_events (l_frame L))"
  obtain L1 where L1: "(if ?reserved then fail_loop L else Some L) = Some L1" "loop_ok cfg L1"
    "persists (l_eng L) (l_eng L1)"
    using fail_loop_ok[OF assms(1)] loop_ok_failed[OF assms(1)] assms(1) persists_failed[of cfg "l_eng L"]
    by (cases ?reserved) (simp_all add: loop_ok_def persists_refl)
  define s1 where "s1 = (l_eng L1)\<lparr>e_journal := e_journal (l_eng L1) @ [l_frame L1]\<rparr>"
  have s1: "safe cfg s1" "persists (l_eng L1) s1" using L1(2) by (simp_all add: s1_def loop_ok_def persists_same)
  obtain s2 where s2: "(if l_failed L1 then Some s1 else complete cfg now s1) = Some s2" "persists s1 s2"
    using complete_safe[OF s1(1), of now] by (cases "l_failed L1") (auto simp: persists_refl persists_follows)
  define s3 where "s3 = forward_fresh (l_fresh L1) s2"
  have 3: "persists s2 s3" unfolding s3_def by (rule persists_follows[OF follows_forward_fresh])
  have "s' = (if e_mode s3 = ModeReserved \<and> \<not> l_meaningful L1
      then s3\<lparr>e_journal := butlast (e_journal s3)\<rparr> else s3)"
    using assms(2) unfolding finish_frame_def Let_def L1(1) Option.bind.bind_lunit s1_def[symmetric] s2(1)
      s3_def[symmetric] by simp
  then have "persists s3 s'" by (simp add: persists_same)
  with L1(3) s1(2) s2(2) 3 show ?thesis by (blast intro: persists_trans)
qed

lemma persists_handle_timeout:
  assumes "safe cfg s" "handle_timeout now s = Some (outs, s')"
  shows "persists s s'"
proof -
  have "drain (if expired now s then failed s else s) = (outs, s')"
    using assms fail_failed[OF assms(1)] by (cases "expired now s") (simp_all add: handle_timeout_def)
  moreover have "persists s (if expired now s then failed s else s)"
    using persists_failed[OF assms(1)] by (simp add: persists_refl)
  ultimately show ?thesis using persists_drain by (metis persists_trans snd_conv)
qed

lemma persists_handle_frame:
  assumes "safe cfg s" "handle_frame cfg fr now s = Some (outs, s')"
  shows "persists s s'"
proof -
  from assms(2) obtain outs1 s1 L s2 outs2 where 1: "handle_timeout now s = Some (outs1, s1)"
    "frame_events cfg (fr_device fr) now (fr_events fr) (new_loop (fr_device fr) s1) = Some L"
    "finish_frame cfg now L = Some s2" "drain s2 = (outs2, s')"
    by (auto simp: handle_frame_def split: Option.bind_splits prod.splits)
  have "safe cfg s1" using handle_timeout_safe[OF assms(1), of now] 1(1) by (simp add: returns_safe_def)
  then have ok: "loop_ok cfg (new_loop (fr_device fr) s1)" by (simp add: loop_ok_def new_loop_def)
  have "loop_ok cfg L" using frame_events_ok[OF ok, of "fr_device fr" now "fr_events fr"] 1(2) by auto
  from persists_finish_frame[OF this 1(3)] persists_frame_events[OF ok 1(2)]
  have "persists s1 s2" by (simp add: new_loop_def persists_trans)
  with persists_handle_timeout[OF assms(1) 1(1)] persists_drain[of s2] 1(4)
  show ?thesis by (auto intro: persists_trans)
qed

section \<open>Recovery and shutdown\<close>

lemma persists_fold: "(\<And>x s. persists s (f x s)) \<Longrightarrow> persists s (fold f xs s)"
  by (induction xs arbitrary: s) (auto simp: persists_refl intro: persists_trans)

lemma persists_release: "persists s (release p s)"
  by (simp add: persists_def press_kept_def)

lemma persists_set_route: "p_route (pr s p) = Undecided \<Longrightarrow> persists s (set_route r p s)"
  by (simp add: persists_def press_kept_def)

lemma persists_new_press: "persists s (snd (new_press d c s))"
  by (simp add: persists_def known_def)

lemma persists_adopt_code: "persists s (snd (adopt_code d c s))"
proof (cases "phys s d c")
  case None
  let ?n = "snd (new_press d c s)"
  have "p_route (pr ?n (Suc (e_next_id s))) = Undecided" by simp
  then show ?thesis
    using persists_trans[OF persists_new_press persists_set_route] by (simp add: adopt_new[OF None])
next
  case (Some p)
  then show ?thesis by (auto simp: adopt_code_def persists_refl intro: persists_set_route)
qed

lemma persists_adopt_codes: "persists s (snd (adopt_codes d cs vis s))"
  by (induction cs arbitrary: vis s)
    (simp_all add: persists_refl case_prod_beta Let_def, blast intro: persists_trans persists_adopt_code)

lemma persists_end_activations: "persists s (end_activations as s)"
proof -
  obtain acts where "fold (\<lambda>a. upd_act a (\<lambda>x. x\<lparr>a_live := False\<rparr>)) as s = s\<lparr>e_acts := acts\<rparr>"
    using fold_upd_act_frame by blast
  then show ?thesis by (simp add: end_activations_def persists_same)
qed

lemma persists_stop: "persists s (fold stop_activation as s)"
  by (rule persists_fold) (simp add: persists_same)

lemma persists_release_missing: "persists s (release_missing d pressed s)"
  unfolding release_missing_def
  by (rule persists_fold) (auto simp: persists_refl persists_release split: prod.split)

lemma persists_reconcile:
  assumes "safe cfg s" "reconcile d pressed s = Some (outs, s')"
  shows "persists s s'"
proof -
  define ended where "ended = ended_by d (failed s)"
  define s1 where "s1 = drop_device_inputs d (end_activations ended (failed s))"
  define s2 where "s2 = snd (drain s1)"
  define s3 where "s3 = release_missing d pressed (fold stop_activation ended s2)"
  let ?codes = "sort (filter (gm_true pressed) (gm_keys pressed))"
  define vis where "vis = fst (adopt_codes d ?codes [] s3)"
  define s4 where "s4 = snd (adopt_codes d ?codes [] s3)"
  have "s' = snd (drain (queue_output (ReconcileDevice d vis) s4))"
    using assms(2) fail_failed[OF assms(1)]
    by (simp add: reconcile_def Let_def case_prod_beta ended_def s1_def s2_def s3_def vis_def s4_def)
  moreover have "persists (queue_output (ReconcileDevice d vis) s4)
      (snd (drain (queue_output (ReconcileDevice d vis) s4)))" by (rule persists_drain)
  moreover have "persists s4 (queue_output (ReconcileDevice d vis) s4)" by (simp add: persists_same)
  moreover have "persists s3 s4" unfolding s4_def by (rule persists_adopt_codes)
  moreover have "persists s2 s3"
    unfolding s3_def by (rule persists_trans[OF persists_stop persists_release_missing])
  moreover have "persists s1 s2" unfolding s2_def by (rule persists_drain)
  moreover have "persists (end_activations ended (failed s)) s1"
    by (simp add: s1_def drop_device_inputs_def persists_same)
  moreover have "persists (failed s) (end_activations ended (failed s))" by (rule persists_end_activations)
  ultimately show ?thesis using persists_failed[OF assms(1)] by (blast intro: persists_trans)
qed

lemma persists_close_device: "persists s (close_device d s)"
proof -
  have "persists s (fold (\<lambda>(c, p). release p) (phys_dev s d) s)"
    by (rule persists_fold) (auto simp: persists_release)
  moreover have "persists t (queue_output (ReconcileDevice d []) t)" for t by (simp add: persists_same)
  ultimately show ?thesis unfolding close_device_def by (blast intro: persists_trans)
qed

lemma persists_close:
  assumes "safe cfg s" "close_engine s = Some (outs, s')"
  shows "persists s s'"
proof -
  define s1 where "s1 = drop_presses (failed s)"
  define s2 where "s2 = (fold stop_activation (e_active s) s1)\<lparr>e_active := []\<rparr>"
  define s3 where "s3 = fold close_device (sort (gm_keys (e_physical s2))) s2"
  have "drain s3 = (outs, s')"
    using assms(2) fail_failed[OF assms(1)] by (simp add: close_engine_def s1_def s2_def s3_def)
  then have "persists s3 s'" using persists_drain[of s3] by simp
  moreover have "persists s2 s3" unfolding s3_def by (rule persists_fold) (rule persists_close_device)
  moreover have "persists (fold stop_activation (e_active s) s1) s2" by (simp add: s2_def persists_same)
  moreover have "persists s1 (fold stop_activation (e_active s) s1)" by (rule persists_stop)
  moreover have "persists (failed s) s1" by (simp add: s1_def drop_presses_def persists_same)
  ultimately show ?thesis using persists_failed[OF assms(1)] by (blast intro: persists_trans)
qed

lemma persists_step: "safe cfg s \<Longrightarrow> engine_step cfg i s = Some (os, s') \<Longrightarrow> persists s s'"
  by (cases i)
    (auto intro: persists_handle_frame persists_handle_timeout persists_reconcile persists_close)

lemma persists_run:
  "safe cfg s \<Longrightarrow> run_steps (engine_step cfg) ins s = Some (os, s') \<Longrightarrow> persists s s'"
proof (induction ins arbitrary: s os)
  case Nil
  then show ?case by (simp add: persists_refl)
next
  case (Cons i ins)
  then obtain os1 s1 os2 where 1: "engine_step cfg i s = Some (os1, s1)"
    "run_steps (engine_step cfg) ins s1 = Some (os2, s')" by (auto split: Option.bind_splits)
  have "safe cfg s1" using engine_step_safe[OF Cons.prems(1), of i] 1(1) by auto
  with Cons.IH[OF _ 1(2)] persists_step[OF Cons.prems(1) 1(1)] show ?case by (blast intro: persists_trans)
qed

end
