(* ===== verification/Engine_Output.thy ===== *)
theory Engine_Output
  imports Engine_Routes
begin

text \<open>
  What leaves the engine.  \<open>sent d outs\<close> is the sequence of events that outputs carry to the device
  \<open>d\<close>, without the report that closes each frame.  A journal frame that is drained sends exactly its
  \<open>kept\<close> events, in order; a frame without a configured key passes the engine unchanged.
\<close>

section \<open>The specification of a drained frame\<close>

fun sent_by :: "device \<Rightarrow> engine_output \<Rightarrow> event list" where
  "sent_by d (ForwardFrame fr) = (if fr_device fr = d then butlast (fr_events fr) else [])"
| "sent_by d _ = []"

definition sent :: "device \<Rightarrow> engine_output list \<Rightarrow> event list" where
  "sent d outs = concat (map (sent_by d) outs)"

definition kept :: "engine \<Rightarrow> journal_frame \<Rightarrow> recorded_event \<Rightarrow> bool" where
  "kept s f r \<longleftrightarrow> r_output r = None \<and> ev_type (r_event r) \<noteq> EVSyn \<and>
     press_route s (r_press r) \<noteq> Some Consumed \<and>
     \<not> (ev_type (r_event r) = EVMsc \<and> drop_misc s f)"

text \<open>Generated outputs go to the devices of held outputs, not to the one the frame came from.\<close>

definition foreign_outputs :: "journal_frame \<Rightarrow> bool" where
  "foreign_outputs f \<longleftrightarrow> (\<forall>r\<in>set (j_events f). \<forall>fr. r_output r = Some (ForwardFrame fr) \<longrightarrow>
     fr_device fr \<noteq> j_device f)"

lemma sent_simps [simp]: "sent d [] = []" "sent d (x # xs) = sent_by d x @ sent d xs"
  "sent d (xs @ ys) = sent d xs @ sent d ys"
  by (simp_all add: sent_def)

lemma sent_flush [simp]: "sent d (flush_events d evs) = evs"
  by (simp add: flush_events_def)

lemma sent_emit:
  assumes "\<forall>r\<in>set rs. \<forall>fr. r_output r = Some (ForwardFrame fr) \<longrightarrow> fr_device fr \<noteq> d"
  shows "sent d (emit_events s d (drop_misc s f) acc rs) = acc @ map r_event (filter (kept s f) rs)"
  using assms
proof (induction rs arbitrary: acc)
  case (Cons r rs)
  show ?case
  proof (cases "r_output r")
    case None
    then show ?thesis using Cons by (auto simp: kept_def)
  next
    case (Some out)
    have "sent_by d out = []" using Cons.prems Some by (cases out) auto
    then show ?thesis using Cons Some by (auto simp: kept_def)
  qed
qed simp

lemma frame_outputs_sent:
  "foreign_outputs f \<Longrightarrow> sent (j_device f) (frame_outputs s f) = map r_event (filter (kept s f) (j_events f))"
  unfolding frame_outputs_def foreign_outputs_def by (subst sent_emit) auto

lemma emit_events_plain:
  assumes "\<forall>r\<in>set rs. r_output r = None"
  shows "emit_events s d (drop_misc s f) acc rs = flush_events d (acc @ map r_event (filter (kept s f) rs))"
  using assms by (induction rs arbitrary: acc) (auto simp: kept_def)

text \<open>Every frame the engine forwards is closed by one report and carries at least one event.\<close>

definition closed_frame :: "frame \<Rightarrow> bool" where
  "closed_frame fr \<longleftrightarrow> (\<exists>evs. evs \<noteq> [] \<and> fr_events fr = evs @ [syn_event] \<and>
     list_all (\<lambda>e. ev_type e \<noteq> EVSyn) evs)"

lemma flush_closed:
  "ForwardFrame fr \<in> set (flush_events d evs) \<Longrightarrow> list_all (\<lambda>e. ev_type e \<noteq> EVSyn) evs \<Longrightarrow> closed_frame fr"
  by (auto simp: flush_events_def closed_frame_def split: if_splits)

lemma emit_closed:
  assumes "ForwardFrame fr \<in> set (emit_events s d m acc rs)" "list_all (\<lambda>e. ev_type e \<noteq> EVSyn) acc"
    "\<forall>r\<in>set rs. \<forall>fr. r_output r = Some (ForwardFrame fr) \<longrightarrow> closed_frame fr"
  shows "closed_frame fr"
  using assms
proof (induction rs arbitrary: acc)
  case Nil
  then show ?case by (simp add: flush_closed)
next
  case (Cons r rs)
  have rest: "\<forall>r\<in>set rs. \<forall>fr. r_output r = Some (ForwardFrame fr) \<longrightarrow> closed_frame fr"
    using Cons.prems(3) by simp
  show ?case
  proof (cases "r_output r")
    case None
    then show ?thesis
      using Cons.prems(1,2) Cons.IH[OF _ _ rest]
      by (auto split: if_splits)
  next
    case (Some out)
    then show ?thesis
      using Cons.prems Cons.IH[OF _ _ rest, of acc] Cons.IH[OF _ _ rest, of "[]"]
      by (auto split: if_splits dest: flush_closed)
  qed
qed

section \<open>Frames without a configured key\<close>

definition unconfigured :: "config \<Rightarrow> event \<Rightarrow> bool" where
  "unconfigured cfg ev \<longleftrightarrow> (ev_type ev = EVKey \<and> ev_value ev = 1 \<longrightarrow>
     (\<forall>src\<in>set (cfg_prefixes cfg). canonical (ev_code ev) \<notin> set (src_keys src)))"

lemma start_source_unconfigured:
  assumes "\<forall>src\<in>set (cfg_prefixes cfg). p_logical (pr s p) \<notin> set (src_keys src)"
  shows "start_source cfg p now s = (False, s)"
proof -
  have "filter (\<lambda>i. source_possible s (p_logical (pr s p)) b (cfg_prefixes cfg ! i))
      [0..<length (cfg_prefixes cfg)] = []" for b
    using assms by (auto simp: filter_empty_conv source_possible_def)
  then show ?thesis by (simp add: start_source_def Let_def)
qed

text \<open>The loop over such a frame, from an idle engine whose held keys are all visible.\<close>

definition passing :: "config \<Rightarrow> device \<Rightarrow> event list \<Rightarrow> frame_loop \<Rightarrow> bool" where
  "passing cfg d evs L \<longleftrightarrow> loop_inv cfg L \<and> \<not> l_failed L \<and>
     e_mode (l_eng L) = ModeIdle \<and> e_active (l_eng L) = [] \<and> e_journal (l_eng L) = [] \<and>
     j_device (l_frame L) = d \<and> \<not> j_drop_scan (l_frame L) \<and> j_candidate (l_frame L) = None \<and>
     map r_event (j_events (l_frame L)) = evs \<and>
     (\<forall>r\<in>set (j_events (l_frame L)). r_output r = None \<and>
        (ev_type (r_event r) = EVKey \<or> r_press r = None) \<and>
        (\<forall>p. r_press r = Some p \<longrightarrow> p_route (pr (l_eng L) p) \<noteq> Consumed)) \<and>
     (\<forall>c p. phys (l_eng L) d c = Some p \<longrightarrow> p_route (pr (l_eng L) p) \<noteq> Consumed)"

lemma idle_seq: "safe cfg s \<Longrightarrow> e_mode s = ModeIdle \<Longrightarrow> e_seq s = None"
  by (auto simp: safe_def indices_ok_def split: option.splits)

lemma activation_events_none: "e_active s = [] \<Longrightarrow> activation_events tr s = ([], s)"
  by (simp add: activation_events_def)

lemma ingest_press:
  assumes "ingest d ev s = (Some q, tr, s')"
  shows "ev_type ev = EVKey"
    "phys s d (ev_code ev) = Some q \<or> q = Suc (e_next_id s) \<and> p_route (pr s' q) = Undecided"
proof -
  have "q = Suc (e_next_id s) \<and> p_route (pr s' q) = Undecided"
    if "new_press d (ev_code ev) s = (q, s')"
    using arg_cong[OF that, of fst] arg_cong[OF that, of snd] by auto
  then show "ev_type ev = EVKey"
    "phys s d (ev_code ev) = Some q \<or> q = Suc (e_next_id s) \<and> p_route (pr s' q) = Undecided"
    using assms by (auto simp: ingest_def Let_def split: if_splits option.splits prod.splits)
qed

lemma ingest_consumed:
  "ingest d ev s = (p, tr, s') \<Longrightarrow> p_route (pr s' q) = Consumed \<Longrightarrow> p_route (pr s q) = Consumed"
  by (erule ingest_cases) (auto split: if_splits)

lemma ingest_phys:
  assumes "ingest d ev s = (p, tr, s')" "phys_ok s" "phys s' d' c = Some q"
  shows "phys s d' c = Some q \<or> p_route (pr s' q) = Undecided"
  using assms(1)
proof (cases rule: ingest_cases)
  case (released t)
  have "p_down (pr s (t_press t))" using released(3) assms(2) by (simp add: phys_ok_def down_ok_def)
  then show ?thesis
    using assms(2,3) released(4) by (auto simp: phys_ok_def phys_release split: if_splits)
qed (use assms(3) in \<open>auto simp: phys_new_press split: if_splits\<close>)

lemma add_no_events: "add_events [] L = L"
  by (simp add: add_events_def)

lemma passing_step:
  assumes "passing cfg d evs L" "unconfigured cfg ev"
  shows "\<exists>L'. frame_event cfg d now ev L = Some L' \<and> passing cfg d (evs @ [ev]) L'"
proof -
  let ?s = "l_eng L"
  obtain p tr s1 where ing: "ingest d ev ?s = (p, tr, s1)" by (metis surj_pair)
  from assms(1) have L: "loop_inv cfg L" "e_mode ?s = ModeIdle" "e_active ?s = []" "e_journal ?s = []"
    "\<not> l_failed L" and ok: "phys_ok ?s" "safe cfg ?s"
    by (auto simp: passing_def loop_inv_def loop_ok_def)
  have s1: "e_mode s1 = ModeIdle" "e_active s1 = []" "e_journal s1 = []"
    using ing L by (cases rule: ingest_cases; simp)+
  have seq: "e_seq s1 = None" using idle_seq[OF safe_ingest[OF ok(2) ing] s1(1)] .
  define L2 where "L2 = record_event ev p tr False (L\<lparr>l_eng := s1\<rparr>)"
  have ch: "hidden_chatter ev p v s1 = False" for v using s1(1) by (simp add: hidden_chatter_def)
  have held: "held_outputs tr L2 = Some L2"
    using s1(2) activation_events_none[of s1]
    by (cases tr) (simp_all add: held_outputs_def L2_def add_no_events)
  have start: "start_candidate cfg t now s1 = Some (False, s1)" if "tr = Some t" for t
  proof (cases "t_value t = 1")
    case True
    note tr = ingest_transition[OF ing[unfolded that]]
    have "p_logical (pr s1 (t_press t)) = canonical (ev_code ev)" using tr(4)[OF True] by simp
    moreover have "ev_value ev = 1" using tr(2) True by simp
    ultimately have "\<forall>src\<in>set (cfg_prefixes cfg). p_logical (pr s1 (t_press t)) \<notin> set (src_keys src)"
      using assms(2) tr(3) by (simp add: unconfigured_def)
    then show ?thesis
      using start_source_unconfigured[of cfg s1 "t_press t" now] s1(1) by (simp add: start_candidate_def)
  qed (simp add: start_candidate_def)
  define L' where "L' = (case tr of None \<Rightarrow> L2
    | Some t \<Rightarrow> L2\<lparr>l_history := l_history L2 @ [t], l_failed := False\<rparr>)"
  have "frame_match cfg t now L2 = Some (L2\<lparr>l_history := l_history L2 @ [t], l_failed := False\<rparr>)"
    if "tr = Some t" for t
    using start[OF that] seq by (simp add: frame_match_def L2_def)
  then have ev: "frame_event cfg d now ev L = Some L'"
    using held L(5) s1(1)
    by (simp add: frame_event_def ing ch L2_def[symmetric] L'_def split: option.split)
      (simp add: L2_def)
  have fields: "l_eng L' = s1" "\<not> l_failed L'" "l_frame L' = l_frame L2"
    using L(5) by (simp_all add: L'_def L2_def split: option.split)
  have frame: "l_frame L2 = (l_frame L)\<lparr>j_events := j_events (l_frame L) @ [recorded_input ev p]\<rparr>"
    by (simp add: L2_def record_event_def Let_def add_events_def)
  have new: "ev_type ev = EVKey \<or> p = None" "\<forall>q. p = Some q \<longrightarrow> p_route (pr s1 q) \<noteq> Consumed"
    using ingest_press[of d ev ?s _ tr s1] ing assms(1) ingest_consumed[OF ing]
    by (cases p; fastforce simp: passing_def)+
  have "\<forall>c q. phys s1 d c = Some q \<longrightarrow> p_route (pr s1 q) \<noteq> Consumed"
    using ingest_phys[OF ing ok(1)] ingest_consumed[OF ing] assms(1) unfolding passing_def
    by (metis disposition.distinct(3))
  then have "passing cfg d (evs @ [ev]) L'"
    using assms(1) frame_event_inv[OF L(1) ev] fields frame new s1 ingest_consumed[OF ing]
    by (auto simp: passing_def)
  with ev show ?thesis by blast
qed

lemma passing_events:
  "passing cfg d evs0 L \<Longrightarrow> \<forall>ev\<in>set evs. unconfigured cfg ev \<Longrightarrow>
   \<exists>L'. frame_events cfg d now evs L = Some L' \<and> passing cfg d (evs0 @ evs) L'"
proof (induction evs arbitrary: L evs0)
  case (Cons ev evs)
  then obtain L1 where 1: "frame_event cfg d now ev L = Some L1" "passing cfg d (evs0 @ [ev]) L1"
    using passing_step[of cfg d evs0 L ev now] by auto
  from Cons.IH[OF 1(2)] Cons.prems(2) 1(1) show ?case by auto
qed simp

lemma forward_fresh_frame [simp]:
  "e_mode (forward_fresh ps s) = e_mode s" "e_seq (forward_fresh ps s) = e_seq s"
  "e_journal (forward_fresh ps s) = e_journal s" "e_active (forward_fresh ps s) = e_active s"
  "e_physical (forward_fresh ps s) = e_physical s" "e_next_id (forward_fresh ps s) = e_next_id s"
  "e_cands (forward_fresh ps s) = e_cands s" "e_acts (forward_fresh ps s) = e_acts s"
  by (induction ps arbitrary: s) simp_all

lemma forward_fresh_consumed:
  "p_route (pr (forward_fresh ps s) q) = Consumed \<Longrightarrow> p_route (pr s q) = Consumed"
  by (induction ps arbitrary: s) (fastforce split: if_splits)+

lemma idle_journal_empty:
  assumes "engine_inv cfg s" "drained s" "e_seq s = None"
  shows "e_journal s = []"
  using assms(2) nothing_pending[OF assms(1,3)] by (cases "e_journal s") (auto simp: drained_def)

lemma handle_timeout_idle:
  assumes "engine_inv cfg s" "drained s" "e_mode s = ModeIdle"
  shows "handle_timeout now s = Some ([], s)"
proof -
  have saf: "safe cfg s" using assms(1) by (simp add: engine_inv_def)
  then have "e_deadline s = None" using assms(3) by (simp add: safe_def deadline_ok_def)
  moreover have "e_journal s = []" by (rule idle_journal_empty[OF assms(1,2) idle_seq[OF saf assms(3)]])
  ultimately show ?thesis by (simp add: handle_timeout_def expired_def drain_def)
qed

lemma passing_outputs:
  assumes "passing cfg d evs L" "engine_inv cfg s" "e_seq s = None"
    "e_journal s = [l_frame L]"
    "\<forall>p. p_route (pr s p) = Consumed \<longrightarrow> p_route (pr (l_eng L) p) = Consumed"
  shows "frame_outputs s (l_frame L) = flush_events d (filter (\<lambda>e. ev_type e \<noteq> EVSyn) evs)"
proof -
  let ?f = "l_frame L"
  have ev: "\<forall>r\<in>set (j_events ?f). r_output r = None" "map r_event (j_events ?f) = evs" "j_device ?f = d"
    using assms(1) by (simp_all add: passing_def)
  have route: "p_route (pr s p) = Forwarded" if "r \<in> set (j_events ?f)" "r_press r = Some p" for r p
  proof -
    have "events_ok s (j_events ?f)" using assms(2,4) by (simp add: engine_inv_def journal_ok_def)
    then have "p \<notin> undecided s \<and> known s p"
      using that no_undecided[OF assms(2,3)] by (auto simp: events_ok_def)
    moreover have "p_route (pr s p) \<noteq> Consumed" using assms(1,5) that unfolding passing_def by blast
    ultimately show ?thesis by (cases "p_route (pr s p)") (auto simp: undecided_def)
  qed
  have "frame_has_key ?f \<longrightarrow> frame_visible_key s ?f"
    using route by (auto simp: frame_has_key_def frame_visible_key_def list_ex_iff press_route_def
        split: option.splits)
  then have "\<not> drop_misc s ?f" using assms(1) by (simp add: drop_misc_def passing_def)
  then have "filter (kept s ?f) (j_events ?f) = filter (\<lambda>r. ev_type (r_event r) \<noteq> EVSyn) (j_events ?f)"
    using route ev(1) by (intro filter_cong) (auto simp: kept_def press_route_def)
  then have "frame_outputs s ?f =
      flush_events d (map r_event (filter (\<lambda>r. ev_type (r_event r) \<noteq> EVSyn) (j_events ?f)))"
    unfolding frame_outputs_def emit_events_plain[OF ev(1)] ev(3) by simp
  then show ?thesis unfolding ev(2)[symmetric] filter_map by (simp add: comp_def)
qed

lemma pass_through:
  assumes "engine_inv cfg s" "drained s" "e_mode s = ModeIdle" "e_active s = []"
    "\<forall>c p. phys s d c = Some p \<longrightarrow> p_route (pr s p) = Forwarded"
    "\<forall>ev\<in>set evs. unconfigured cfg ev"
  shows "\<exists>s'. handle_frame cfg \<lparr>fr_device = d, fr_events = evs\<rparr> now s =
      Some (flush_events d (filter (\<lambda>e. ev_type e \<noteq> EVSyn) evs), s') \<and>
    e_mode s' = ModeIdle \<and> e_active s' = [] \<and> e_journal s' = [] \<and>
    (\<forall>c p. phys s' d c = Some p \<longrightarrow> p_route (pr s' p) = Forwarded)"
proof -
  have saf: "safe cfg s" using assms(1) by (simp add: engine_inv_def)
  note seq = idle_seq[OF saf assms(3)]
  note to = handle_timeout_idle[OF assms(1-3), of now]
  have "\<not> list_ex (\<lambda>(c, p). p_route (pr s p) = Consumed) (phys_dev s d)"
    using phys_entries(1)[of s _ _ d] assms(1,5) by (fastforce simp: list_ex_iff engine_inv_def)
  then have "passing cfg d [] (new_loop d s)"
    using loop_inv_new[OF assms(1), of d] assms(3-5) seq idle_journal_empty[OF assms(1,2) seq]
    unfolding passing_def by (auto simp: new_loop_def)
  from passing_events[OF this assms(6), of now] obtain L where
    L: "frame_events cfg d now evs (new_loop d s) = Some L" "passing cfg d evs L" by auto
  define s1 where "s1 = (l_eng L)\<lparr>e_journal := [l_frame L]\<rparr>"
  define s2 where "s2 = forward_fresh (l_fresh L) s1"
  have seqL: "e_seq (l_eng L) = None"
    using L(2) by (intro idle_seq[of cfg]) (simp_all add: passing_def loop_inv_def loop_ok_def)
  have fin: "finish_frame cfg now L = Some s2"
    using L(2) seqL by (simp add: finish_frame_def passing_def complete_def s1_def s2_def)
  have inv2: "engine_inv cfg s2" using finish_frame_inv[OF _ fin] L(2) by (simp add: passing_def)
  have seq2: "e_seq s2 = None" "e_journal s2 = [l_frame L]" "e_mode s2 = ModeIdle" "e_active s2 = []"
    using L(2) seqL by (simp_all add: s2_def s1_def passing_def)
  have cons: "\<forall>p. p_route (pr s2 p) = Consumed \<longrightarrow> p_route (pr (l_eng L) p) = Consumed"
    using forward_fresh_consumed[of "l_fresh L" s1] by (auto simp: s2_def s1_def)
  have dr: "drain s2 = (flush_events d (filter (\<lambda>e. ev_type e \<noteq> EVSyn) evs), s2\<lparr>e_journal := []\<rparr>)"
    using drain_all[OF inv2 seq2(1)] passing_outputs[OF L(2) inv2 seq2(1,2) cons] seq2(2) by simp
  have "p_route (pr s2 p) = Forwarded" if "phys s2 d c = Some p" for c p
  proof -
    have "p \<notin> undecided s2" "known s2 p"
      using that inv2 no_undecided[OF inv2 seq2(1)]
      by (auto simp: engine_inv_def phys_ok_def down_ok_def known_def)
    moreover have "phys (l_eng L) d c = Some p" using that by (simp add: s2_def s1_def phys_def phys_dev_def)
    then have "p_route (pr (l_eng L) p) \<noteq> Consumed" using L(2) by (auto simp: passing_def)
    then have "p_route (pr s2 p) \<noteq> Consumed" using cons by auto
    ultimately show ?thesis by (cases "p_route (pr s2 p)") (auto simp: undecided_def)
  qed
  moreover have "phys (s2\<lparr>e_journal := []\<rparr>) d c = phys s2 d c" for c by (simp add: phys_def phys_dev_def)
  ultimately show ?thesis
    using to L(1) fin dr seq2 by (simp add: handle_frame_def)
qed

end
