(* ===== verification/Forwarder.thy ===== *)
theory Forwarder
  imports Kernel_IO "HOL-Library.Sublist"
begin

text \<open>
  \<open>internal/linuxinput/forwarder_linux.go\<close>: the keys the compositor sees.  Several devices may hold the
  same key; the virtual keyboard shows it pressed from the first press to the last release.

  The interface \<open>eventWriter\<close> is the function \<open>wr\<close> of the model, a write that returns an error or
  succeeds and changes the state of the writer.  The laws a writer promises are the locale
  \<open>event_writer\<close>; \<open>VirtualKeyboard.Write\<close> of \<open>uinput_linux.go\<close> is its interpretation at the end.
\<close>

section \<open>State\<close>

record 'w forwarder =
  fw_output :: 'w
  fw_down :: "(device, (u16, bool) gomap) gomap"
  fw_counts :: "(u16, int) gomap"

definition new_forwarder :: "'w \<Rightarrow> 'w forwarder" where
  "new_forwarder w = \<lparr>fw_output = w, fw_down = [], fw_counts = []\<rparr>"

definition fw_device :: "'w forwarder \<Rightarrow> device \<Rightarrow> (u16, bool) gomap" where
  "fw_device f d = (case gm_get (fw_down f) d of None \<Rightarrow> [] | Some m \<Rightarrow> m)"

definition fw_count :: "(u16, int) gomap \<Rightarrow> u16 \<Rightarrow> int" where
  "fw_count counts c = (case gm_get counts c of None \<Rightarrow> 0 | Some n \<Rightarrow> n)"

section \<open>Operations\<close>

text \<open>\<open>keyEvent\<close>: whether to write the event, the keys of the device and the counts afterwards.\<close>

definition key_event_fw ::
    "(u16, bool) gomap \<Rightarrow> (u16, int) gomap \<Rightarrow> event \<Rightarrow> bool \<times> (u16, bool) gomap \<times> (u16, int) gomap" where
  "key_event_fw dev counts ev =
     (let c = ev_code ev in
      if ev_value ev = 1 then
        (if gm_true dev c then (False, dev, counts)
         else let counts' = gm_put c (fw_count counts c + 1) counts
              in (fw_count counts' c = 1, gm_put c True dev, counts'))
      else if ev_value ev = 0 then
        (if \<not> gm_true dev c then (False, dev, counts)
         else let counts' = gm_put c (fw_count counts c - 1) counts
              in if fw_count counts' c > 0 then (False, gm_del c dev, counts')
                 else (True, gm_del c dev, gm_del c counts'))
      else if ev_value ev = 2 then
        (gm_true dev c \<and> \<not> is_physical_modifier c, dev, counts)
      else (False, dev, counts))"

definition fw_key :: "device \<Rightarrow> event \<Rightarrow> 'w forwarder \<Rightarrow> bool \<times> 'w forwarder" where
  "fw_key d ev f =
     (let (emit, dev, counts) = key_event_fw (fw_device f d) (fw_counts f) ev
      in (emit, f\<lparr>fw_down := gm_put d dev (fw_down f), fw_counts := counts\<rparr>))"

definition fw_write ::
    "(event \<Rightarrow> 'w \<Rightarrow> ('e + unit) \<times> 'w) \<Rightarrow> event \<Rightarrow> 'w forwarder \<Rightarrow> ('e + unit) \<times> 'w forwarder" where
  "fw_write wr ev f = (let (r, w) = wr ev (fw_output f) in (r, f\<lparr>fw_output := w\<rparr>))"

text \<open>The loop of \<open>Frame\<close> returns whether anything was written.\<close>

fun fw_events :: "(event \<Rightarrow> 'w \<Rightarrow> ('e + unit) \<times> 'w) \<Rightarrow> device \<Rightarrow> event list \<Rightarrow> bool \<Rightarrow> 'w forwarder \<Rightarrow>
    ('e + bool) \<times> 'w forwarder" where
  "fw_events wr d [] wrote f = (Inr wrote, f)"
| "fw_events wr d (ev # evs) wrote f =
     (let (emit, f1) = (if ev_type ev = EVKey then fw_key d ev f
                        else (ev_type ev = EVMsc \<and> ev_code ev = MscScan, f))
      in if \<not> emit then fw_events wr d evs wrote f1
         else (case fw_write wr ev f1 of
                 (Inl e, f2) \<Rightarrow> (Inl e, f2)
               | (Inr _, f2) \<Rightarrow> fw_events wr d evs True f2))"

text \<open>One report closes what was written.\<close>

definition fw_report :: "(event \<Rightarrow> 'w \<Rightarrow> ('e + unit) \<times> 'w) \<Rightarrow> bool \<Rightarrow> 'w forwarder \<Rightarrow>
    ('e + unit) \<times> 'w forwarder" where
  "fw_report wr wrote f = (if wrote then fw_write wr syn_event f else (Inr (), f))"

text \<open>\<open>f.down[device]\<close>, made when it is nil.\<close>

definition fw_touch :: "device \<Rightarrow> 'w forwarder \<Rightarrow> 'w forwarder" where
  "fw_touch d f = f\<lparr>fw_down := gm_put d (fw_device f d) (fw_down f)\<rparr>"

definition fw_frame :: "(event \<Rightarrow> 'w \<Rightarrow> ('e + unit) \<times> 'w) \<Rightarrow> frame \<Rightarrow> 'w forwarder \<Rightarrow>
    ('e + unit) \<times> 'w forwarder" where
  "fw_frame wr fr f =
     (case fw_events wr (fr_device fr) (fr_events fr) False (fw_touch (fr_device fr) f) of
        (Inl e, f1) \<Rightarrow> (Inl e, f1)
      | (Inr wrote, f1) \<Rightarrow> fw_report wr wrote f1)"

datatype 'e resync_error = ResyncRelease 'e | ResyncPress 'e | ResyncReport 'e

text \<open>The release and the press loop of \<open>Resync\<close>.\<close>

fun fw_keys :: "(event \<Rightarrow> 'w \<Rightarrow> ('e + unit) \<times> 'w) \<Rightarrow> device \<Rightarrow> i32 \<Rightarrow> u16 list \<Rightarrow> bool \<Rightarrow> 'w forwarder \<Rightarrow>
    ('e + bool) \<times> 'w forwarder" where
  "fw_keys wr d v [] wrote f = (Inr wrote, f)"
| "fw_keys wr d v (c # cs) wrote f =
     (let (emit, f1) = fw_key d (key_event c v) f
      in if \<not> emit then fw_keys wr d v cs wrote f1
         else (case fw_write wr (key_event c v) f1 of
                 (Inl e, f2) \<Rightarrow> (Inl e, f2)
               | (Inr _, f2) \<Rightarrow> fw_keys wr d v cs True f2))"

definition fw_resync :: "(event \<Rightarrow> 'w \<Rightarrow> ('e + unit) \<times> 'w) \<Rightarrow> device \<Rightarrow> (u16, bool) gomap \<Rightarrow> 'w forwarder \<Rightarrow>
    ('e resync_error + unit) \<times> 'w forwarder" where
  "fw_resync wr d actual f =
     (let known = fw_device f d;
          releases = sort (filter (\<lambda>c. \<not> gm_true actual c) (gm_keys known));
          presses = sort (filter (\<lambda>c. gm_true actual c \<and> \<not> gm_true known c) (gm_keys actual))
      in case fw_keys wr d 0 releases False (fw_touch d f) of
           (Inl e, f1) \<Rightarrow> (Inl (ResyncRelease e), f1)
         | (Inr wrote, f1) \<Rightarrow>
             (case fw_keys wr d 1 presses wrote f1 of
                (Inl e, f2) \<Rightarrow> (Inl (ResyncPress e), f2)
              | (Inr wrote', f2) \<Rightarrow>
                  let f3 = (if actual = [] then f2\<lparr>fw_down := gm_del d (fw_down f2)\<rparr> else f2);
                      (r, f4) = fw_report wr wrote' f3
                  in (map_err ResyncReport r, f4)))"

section \<open>Ownership of keys\<close>

definition held_by :: "'w forwarder \<Rightarrow> u16 \<Rightarrow> device set" where
  "held_by f c = {d. gm_true (fw_device f d) c}"

definition held_keys :: "'w forwarder \<Rightarrow> u16 set" where
  "held_keys f = {c. held_by f c \<noteq> {}}"

definition fw_ok :: "'w forwarder \<Rightarrow> bool" where
  "fw_ok f \<longleftrightarrow> gm_wf (fw_down f) \<and>
     (\<forall>d. gm_wf (fw_device f d) \<and> (\<forall>c. gm_get (fw_device f d) c \<noteq> Some False)) \<and>
     (\<forall>c. gm_get (fw_counts f) c =
        (if held_by f c = {} then None else Some (int (card (held_by f c)))))"

lemma fw_ok_new: "fw_ok (new_forwarder w)"
  by (simp add: fw_ok_def new_forwarder_def fw_device_def held_by_def)

lemma fw_ok_get:
  assumes "fw_ok f"
  shows "gm_get (fw_device f d) c \<noteq> None \<longleftrightarrow> gm_true (fw_device f d) c"
proof -
  have "gm_get (fw_device f d) c \<noteq> Some False" using assms by (simp add: fw_ok_def)
  then show ?thesis by (auto simp: gm_true_def)
qed

lemma finite_held: "finite (held_by f c)"
proof -
  have "held_by f c \<subseteq> set (gm_keys (fw_down f))"
    by (auto simp: held_by_def fw_device_def gm.keys_get split: option.splits)
  then show ?thesis by (rule finite_subset) simp
qed

lemma fw_count_held: "fw_ok f \<Longrightarrow> fw_count (fw_counts f) c = int (card (held_by f c))"
  by (simp add: fw_ok_def fw_count_def)

lemma fw_device_put [simp]:
  "fw_device (f\<lparr>fw_down := gm_put d m (fw_down f), fw_counts := k\<rparr>) d' = (if d' = d then m else fw_device f d')"
  "fw_device (f\<lparr>fw_down := gm_put d m (fw_down f)\<rparr>) d' = (if d' = d then m else fw_device f d')"
  "fw_device (f\<lparr>fw_output := w\<rparr>) d' = fw_device f d'"
  by (simp_all add: fw_device_def)

text \<open>The keys the virtual keyboard holds after a stream of events, and the streams a keyboard sends.\<close>

definition apply_key :: "event \<Rightarrow> u16 set \<Rightarrow> u16 set" where
  "apply_key ev S =
     (if ev_type ev \<noteq> EVKey then S
      else if ev_value ev = 1 then insert (ev_code ev) S
      else if ev_value ev = 0 then S - {ev_code ev} else S)"

definition visible :: "event list \<Rightarrow> u16 set" where
  "visible evs = fold apply_key evs {}"

definition key_change_ok :: "u16 set \<Rightarrow> event \<Rightarrow> bool" where
  "key_change_ok S ev \<longleftrightarrow> (ev_type ev = EVKey \<longrightarrow>
     (if ev_value ev = 1 then ev_code ev \<notin> S
      else if ev_value ev = 0 then ev_code ev \<in> S
      else ev_value ev = 2 \<and> ev_code ev \<in> S \<and> \<not> is_physical_modifier (ev_code ev)))"

fun stream_ok :: "u16 set \<Rightarrow> event list \<Rightarrow> bool" where
  "stream_ok S [] = True"
| "stream_ok S (ev # evs) = (key_change_ok S ev \<and> stream_ok (apply_key ev S) evs)"

lemma visible_snoc: "visible (evs @ [ev]) = apply_key ev (visible evs)"
  by (simp add: visible_def)

lemma stream_ok_snoc: "stream_ok S (evs @ [ev]) \<longleftrightarrow> stream_ok S evs \<and> key_change_ok (fold apply_key evs S) ev"
  by (induction evs arbitrary: S) auto

text \<open>The three ways a key event changes the ownership of its key.\<close>

lemma fw_ok_press:
  fixes d :: device and c :: u16 and f :: "'w forwarder"
  assumes "fw_ok f" "\<not> gm_true (fw_device f d) c"
  defines "f' \<equiv> f\<lparr>fw_down := gm_put d (gm_put c True (fw_device f d)) (fw_down f),
    fw_counts := gm_put c (fw_count (fw_counts f) c + 1) (fw_counts f)\<rparr>"
  shows "fw_ok f'" "held_by f' c' = (if c' = c then insert d (held_by f c) else held_by f c')"
proof -
  have held: "held_by f' c' = (if c' = c then insert d (held_by f c) else held_by f c')" for c'
    by (auto simp: held_by_def f'_def)
  then show "held_by f' c' = (if c' = c then insert d (held_by f c) else held_by f c')" .
  have "d \<notin> held_by f c" using assms(2) by (simp add: held_by_def)
  then have "card (insert d (held_by f c)) = Suc (card (held_by f c))" by (simp add: finite_held)
  moreover have "fw_counts f' = gm_put c (int (card (held_by f c)) + 1) (fw_counts f)"
    by (simp add: f'_def fw_count_held[OF assms(1)])
  moreover have "gm_wf (fw_down f')" "gm_wf (fw_device f' d')" "gm_get (fw_device f' d') k \<noteq> Some False" for d' k
    using assms(1) by (auto simp: f'_def fw_ok_def split: if_splits)
  ultimately show "fw_ok f'"
    using assms(1) unfolding fw_ok_def held by auto
qed

lemma fw_ok_release:
  fixes d :: device and c :: u16 and f :: "'w forwarder"
  assumes "fw_ok f" "gm_true (fw_device f d) c"
  defines "n \<equiv> fw_count (fw_counts f) c - 1"
  defines "f' \<equiv> f\<lparr>fw_down := gm_put d (gm_del c (fw_device f d)) (fw_down f),
    fw_counts := (if n > 0 then gm_put c n (fw_counts f) else gm_del c (gm_put c n (fw_counts f)))\<rparr>"
  shows "fw_ok f'" "held_by f' c' = (if c' = c then held_by f c - {d} else held_by f c')"
    "n > 0 \<longleftrightarrow> held_by f c - {d} \<noteq> {}"
proof -
  have held: "held_by f' c' = (if c' = c then held_by f c - {d} else held_by f c')" for c'
    by (auto simp: held_by_def f'_def)
  then show "held_by f' c' = (if c' = c then held_by f c - {d} else held_by f c')" .
  have d: "d \<in> held_by f c" using assms(2) by (simp add: held_by_def)
  have n: "n = int (card (held_by f c - {d}))"
    using d finite_held[of f c] card_gt_0_iff[of "held_by f c"]
    by (auto simp: n_def fw_count_held[OF assms(1)] card_Diff_singleton of_nat_diff)
  then show pos: "n > 0 \<longleftrightarrow> held_by f c - {d} \<noteq> {}" using finite_held[of f c] by (auto simp: card_gt_0_iff)
  have "gm_wf (fw_down f')" "gm_wf (fw_device f' d')" "gm_get (fw_device f' d') k \<noteq> Some False" for d' k
    using assms(1) by (auto simp: f'_def fw_ok_def split: if_splits)
  moreover have "gm_get (fw_counts f') c' =
      (if held_by f' c' = {} then None else Some (int (card (held_by f' c'))))" for c'
    using assms(1) pos n unfolding held by (auto simp: f'_def fw_ok_def)
  ultimately show "fw_ok f'" unfolding fw_ok_def by blast
qed

lemma fw_ok_same:
  fixes d :: device and f :: "'w forwarder"
  assumes "fw_ok f"
  defines "f' \<equiv> f\<lparr>fw_down := gm_put d (fw_device f d) (fw_down f), fw_counts := fw_counts f\<rparr>"
  shows "fw_ok f'" "fw_device f' d' = fw_device f d'" "held_by f' = held_by f"
proof -
  show dev: "fw_device f' d' = fw_device f d'" for d' by (simp add: f'_def)
  then show held: "held_by f' = held_by f" by (simp add: held_by_def fun_eq_iff)
  show "fw_ok f'" using assms(1) dev held by (simp add: fw_ok_def f'_def)
qed

text \<open>One key event: it changes the keys of its device only, and is written exactly when it changes
  what the virtual keyboard must show (or repeats a key it shows).\<close>

lemma fw_key_step:
  assumes "fw_ok f" "fw_key d ev f = (emit, f')" "ev_type ev = EVKey"
  shows "fw_ok f' \<and> fw_output f' = fw_output f \<and>
    (\<forall>d' c. gm_true (fw_device f' d') c \<longleftrightarrow>
       (if d' = d then c \<in> apply_key ev {c. gm_true (fw_device f d) c} else gm_true (fw_device f d') c)) \<and>
    held_keys f' = (if emit then apply_key ev (held_keys f) else held_keys f) \<and>
    (emit \<longrightarrow> key_change_ok (held_keys f) ev)"
proof -
  let ?c = "ev_code ev" and ?m = "fw_device f d"
  consider (press) "ev_value ev = 1" "\<not> gm_true ?m ?c" | (release) "ev_value ev = 0" "gm_true ?m ?c"
    | (other) "ev_value ev = 1 \<and> gm_true ?m ?c \<or> ev_value ev = 0 \<and> \<not> gm_true ?m ?c \<or>
        ev_value ev \<noteq> 0 \<and> ev_value ev \<noteq> 1" by blast
  then show ?thesis
  proof cases
    case press
    note ok = fw_ok_press[OF assms(1) press(2)]
    have f': "f' = f\<lparr>fw_down := gm_put d (gm_put ?c True ?m) (fw_down f),
        fw_counts := gm_put ?c (fw_count (fw_counts f) ?c + 1) (fw_counts f)\<rparr>"
      and emit: "emit \<longleftrightarrow> held_by f ?c = {}"
      using assms(2) press fw_count_held[OF assms(1), of ?c] finite_held[of f ?c]
      by (auto simp: fw_key_def key_event_fw_def Let_def fw_count_def)
    then show ?thesis
      using ok press assms(3) by (auto simp: apply_key_def key_change_ok_def held_keys_def split: if_splits)
  next
    case release
    note ok = fw_ok_release[OF assms(1) release(2)]
    let ?n = "fw_count (fw_counts f) ?c - 1"
    have f': "f' = f\<lparr>fw_down := gm_put d (gm_del ?c ?m) (fw_down f),
        fw_counts := (if ?n > 0 then gm_put ?c ?n (fw_counts f) else gm_del ?c (gm_put ?c ?n (fw_counts f)))\<rparr>"
      and emit: "emit \<longleftrightarrow> held_by f ?c - {d} = {}"
      using assms(2) release ok(3) by (auto simp: fw_key_def key_event_fw_def Let_def fw_count_def split: if_splits)
    have "d \<in> held_by f ?c" using release(2) by (simp add: held_by_def)
    then show ?thesis
      using ok(1,2) f' emit release assms(3)
      by (auto simp: apply_key_def key_change_ok_def held_keys_def split: if_splits)
  next
    case other
    note ok = fw_ok_same[OF assms(1), of d]
    have f': "f' = f\<lparr>fw_down := gm_put d ?m (fw_down f), fw_counts := fw_counts f\<rparr>"
      and emit: "emit \<longleftrightarrow> ev_value ev = 2 \<and> gm_true ?m ?c \<and> \<not> is_physical_modifier ?c"
      using assms(2) other by (auto simp: fw_key_def key_event_fw_def Let_def split: if_splits)
    have "held_keys f' = held_keys f" "fw_output f' = fw_output f" using ok(3) f' by (auto simp: held_keys_def)
    moreover have "gm_true ?m ?c \<Longrightarrow> ?c \<in> held_keys f" by (auto simp: held_keys_def held_by_def)
    moreover have "gm_true (fw_device f' d') c \<longleftrightarrow>
       (if d' = d then c \<in> apply_key ev {c. gm_true ?m c} else gm_true (fw_device f d') c)" for d' c
      using other ok(2) f' by (auto simp: apply_key_def)
    ultimately show ?thesis
      using ok(1) f' emit assms(3) by (auto simp: apply_key_def key_change_ok_def)
  qed
qed


section \<open>What a writer promises\<close>

definition device_keys :: "'w forwarder \<Rightarrow> device \<Rightarrow> u16 set" where
  "device_keys f d = {c. gm_true (fw_device f d) c}"

definition fw_synced :: "('w \<Rightarrow> event list) \<Rightarrow> 'w forwarder \<Rightarrow> bool" where
  "fw_synced log f \<longleftrightarrow> fw_ok f \<and> visible (log (fw_output f)) = held_keys f \<and> stream_ok {} (log (fw_output f))"

lemma held_keys_devices: "held_keys f = (\<Union>d. device_keys f d)"
  by (auto simp: held_keys_def held_by_def device_keys_def)

lemma held_by_devices: "held_by f c = {d. c \<in> device_keys f d}"
  by (simp add: held_by_def device_keys_def)

lemma fw_write_keeps [simp]:
  "device_keys (f\<lparr>fw_output := w\<rparr>) = device_keys f"
  "fw_ok (f\<lparr>fw_output := w\<rparr>) = fw_ok f"
  "held_keys (f\<lparr>fw_output := w\<rparr>) = held_keys f"
  by (simp_all add: device_keys_def fun_eq_iff fw_ok_def held_keys_def held_by_def)

lemma fw_touch_keeps [simp]:
  "fw_output (fw_touch d f) = fw_output f"
  "device_keys (fw_touch d f) = device_keys f"
  "held_keys (fw_touch d f) = held_keys f"
  by (auto simp: fw_touch_def device_keys_def fun_eq_iff held_keys_def held_by_def)

lemma fw_ok_touch: "fw_ok f \<Longrightarrow> fw_ok (fw_touch d f)"
  using fw_ok_same(1)[of f d] by (simp add: fw_touch_def)

lemma apply_key_other: "ev_type ev \<noteq> EVKey \<Longrightarrow> apply_key ev S = S"
  by (simp add: apply_key_def)

lemma subseq_set: "subseq xs ys \<Longrightarrow> set xs \<subseteq> set ys"
  by (auto dest: list_emb_set)

locale event_writer =
  fixes wr :: "event \<Rightarrow> 'w \<Rightarrow> ('e + unit) \<times> 'w" and log :: "'w \<Rightarrow> event list" and ok :: "'w \<Rightarrow> bool"
  assumes written: "ok w \<Longrightarrow> wr ev w = (Inr (), w') \<Longrightarrow> log w' = log w @ [ev] \<and> ok w'"
begin

lemma fw_write_logs:
  assumes "fw_write wr ev f = (Inr u, f')" "ok (fw_output f)"
  shows "\<exists>w. f' = f\<lparr>fw_output := w\<rparr> \<and> log w = log (fw_output f) @ [ev] \<and> ok w"
proof -
  obtain r w where w: "wr ev (fw_output f) = (r, w)" by (cases "wr ev (fw_output f)")
  with assms written[OF assms(2), of ev w] show ?thesis by (auto simp: fw_write_def)
qed

text \<open>A written event that is no key event changes nothing but the log.\<close>

lemma write_other:
  assumes "fw_write wr ev f = (Inr u, f')" "ok (fw_output f)" "fw_synced log f" "ev_type ev \<noteq> EVKey"
  shows "fw_synced log f' \<and> ok (fw_output f') \<and> device_keys f' = device_keys f \<and>
    log (fw_output f') = log (fw_output f) @ [ev]"
  using fw_write_logs[OF assms(1,2)] assms(3,4)
  by (auto simp: fw_synced_def visible_snoc stream_ok_snoc apply_key_other key_change_ok_def)

text \<open>A key event: what the forwarder then holds is what the log then shows.\<close>

lemma key_synced:
  assumes "fw_key d ev f = (emit, f1)" "ok (fw_output f)" "fw_synced log f" "ev_type ev = EVKey"
  shows "device_keys f1 d' = (if d' = d then apply_key ev (device_keys f d) else device_keys f d')"
    and "\<not> emit \<Longrightarrow> fw_synced log f1 \<and> fw_output f1 = fw_output f"
    and "emit \<Longrightarrow> fw_write wr ev f1 = (Inr u, f2) \<Longrightarrow> fw_synced log f2 \<and> ok (fw_output f2) \<and>
      device_keys f2 = device_keys f1 \<and> log (fw_output f2) = log (fw_output f) @ [ev]"
proof -
  have f: "fw_ok f" "visible (log (fw_output f)) = held_keys f" "stream_ok {} (log (fw_output f))"
    using assms(3) by (simp_all add: fw_synced_def)
  note step = fw_key_step[OF f(1) assms(1,4)]
  show "device_keys f1 d' = (if d' = d then apply_key ev (device_keys f d) else device_keys f d')"
    using step by (auto simp: device_keys_def)
  show "\<not> emit \<Longrightarrow> fw_synced log f1 \<and> fw_output f1 = fw_output f"
    using step f by (simp add: fw_synced_def)
  show "fw_synced log f2 \<and> ok (fw_output f2) \<and> device_keys f2 = device_keys f1 \<and>
      log (fw_output f2) = log (fw_output f) @ [ev]"
    if emit: emit and w: "fw_write wr ev f1 = (Inr u, f2)"
  proof -
    have out: "fw_output f1 = fw_output f" using step by simp
    with assms(2) have "ok (fw_output f1)" by simp
    from fw_write_logs[OF w this] obtain w' where
      w': "f2 = f1\<lparr>fw_output := w'\<rparr>" "log w' = log (fw_output f) @ [ev]" "ok w'" by (auto simp: out)
    have "fold apply_key (log (fw_output f)) {} = held_keys f" using f(2) by (simp add: visible_def)
    with w' step emit f show ?thesis by (simp add: fw_synced_def visible_snoc stream_ok_snoc)
  qed
qed

lemma events_synced:
  assumes "fw_events wr d evs wrote f = (Inr wrote', f')" "ok (fw_output f)" "fw_synced log f"
  shows "fw_synced log f' \<and> ok (fw_output f') \<and>
    device_keys f' = (device_keys f)(d := fold apply_key evs (device_keys f d)) \<and>
    (\<exists>sent. subseq sent evs \<and> log (fw_output f') = log (fw_output f) @ sent \<and>
       (wrote' \<longleftrightarrow> wrote \<or> sent \<noteq> []))"
  using assms
proof (induction evs arbitrary: wrote f)
  case (Cons ev evs)
  define r where "r = (if ev_type ev = EVKey then fw_key d ev f
      else (ev_type ev = EVMsc \<and> ev_code ev = MscScan, f))"
  obtain emit f1 where r_eq: "r = (emit, f1)" by (cases r)
  have dev: "device_keys f1 = (device_keys f)(d := apply_key ev (device_keys f d))"
  proof (cases "ev_type ev = EVKey")
    case True
    then show ?thesis using key_synced(1)[OF _ Cons.prems(2,3) True] r_eq by (auto simp: r_def fun_eq_iff)
  qed (use r_eq in \<open>auto simp: r_def apply_key_other\<close>)
  show ?case
  proof (cases emit)
    case False
    have "fw_synced log f1 \<and> fw_output f1 = fw_output f"
      using key_synced(2)[OF _ Cons.prems(2,3)] r_eq False Cons.prems(3)
      by (cases "ev_type ev = EVKey") (auto simp: r_def)
    moreover have "fw_events wr d evs wrote f1 = (Inr wrote', f')"
      using Cons.prems(1) r_eq False by (simp add: r_def)
    ultimately show ?thesis using Cons.IH[of wrote f1] Cons.prems(2) dev
      by (auto intro: list_emb_Cons simp: fun_eq_iff)
  next
    case True
    obtain u f2 where w: "fw_write wr ev f1 = (Inr u, f2)" and rest: "fw_events wr d evs True f2 = (Inr wrote', f')"
      using Cons.prems(1) r_eq True by (auto simp: r_def split: prod.splits sum.splits)
    have s2: "fw_synced log f2 \<and> ok (fw_output f2) \<and> device_keys f2 = device_keys f1 \<and>
        log (fw_output f2) = log (fw_output f) @ [ev]"
    proof (cases "ev_type ev = EVKey")
      case key: True
      then show ?thesis using key_synced(3)[OF _ Cons.prems(2,3) key True w] r_eq by (simp add: r_def)
    next
      case False
      then show ?thesis using write_other[OF w] Cons.prems(2,3) r_eq by (simp add: r_def)
    qed
    with Cons.IH[OF rest] obtain sent where "subseq sent evs"
      "log (fw_output f') = log (fw_output f) @ [ev] @ sent" "wrote'" by auto
    moreover from this(1) have "subseq (ev # sent) (ev # evs)" by simp
    ultimately show ?thesis using Cons.IH[OF rest] s2 dev
      by (intro conjI exI[of _ "ev # sent"]) (auto simp: fun_eq_iff)
  qed
qed auto

text \<open>\<open>Frame\<close>: the keys of its device follow the report, and one report is written, or nothing.\<close>

lemma report_synced:
  assumes "fw_report wr wrote f = (Inr u, f')" "ok (fw_output f)" "fw_synced log f"
  shows "fw_synced log f' \<and> ok (fw_output f') \<and> device_keys f' = device_keys f \<and>
    log (fw_output f') = log (fw_output f) @ (if wrote then [syn_event] else [])"
  using assms write_other[of syn_event f u f'] by (auto simp: fw_report_def split: if_splits)

lemma frame_synced:
  assumes "fw_frame wr fr f = (Inr u, f')" "ok (fw_output f)" "fw_synced log f"
  shows "fw_synced log f' \<and> ok (fw_output f') \<and>
    device_keys f' = (device_keys f)(fr_device fr := fold apply_key (fr_events fr) (device_keys f (fr_device fr))) \<and>
    (\<exists>sent. subseq sent (fr_events fr) \<and>
       log (fw_output f') = log (fw_output f) @ (if sent = [] then [] else sent @ [syn_event]))"
proof -
  obtain wrote f1 where ev: "fw_events wr (fr_device fr) (fr_events fr) False (fw_touch (fr_device fr) f) = (Inr wrote, f1)"
    and rep: "fw_report wr wrote f1 = (Inr u, f')"
    using assms(1) by (auto simp: fw_frame_def split: prod.splits sum.splits)
  have touch: "fw_synced log (fw_touch (fr_device fr) f)" using assms(3) by (simp add: fw_synced_def fw_ok_touch)
  have out: "ok (fw_output (fw_touch (fr_device fr) f))" using assms(2) by simp
  obtain sent where s: "subseq sent (fr_events fr)" "log (fw_output f1) = log (fw_output f) @ sent"
    "wrote \<longleftrightarrow> sent \<noteq> []"
    using events_synced[OF ev out touch] by auto
  have f1: "fw_synced log f1" "ok (fw_output f1)"
    "device_keys f1 = (device_keys f)(fr_device fr := fold apply_key (fr_events fr) (device_keys f (fr_device fr)))"
    using events_synced[OF ev out touch] by simp_all
  have "log (fw_output f') = log (fw_output f) @ (if sent = [] then [] else sent @ [syn_event])"
    using report_synced[OF rep f1(2,1)] s(2,3) by simp
  then show ?thesis
    using report_synced[OF rep f1(2,1)] f1(3) s(1) by (intro conjI exI[of _ sent]) simp_all
qed

text \<open>\<open>Resync\<close>: both loops are the loop of a frame on the transitions, and leave exactly the snapshot.\<close>

lemma fw_keys_events: "fw_keys wr d v cs wrote f = fw_events wr d (map (\<lambda>c. key_event c v) cs) wrote f"
  by (induction cs arbitrary: wrote f) (auto split: prod.splits sum.splits)

lemma resync_synced:
  assumes "fw_resync wr d actual f = (Inr u, f')" "ok (fw_output f)" "fw_synced log f"
  shows "fw_synced log f' \<and> ok (fw_output f') \<and>
    device_keys f' = (device_keys f)(d := {c. gm_true actual c}) \<and>
    (\<exists>sent. log (fw_output f') = log (fw_output f) @ (if sent = [] then [] else sent @ [syn_event]) \<and>
       set sent \<subseteq> (\<lambda>c. key_event c 0) ` (device_keys f d - {c. gm_true actual c}) \<union>
         (\<lambda>c. key_event c 1) ` ({c. gm_true actual c} - device_keys f d))"
proof -
  define releases where "releases = sort (filter (\<lambda>c. \<not> gm_true actual c) (gm_keys (fw_device f d)))"
  define presses where "presses = sort (filter (\<lambda>c. gm_true actual c \<and> \<not> gm_true (fw_device f d) c) (gm_keys actual))"
  obtain w1 f1 w2 f2 where
    e1: "fw_events wr d (map (\<lambda>c. key_event c 0) releases) False (fw_touch d f) = (Inr w1, f1)" and
    e2: "fw_events wr d (map (\<lambda>c. key_event c 1) presses) w1 f1 = (Inr w2, f2)" and
    rep: "fw_report wr w2 (if actual = [] then f2\<lparr>fw_down := gm_del d (fw_down f2)\<rparr> else f2) = (Inr u, f')"
    using assms(1) unfolding fw_resync_def Let_def releases_def[symmetric] presses_def[symmetric] fw_keys_events
    by (auto split: prod.splits sum.splits)
  have touch: "fw_synced log (fw_touch d f)" using assms(3) by (simp add: fw_synced_def fw_ok_touch)
  have out: "ok (fw_output (fw_touch d f))" using assms(2) by simp
  obtain s1 where s1: "subseq s1 (map (\<lambda>c. key_event c 0) releases)"
    "log (fw_output f1) = log (fw_output f) @ s1" "w1 \<longleftrightarrow> s1 \<noteq> []"
    using events_synced[OF e1 out touch] by auto
  have f1: "fw_synced log f1" "ok (fw_output f1)"
    "device_keys f1 = (device_keys f)(d := fold apply_key (map (\<lambda>c. key_event c 0) releases) (device_keys f d))"
    using events_synced[OF e1 out touch] by simp_all
  obtain s2 where s2: "subseq s2 (map (\<lambda>c. key_event c 1) presses)"
    "log (fw_output f2) = log (fw_output f1) @ s2" "w2 \<longleftrightarrow> w1 \<or> s2 \<noteq> []"
    using events_synced[OF e2 f1(2,1)] by auto
  have f2: "fw_synced log f2" "ok (fw_output f2)"
    "device_keys f2 = (device_keys f1)(d := fold apply_key (map (\<lambda>c. key_event c 1) presses) (device_keys f1 d))"
    using events_synced[OF e2 f1(2,1)] by simp_all
  have sets: "set releases = device_keys f d - {c. gm_true actual c}"
    "set presses = {c. gm_true actual c} - device_keys f d"
    using fw_ok_get[of f] assms(3)
    by (auto simp: releases_def presses_def device_keys_def gm.keys_get fw_synced_def) (auto simp: gm_true_def)
  have "fold apply_key (map (\<lambda>c. key_event c 0) cs) S = S - set cs" for cs S
    by (induction cs arbitrary: S) (auto simp: apply_key_def)
  moreover have "fold apply_key (map (\<lambda>c. key_event c 1) cs) S = S \<union> set cs" for cs S
    by (induction cs arbitrary: S) (auto simp: apply_key_def)
  ultimately have held: "device_keys f2 = (device_keys f)(d := {c. gm_true actual c})"
    using f1(3) f2(3) sets by (auto simp: fun_eq_iff)
  define f3 where "f3 = (if actual = [] then f2\<lparr>fw_down := gm_del d (fw_down f2)\<rparr> else f2)"
  have same: "fw_device f3 d' = fw_device f2 d'" for d'
  proof (cases "actual = [] \<and> d' = d")
    case True
    have "device_keys f2 d = {}" using held True by simp
    then have "gm_get (fw_device f2 d) c = None" for c
      using f2(1) fw_ok_get[of f2 d c] by (auto simp: device_keys_def fw_synced_def)
    then have "fw_device f2 d = []" by (simp add: gm_empty_iff)
    with True show ?thesis by (simp add: f3_def fw_device_def)
  qed (auto simp: f3_def fw_device_def)
  have hb: "held_by f3 = held_by f2" by (simp add: held_by_def same fun_eq_iff)
  have parts: "fw_output f3 = fw_output f2" "fw_counts f3 = fw_counts f2" "gm_wf (fw_down f2) \<Longrightarrow> gm_wf (fw_down f3)"
    by (simp_all add: f3_def)
  have ok: "fw_ok f3"
    using f2(1) parts unfolding fw_ok_def fw_synced_def by (simp add: same hb)
  have "held_keys f3 = held_keys f2" by (simp add: held_keys_def hb)
  then have f3: "fw_synced log f3" "ok (fw_output f3)" "device_keys f3 = device_keys f2"
    "fw_output f3 = fw_output f2"
    using f2(1,2) ok parts(1) by (simp_all add: fw_synced_def device_keys_def same fun_eq_iff)
  note r = report_synced[OF rep[folded f3_def] f3(2,1)]
  have "set (s1 @ s2) \<subseteq> set (map (\<lambda>c. key_event c 0) releases) \<union> set (map (\<lambda>c. key_event c 1) presses)"
    using s1(1) s2(1) by (auto dest: set_mp[OF subseq_set])
  moreover have "log (fw_output f') = log (fw_output f) @ (if s1 @ s2 = [] then [] else (s1 @ s2) @ [syn_event])"
    using r f3(4) s1(2,3) s2(2,3) by auto
  ultimately have "\<exists>sent. log (fw_output f') = log (fw_output f) @ (if sent = [] then [] else sent @ [syn_event]) \<and>
       set sent \<subseteq> (\<lambda>c. key_event c 0) ` (device_keys f d - {c. gm_true actual c}) \<union>
         (\<lambda>c. key_event c 1) ` ({c. gm_true actual c} - device_keys f d)"
    unfolding set_map sets by blast
  then show ?thesis using r f3(3) held by simp
qed

end

section \<open>Runs\<close>

datatype fw_op = OpFrame frame | OpResync device "(u16, bool) gomap"
datatype 'e fw_error = FrameError 'e | ResyncFailed "'e resync_error"

definition fw_step :: "(event \<Rightarrow> 'w \<Rightarrow> ('e + unit) \<times> 'w) \<Rightarrow> fw_op \<Rightarrow> 'w forwarder \<Rightarrow>
    ('e fw_error + unit) \<times> 'w forwarder" where
  "fw_step wr act f =
     (case act of
        OpFrame fr \<Rightarrow> let (r, f') = fw_frame wr fr f in (map_err FrameError r, f')
      | OpResync d actual \<Rightarrow> let (r, f') = fw_resync wr d actual f in (map_err ResyncFailed r, f'))"

fun fw_run :: "(event \<Rightarrow> 'w \<Rightarrow> ('e + unit) \<times> 'w) \<Rightarrow> fw_op list \<Rightarrow> 'w forwarder \<Rightarrow>
    ('e fw_error + unit) \<times> 'w forwarder" where
  "fw_run wr [] f = (Inr (), f)"
| "fw_run wr (act # acts) f =
     (case fw_step wr act f of (Inl e, f') \<Rightarrow> (Inl e, f') | (Inr _, f') \<Rightarrow> fw_run wr acts f')"

text \<open>The specification: the keys of each device after a sequence of frames and snapshots.\<close>

definition keys_step :: "fw_op \<Rightarrow> (device \<Rightarrow> u16 set) \<Rightarrow> device \<Rightarrow> u16 set" where
  "keys_step act K =
     (case act of
        OpFrame fr \<Rightarrow> K(fr_device fr := fold apply_key (fr_events fr) (K (fr_device fr)))
      | OpResync d actual \<Rightarrow> K(d := {c. gm_true actual c}))"

definition keys_after :: "fw_op list \<Rightarrow> device \<Rightarrow> u16 set" where
  "keys_after acts = fold keys_step acts (\<lambda>_. {})"

text \<open>What one operation appends to the log: nothing, or events closed by one report.\<close>

definition closed_report :: "event list \<Rightarrow> event list \<Rightarrow> bool" where
  "closed_report old new \<longleftrightarrow> (\<exists>sent. new = old @ (if sent = [] then [] else sent @ [syn_event]))"

context event_writer
begin

lemma step_synced:
  assumes "fw_step wr act f = (Inr u, f')" "ok (fw_output f)" "fw_synced log f"
  shows "fw_synced log f'" "ok (fw_output f')" "device_keys f' = keys_step act (device_keys f)"
    "closed_report (log (fw_output f)) (log (fw_output f'))"
proof -
  have "fw_synced log f' \<and> ok (fw_output f') \<and> device_keys f' = keys_step act (device_keys f) \<and>
    closed_report (log (fw_output f)) (log (fw_output f'))"
  proof (cases act)
    case (OpFrame fr)
    then have "fw_frame wr fr f = (Inr u, f')" using assms(1) by (auto simp: fw_step_def split: prod.splits)
    from frame_synced[OF this assms(2,3)] OpFrame show ?thesis
      by (simp only: keys_step_def fw_op.case closed_report_def) blast
  next
    case (OpResync d actual)
    then have "fw_resync wr d actual f = (Inr u, f')" using assms(1) by (auto simp: fw_step_def split: prod.splits)
    from resync_synced[OF this assms(2,3)] OpResync show ?thesis
      by (simp only: keys_step_def fw_op.case closed_report_def) blast
  qed
  then show "fw_synced log f'" "ok (fw_output f')" "device_keys f' = keys_step act (device_keys f)"
    "closed_report (log (fw_output f)) (log (fw_output f'))" by simp_all
qed

lemma run_synced:
  assumes "fw_run wr acts f = (Inr u, f')" "ok (fw_output f)" "fw_synced log f"
  shows "fw_synced log f' \<and> ok (fw_output f') \<and> device_keys f' = fold keys_step acts (device_keys f)"
  using assms
proof (induction acts arbitrary: f)
  case (Cons act acts)
  obtain r f1 where s: "fw_step wr act f = (Inr r, f1)" and rest: "fw_run wr acts f1 = (Inr u, f')"
    using Cons.prems(1) by (auto split: prod.splits sum.splits)
  note st = step_synced[OF s Cons.prems(2,3)]
  from Cons.IH[OF rest st(2,1)] st(3) show ?case by simp
qed auto

lemma new_synced: "log w = [] \<Longrightarrow> fw_synced log (new_forwarder w) \<and> device_keys (new_forwarder w) = (\<lambda>_. {})"
  using fw_ok_new[of w]
  by (simp add: fw_synced_def visible_def new_forwarder_def held_keys_def held_by_def device_keys_def
      fw_device_def fun_eq_iff)

text \<open>From a new forwarder: the log shows exactly the keys some device holds, and every key event of it
  changes what it shows.\<close>

lemma run_visible:
  assumes "fw_run wr acts (new_forwarder w) = (Inr u, f)" "ok w" "log w = []"
  shows "visible (log (fw_output f)) = (\<Union>d. keys_after acts d)"
    and "stream_ok {} (log (fw_output f))"
    and "fw_count (fw_counts f) c = int (card {d. c \<in> keys_after acts d})"
proof -
  have run: "fw_synced log f" "device_keys f = keys_after acts"
    using run_synced[OF assms(1)] new_synced[OF assms(3)] assms(2) by (simp_all add: keys_after_def new_forwarder_def)
  then show "visible (log (fw_output f)) = (\<Union>d. keys_after acts d)"
    and "stream_ok {} (log (fw_output f))"
    and "fw_count (fw_counts f) c = int (card {d. c \<in> keys_after acts d})"
    by (simp_all add: fw_synced_def held_keys_devices fw_count_held held_by_devices)
qed

end

end
