(* ===== verification/Engine_Visible.thy ===== *)
theory Engine_Visible
  imports Engine_Routes Engine_Output Forwarder
begin

text \<open>
  What the consumer of the engine's outputs holds.  \<open>consume\<close> is the effect of an output on the keys
  each device holds for the consumer (the contract of the forwarder).  The invariant \<open>shown\<close> says that
  once the frames in the journal are sent, the consumer holds for a device exactly its keys that are
  down and forwarded, and for a held output its target: for every way the pending decisions can end.
\<close>

section \<open>The effect of outputs and of journal entries\<close>

type_synonym holding = "device \<Rightarrow> u16 set"

fun consume :: "engine_output \<Rightarrow> holding \<Rightarrow> holding" where
  "consume (ForwardFrame fr) H = H(fr_device fr := fold apply_key (fr_events fr) (H (fr_device fr)))"
| "consume (ReconcileDevice d m) H = H(d := {c. gm_true m c})"
| "consume (EmitAction act) H = H"

definition not_consumed :: "(pid \<Rightarrow> disposition) \<Rightarrow> pid option \<Rightarrow> bool" where
  "not_consumed \<rho> p \<longleftrightarrow> (case p of None \<Rightarrow> True | Some q \<Rightarrow> \<rho> q \<noteq> Consumed)"

definition note_rec :: "(pid \<Rightarrow> disposition) \<Rightarrow> device \<Rightarrow> recorded_event \<Rightarrow> holding \<Rightarrow> holding" where
  "note_rec \<rho> d r H =
     (case r_output r of
        Some out \<Rightarrow> consume out H
      | None \<Rightarrow> if not_consumed \<rho> (r_press r) then H(d := apply_key (r_event r) (H d)) else H)"

definition note_frame :: "(pid \<Rightarrow> disposition) \<Rightarrow> journal_frame \<Rightarrow> holding \<Rightarrow> holding" where
  "note_frame \<rho> f H = fold (note_rec \<rho> (j_device f)) (j_events f) H"

definition note_journal :: "(pid \<Rightarrow> disposition) \<Rightarrow> journal_frame list \<Rightarrow> holding \<Rightarrow> holding" where
  "note_journal \<rho> js H = fold (note_frame \<rho>) js H"

text \<open>The ways the undecided presses can be decided.\<close>

definition completes :: "(pid \<Rightarrow> disposition) \<Rightarrow> engine \<Rightarrow> bool" where
  "completes \<rho> s \<longleftrightarrow> (\<forall>p. \<rho> p \<noteq> Undecided) \<and>
     (\<forall>p. known s p \<and> p_route (pr s p) \<noteq> Undecided \<longrightarrow> \<rho> p = p_route (pr s p))"

text \<open>What the consumer must hold.\<close>

definition held_targets :: "engine \<Rightarrow> device \<Rightarrow> u16 set" where
  "held_targets s d = {a_target (e_acts s a) | a. a \<in> set (e_active s) \<and> a_live (e_acts s a) \<and> a_device (e_acts s a) = d}"

definition want :: "(pid \<Rightarrow> disposition) \<Rightarrow> engine \<Rightarrow> holding" where
  "want \<rho> s d = {c. \<exists>p. phys s d c = Some p \<and> \<rho> p = Forwarded} \<union> held_targets s d"

text \<open>Devices of the machine have absolute paths; the devices of held outputs do not.\<close>

definition repeats_ok :: "recorded_event list \<Rightarrow> bool" where
  "repeats_ok rs \<longleftrightarrow> (\<forall>r\<in>set rs. r_repeat r \<noteq> None \<longrightarrow> (\<exists>d t. r_output r = Some (key_output d t 2)))"

definition held_ok :: "engine \<Rightarrow> bool" where
  "held_ok s \<longleftrightarrow> (\<forall>d c p. phys s d c = Some p \<longrightarrow> is_abs d) \<and>
     (\<forall>a\<in>set (e_active s). a_device (e_acts s a) = activation_device a \<and> a \<le> e_next_activation s) \<and>
     (\<forall>f\<in>set (e_journal s). repeats_ok (j_events f))"

definition shown :: "engine \<Rightarrow> holding \<Rightarrow> bool" where
  "shown s H \<longleftrightarrow> held_ok s \<and> (\<forall>\<rho>. completes \<rho> s \<longrightarrow> note_journal \<rho> (e_journal s) H = want \<rho> s)"

lemma note_journal_simps [simp]:
  "note_journal \<rho> [] H = H" "note_journal \<rho> (f # fs) H = note_journal \<rho> fs (note_frame \<rho> f H)"
  "note_journal \<rho> (fs @ gs) H = note_journal \<rho> gs (note_journal \<rho> fs H)"
  by (simp_all add: note_journal_def)

lemma activation_device_virtual [simp]: "\<not> is_abs (activation_device n)" "\<not> is_abs ''eakd-remap''"
  by (simp_all add: activation_device_def is_abs_def has_prefix_def)

lemma activation_device_inject [simp]: "activation_device m = activation_device n \<longleftrightarrow> m = n"
  by (simp add: activation_device_def dec_string_inject)

lemma activation_device_tap [simp]: "activation_device n \<noteq> ''eakd-remap''"
  by (simp add: activation_device_def)

lemma syn_no_key [simp]: "apply_key syn_event S = S"
  by (simp add: apply_key_def)

lemma completes_persists: "completes \<rho> s' \<Longrightarrow> persists s s' \<Longrightarrow> completes \<rho> s"
  unfolding completes_def persists_def press_kept_def known_def by (metis le_trans)

lemma completes_choice: "completes (\<lambda>p. if p_route (pr s p) = Undecided then Forwarded else p_route (pr s p)) s"
  by (simp add: completes_def)

section \<open>Draining\<close>

lemma consume_flush: "fold consume (flush_events d acc) H = H(d := fold apply_key acc (H d))"
  by (simp add: flush_events_def)

lemma consume_repeat: "consume (key_output d t 2) H = H"
  by (simp add: key_output_def apply_key_def)

lemma note_rec_simps:
  "r_output r = Some out \<Longrightarrow> note_rec \<rho> d r H = consume out H"
  "r_output r = None \<Longrightarrow> not_consumed \<rho> (r_press r) \<Longrightarrow> note_rec \<rho> d r H = H(d := apply_key (r_event r) (H d))"
  "r_output r = None \<Longrightarrow> \<not> not_consumed \<rho> (r_press r) \<Longrightarrow> note_rec \<rho> d r H = H"
  by (simp_all add: note_rec_def)

lemma emit_consumed:
  assumes "completes \<rho> s"
  shows "events_ok s rs \<Longrightarrow> repeats_ok rs \<Longrightarrow> \<forall>r\<in>set rs. press_route s (r_press r) \<noteq> Some Undecided \<Longrightarrow>
    fold consume (emit_events s d nomisc acc rs) H = fold (note_rec \<rho> d) rs (H(d := fold apply_key acc (H d)))"
proof (induction rs arbitrary: acc H)
  case Nil
  then show ?case by (simp add: consume_flush)
next
  case (Cons r rs)
  have rest: "events_ok s rs" "repeats_ok rs" "\<forall>r\<in>set rs. press_route s (r_press r) \<noteq> Some Undecided"
    using Cons.prems by (simp_all add: repeats_ok_def)
  show ?case
  proof (cases "r_output r")
    case (Some out)
    show ?thesis
    proof (cases "case r_repeat r of None \<Rightarrow> False | Some a \<Rightarrow> \<not> a_live (e_acts s a)")
      case True
      then have "r_repeat r \<noteq> None" by (auto split: option.splits)
      then obtain e t where "r_output r = Some (key_output e t 2)" using Cons.prems(2) by (auto simp: repeats_ok_def)
      then have "note_rec \<rho> d r H' = H'" for H' by (simp add: note_rec_simps consume_repeat)
      then show ?thesis using True Some Cons.IH[OF rest] by simp
    next
      case False
      then have e: "emit_events s d nomisc acc (r # rs) = flush_events d acc @ out # emit_events s d nomisc [] rs"
        using Some by simp
      have "fold consume (emit_events s d nomisc [] rs) H' = fold (note_rec \<rho> d) rs H'" for H'
        using Cons.IH[OF rest, of "[]" H'] by simp
      then show ?thesis unfolding e by (simp add: consume_flush note_rec_simps(1)[OF Some] del: fun_upd_apply)
    qed
  next
    case None
    have "press_route s (r_press r) = Some Consumed \<longleftrightarrow> \<not> not_consumed \<rho> (r_press r)"
      using Cons.prems(1,3) assms
      by (auto simp: press_route_def not_consumed_def completes_def split: option.splits)
    moreover have "ev_type (r_event r) = EVSyn \<or> ev_type (r_event r) = EVMsc \<Longrightarrow> apply_key (r_event r) S = S" for S
      by (auto simp: apply_key_def)
    ultimately show ?thesis using None Cons.IH[OF rest] by (auto simp: note_rec_simps fun_upd_same simp del: fun_upd_apply)
  qed
qed

lemma drain_consumed:
  assumes "completes \<rho> s" "\<forall>f\<in>set fs. events_ok s (j_events f) \<and> repeats_ok (j_events f)"
  shows "note_journal \<rho> (snd (drain_frames s fs)) (fold consume (fst (drain_frames s fs)) H) = note_journal \<rho> fs H"
  using assms(2)
proof (induction fs arbitrary: H)
  case (Cons f fs)
  show ?case
  proof (cases "frame_pending s f")
    case False
    then have "\<forall>r\<in>set (j_events f). press_route s (r_press r) \<noteq> Some Undecided"
      by (auto simp: frame_pending_def list_ex_iff)
    then have "fold consume (frame_outputs s f) H = note_frame \<rho> f H"
      using emit_consumed[OF assms(1), of "j_events f" "j_device f" "drop_misc s f" "[]" H] Cons.prems
      by (simp add: frame_outputs_def note_frame_def)
    then show ?thesis using False Cons by (simp add: case_prod_beta)
  qed simp
qed simp

lemma drain_shown:
  assumes "engine_inv cfg s" "shown s H" "drain s = (outs, s')"
  shows "shown s' (fold consume outs H)"
proof -
  have d: "outs = fst (drain_frames s (e_journal s))" "s' = s\<lparr>e_journal := snd (drain_frames s (e_journal s))\<rparr>"
    using assms(3) by (simp_all add: drain_def case_prod_beta)
  have sub: "set (e_journal s') \<subseteq> set (e_journal s)"
    by (auto simp: d(2) drain_frames_rest dest: set_dropWhileD)
  have held: "held_ok s" using assms(2) by (simp add: shown_def)
  have "note_journal \<rho> (e_journal s') (fold consume outs H) = want \<rho> s'" if "completes \<rho> s'" for \<rho>
  proof -
    have c: "completes \<rho> s" using that by (simp add: completes_def d(2) known_def)
    have "\<forall>f\<in>set (e_journal s). events_ok s (j_events f) \<and> repeats_ok (j_events f)"
      using assms(1) held by (simp add: engine_inv_def journal_ok_def held_ok_def)
    from drain_consumed[OF c this, of H] have "note_journal \<rho> (e_journal s') (fold consume outs H) = note_journal \<rho> (e_journal s) H"
      by (simp add: d)
    also have "\<dots> = want \<rho> s" using assms(2) c by (simp add: shown_def)
    also have "\<dots> = want \<rho> s'" by (simp add: fun_eq_iff want_def held_targets_def d(2) phys_def phys_dev_def)
    finally show ?thesis .
  qed
  moreover have "held_ok s'" using held sub by (auto simp: held_ok_def d(2) phys_def phys_dev_def)
  ultimately show ?thesis by (simp add: shown_def)
qed

section \<open>Ingestion\<close>

lemma targets_virtual: "held_ok s \<Longrightarrow> is_abs d \<Longrightarrow> held_targets s d = {}"
  by (auto simp: held_targets_def held_ok_def)

lemma targets_cong:
  "e_active s' = e_active s \<Longrightarrow> e_acts s' = e_acts s \<Longrightarrow> held_targets s' = held_targets s"
  by (simp add: held_targets_def fun_eq_iff)

lemma want_cong:
  "e_physical s' = e_physical s \<Longrightarrow> e_active s' = e_active s \<Longrightarrow> e_acts s' = e_acts s \<Longrightarrow> want \<rho> s' = want \<rho> s"
  by (simp add: want_def fun_eq_iff phys_def phys_dev_def targets_cong[of s' s])

lemma ingest_frame:
  assumes "ingest d ev s = (p, tr, s')"
  shows "e_active s' = e_active s" "e_acts s' = e_acts s" "e_journal s' = e_journal s"
    "e_next_activation s' = e_next_activation s" "e_mode s' = e_mode s"
  using assms by (auto elim!: ingest_cases)

lemma ingest_press_of:
  assumes "ingest d ev s = (p, tr, s')"
  shows "tr = None \<Longrightarrow> ev_type ev = EVKey \<Longrightarrow> p = phys s d (ev_code ev) \<or> p = None"
    "tr = None \<Longrightarrow> ev_type ev = EVKey \<Longrightarrow> ev_value ev = 1 \<Longrightarrow> p \<noteq> None \<and> p = phys s d (ev_code ev)"
    "tr = None \<Longrightarrow> ev_type ev = EVKey \<Longrightarrow> ev_value ev = 0 \<Longrightarrow> phys s d (ev_code ev) = None"
  using assms by (auto simp: ingest_def Let_def split_beta split: if_splits option.splits dest: sym)

lemma want_same:
  assumes "\<And>d' c. d' \<noteq> d \<Longrightarrow> phys s' d' c = phys s d' c" "e_active s' = e_active s" "e_acts s' = e_acts s"
    "want \<rho> s' d = S"
  shows "want \<rho> s' = (want \<rho> s)(d := S)"
  using assms targets_cong[of s' s] by (auto simp: fun_eq_iff want_def)

lemma ingest_want:
  assumes "phys_ok s" "held_ok s" "is_abs d" "ingest d ev s = (p, tr, s')" "completes \<rho> s'"
  shows "want \<rho> s' = note_rec \<rho> d (recorded_input ev p) (want \<rho> s)"
    "ev_value ev = 2 \<or> ev_value ev = 1 \<and> tr = None \<Longrightarrow> want \<rho> s' = want \<rho> s"
proof -
  have dn: "down_ok s" using assms(1) by (simp add: phys_ok_def)
  have und: "\<rho> q \<noteq> Undecided" for q using assms(5) by (simp add: completes_def)
  have W: "want \<rho> s d = {c. \<exists>p. phys s d c = Some p \<and> \<rho> p = Forwarded}"
    using targets_virtual[OF assms(2,3)] by (simp add: want_def)
  note fr = ingest_frame[OF assms(4)]
  have W': "want \<rho> s' d = {c. \<exists>p. phys s' d c = Some p \<and> \<rho> p = Forwarded}"
    using targets_virtual[OF assms(2,3)] targets_cong[of s' s] fr by (simp add: want_def)
  have rec: "note_rec \<rho> d (recorded_input ev p) H = (if not_consumed \<rho> p then H(d := apply_key ev (H d)) else H)" for H
    by (simp add: note_rec_def)
  from assms(4) have "want \<rho> s' = note_rec \<rho> d (recorded_input ev p) (want \<rho> s) \<and>
    (ev_value ev = 2 \<or> ev_value ev = 1 \<and> tr = None \<longrightarrow> want \<rho> s' = want \<rho> s)"
  proof (cases rule: ingest_cases)
    case invalid
    have "not_consumed \<rho> p \<Longrightarrow> apply_key ev (want \<rho> s d) = want \<rho> s d"
      using ingest_press_of[OF assms(4)] invalid(1) und
      by (cases "ev_type ev = EVKey") (auto simp: apply_key_def W not_consumed_def split: option.splits, metis disposition.exhaust)
    then show ?thesis using invalid by (auto simp: rec fun_upd_idem)
  next
    case (press t)
    note tr = ingest_transition[OF assms(4)[unfolded press(1)]]
    have new: "phys s' d' c' = (if d' = d \<and> c' = ev_code ev then Some (t_press t) else phys s d' c')" for d' c'
      using press by (simp add: phys_new_press)
    have none: "phys s d (ev_code ev) = None"
      using assms(4) tr(2,3) press(1,2)
      by (auto simp: ingest_def Let_def split_beta mk_transition_def split: if_splits option.splits)
    have "want \<rho> s' d = (if not_consumed \<rho> p then apply_key ev (want \<rho> s d) else want \<rho> s d)"
      using tr(1-3) press(2) none und[of "t_press t"]
      by (cases "\<rho> (t_press t)") (auto simp: W W' new apply_key_def not_consumed_def)
    then have "want \<rho> s' = (want \<rho> s)(d := (if not_consumed \<rho> p then apply_key ev (want \<rho> s d) else want \<rho> s d))"
      using new fr by (intro want_same) auto
    then show ?thesis using tr(2) press(1,2) by (auto simp: rec)
  next
    case (released t)
    note tr = ingest_transition[OF assms(4)[unfolded released(1)]]
    have q: "p_down (pr s (t_press t))" "p_device (pr s (t_press t)) = d" "p_code (pr s (t_press t)) = ev_code ev"
      using dn released(3) by (auto simp: down_ok_def)
    have new: "phys s' d' c' = (if d' = d \<and> c' = ev_code ev then None else phys s d' c')" for d' c'
      using released(4) phys_release[OF dn q(1)] q by simp
    have "want \<rho> s' d = (if not_consumed \<rho> p then apply_key ev (want \<rho> s d) else want \<rho> s d)"
      using tr(1-3) released(2,3) by (auto simp: W W' new apply_key_def not_consumed_def)
    then have "want \<rho> s' = (want \<rho> s)(d := (if not_consumed \<rho> p then apply_key ev (want \<rho> s d) else want \<rho> s d))"
      using new fr by (intro want_same) auto
    then show ?thesis using tr(2) released(1,2) by (auto simp: rec)
  next
    case (rep t)
    note tr = ingest_transition[OF assms(4)[unfolded rep(1)]]
    have "apply_key ev S = S" for S using tr(2,3) rep(2) by (simp add: apply_key_def)
    then show ?thesis using rep by (simp add: rec)
  qed
  then show "want \<rho> s' = note_rec \<rho> d (recorded_input ev p) (want \<rho> s)"
    "ev_value ev = 2 \<or> ev_value ev = 1 \<and> tr = None \<Longrightarrow> want \<rho> s' = want \<rho> s" by auto
qed

lemma ingest_held:
  assumes "held_ok s" "phys_ok s" "is_abs d" "ingest d ev s = (p, tr, s')"
  shows "held_ok s'"
proof -
  note fr = ingest_frame[OF assms(4)]
  have "is_abs d'" if "phys s' d' c = Some q" for d' c q
    using assms(4)
  proof (cases rule: ingest_cases)
    case (released t)
    have dn: "down_ok s" using assms(2) by (simp add: phys_ok_def)
    then have up: "p_down (pr s (t_press t))" using released(3) by (auto simp: down_ok_def)
    have "phys s d' c = Some q" using that released(4) phys_release[OF dn up] by (simp split: if_splits)
    then show ?thesis using assms(1) unfolding held_ok_def by blast
  qed (use that assms(1,3) in \<open>auto simp: held_ok_def phys_new_press split: if_splits\<close>)
  then show ?thesis using assms(1) by (simp add: held_ok_def fr)
qed

section \<open>Held outputs\<close>

lemma no_keys: "Collect (gm_true []) = {}"
  by (auto simp: gm_true_def)

lemma activation_event_want:
  assumes "held_ok s" "a \<in> set (e_active s)"
  shows "fold (note_rec \<rho> d) (fst (activation_event tr a s)) (want \<rho> s) = want \<rho> (snd (activation_event tr a s))"
    "held_ok (snd (activation_event tr a s))" "e_active (snd (activation_event tr a s)) = e_active s"
    "repeats_ok (fst (activation_event tr a s))"
proof -
  let ?dev = "a_device (e_acts s a)"
  have dev: "?dev = activation_device a" "b \<in> set (e_active s) \<Longrightarrow> a_device (e_acts s b) = activation_device b" for b
    using assms by (simp_all add: held_ok_def)
  have none: "phys s ?dev c = None" for c
  proof (cases "phys s ?dev c")
    case (Some p)
    then have "is_abs ?dev" using assms(1) unfolding held_ok_def by blast
    then show ?thesis by (simp add: dev(1))
  qed
  let ?s' = "upd_act a (\<lambda>x. x\<lparr>a_live := False\<rparr>) s"
  have "want \<rho> ?s' = (want \<rho> s)(?dev := {})"
  proof
    fix d' show "want \<rho> ?s' d' = ((want \<rho> s)(?dev := {})) d'"
      using none dev by (auto simp: want_def held_targets_def phys_def phys_dev_def split: if_splits)
  qed
  moreover have "consume (ReconcileDevice ?dev []) (consume (key_output ?dev t 0) H) = H(?dev := {})" for t H
    by (simp add: key_output_def no_keys)
  ultimately show "fold (note_rec \<rho> d) (fst (activation_event tr a s)) (want \<rho> s) = want \<rho> (snd (activation_event tr a s))"
    by (simp add: activation_event_def Let_def note_rec_simps consume_repeat del: consume.simps)
  have "held_ok ?s'" using assms(1) by (auto simp: held_ok_def phys_def phys_dev_def)
  then show "held_ok (snd (activation_event tr a s))" using assms(1) by (simp add: activation_event_def Let_def)
  show "e_active (snd (activation_event tr a s)) = e_active s" by (simp add: activation_event_def Let_def)
  show "repeats_ok (fst (activation_event tr a s))" by (auto simp: activation_event_def Let_def repeats_ok_def)
qed

lemma activation_events_of_want:
  "held_ok s \<Longrightarrow> set as \<subseteq> set (e_active s) \<Longrightarrow>
   fold (note_rec \<rho> d) (fst (activation_events_of tr as s)) (want \<rho> s) = want \<rho> (snd (activation_events_of tr as s)) \<and>
   held_ok (snd (activation_events_of tr as s)) \<and> repeats_ok (fst (activation_events_of tr as s))"
proof (induction as arbitrary: s)
  case (Cons a as)
  have a: "a \<in> set (e_active s)" using Cons.prems(2) by simp
  note one = activation_event_want[OF Cons.prems(1) a]
  have "set as \<subseteq> set (e_active (snd (activation_event tr a s)))" using Cons.prems(2) one(3) by simp
  with Cons.IH[OF one(2) this] one show ?case
    by (auto simp: case_prod_beta repeats_ok_def)
qed (simp add: repeats_ok_def)

lemma activation_events_want:
  assumes "held_ok s" "activation_events tr s = (outs, s')"
  shows "fold (note_rec \<rho> d) outs (want \<rho> s) = want \<rho> s'" "held_ok s'" "repeats_ok outs"
proof -
  let ?r = "activation_events_of tr (e_active s) s"
  note all = activation_events_of_want[OF assms(1) subset_refl]
  have s': "outs = fst ?r" "s' = (snd ?r)\<lparr>e_active := filter (\<lambda>a. a_live (e_acts (snd ?r) a)) (e_active (snd ?r))\<rparr>"
    using assms(2) by (auto simp: activation_events_def case_prod_beta)
  have "want \<rho> s' = want \<rho> (snd ?r)"
    by (auto simp: s'(2) fun_eq_iff want_def held_targets_def phys_def phys_dev_def)
  then show "fold (note_rec \<rho> d) outs (want \<rho> s) = want \<rho> s'" using all by (simp add: s'(1))
  show "held_ok s'" using all by (auto simp: s'(2) held_ok_def phys_def phys_dev_def)
  show "repeats_ok outs" using all by (simp add: s'(1))
qed

section \<open>Operations that change neither keys nor held outputs\<close>

definition held_same :: "engine \<Rightarrow> engine \<Rightarrow> bool" where
  "held_same s s' \<longleftrightarrow> e_physical s' = e_physical s \<and> e_active s' = e_active s \<and> e_acts s' = e_acts s \<and>
     e_next_activation s' = e_next_activation s \<and> e_journal s' = e_journal s"

lemma held_same_refl [simp]: "held_same s s"
  by (simp add: held_same_def)

lemma held_same_trans: "held_same s s' \<Longrightarrow> held_same s' s'' \<Longrightarrow> held_same s s''"
  by (simp add: held_same_def)

lemma held_same_ok: "held_same s s' \<Longrightarrow> held_ok s' = held_ok s"
  by (simp add: held_same_def held_ok_def phys_def phys_dev_def)

lemma held_same_want: "held_same s s' \<Longrightarrow> want \<rho> s' = want \<rho> s"
  by (auto simp: held_same_def intro: want_cong)

lemma held_same_upd [simp]:
  "held_same s (upd_cand c f s) = True" "held_same s (set_route r p s) = True" "held_same s (idle s) = True"
  "held_same s (alloc_candidate x s) = True" "held_same s (failed s) = True"
  by (simp_all add: held_same_def)

lemma held_same_resolve_presses: "resolve_presses r ps s = Some s' \<Longrightarrow> held_same s s'"
proof (induction r ps s rule: resolve_presses.induct)
  case (2 r p ps s)
  then have "held_same (set_route r p s) s'" by (simp split: if_splits)
  then show ?case by (simp add: held_same_def)
qed simp

lemma held_same_resolve: "resolve r s = Some s' \<Longrightarrow> held_same s s'"
  by (auto simp: resolve_def held_same_def split: option.splits Option.bind_splits
      dest: held_same_resolve_presses)

lemma held_same_fail: "fail s = Some s' \<Longrightarrow> held_same s s'"
  by (auto simp: fail_def split: Option.bind_splits dest!: held_same_resolve) (simp add: held_same_def)

lemma held_same_fail_upd: "fail (upd_cand c f s) = Some s' \<Longrightarrow> held_same s s'"
  by (drule held_same_fail) (simp add: held_same_def)

lemma held_same_start: "start_candidate cfg tr now s = Some (b, s') \<Longrightarrow> held_same s s'"
  by (auto simp: start_candidate_def start_source_def start_binding_def Let_def held_same_def
      split: if_splits mode.splits Option.bind_splits)

lemma held_same_advance_press:
  assumes "advance_press cfg p now c s = Some (b, s')"
  shows "held_same s s'"
proof -
  have "held_same s (upd_cand c g (upd_cand c f s))" for f g by (simp add: held_same_def)
  note failing = held_same_trans[OF this held_same_fail]
  show ?thesis
    using assms unfolding advance_press_def Let_def
    by (auto simp: held_same_def split: if_splits option.splits Option.bind_splits
        dest!: failing[unfolded held_same_def])
qed

lemma held_same_advance:
  assumes "advance cfg tr now s = Some (b, s')"
  shows "held_same s s'"
proof -
  have "held_same s s'" if "advance_release tr c m s = Some (b, s')" for c m
    using that unfolding advance_release_def Let_def
    by (auto split: if_splits Option.bind_splits dest: held_same_fail held_same_fail_upd)
  then show ?thesis
    using assms unfolding advance_def Let_def
    by (auto split: if_splits option.splits Option.bind_splits dest: held_same_fail held_same_advance_press)
qed

lemma held_same_advance_all: "advance_all cfg now trs s = Some (b, s') \<Longrightarrow> held_same s s'"
  by (induction trs arbitrary: s)
    (auto split: Option.bind_splits if_splits dest: held_same_advance intro: held_same_trans)

lemma held_same_match:
  assumes "frame_match cfg tr now L = Some L'"
  shows "held_same (l_eng L) (l_eng L')" "l_meaningful L' = l_meaningful L"
  using assms
  by (auto simp: frame_match_def split: Option.bind_splits if_splits
      dest!: held_same_start held_same_advance held_same_advance_all elim: held_same_trans)
    (auto simp: held_same_def)

section \<open>The loop over the events of a frame\<close>

definition vis_loop :: "device \<Rightarrow> frame_loop \<Rightarrow> holding \<Rightarrow> bool" where
  "vis_loop d L H \<longleftrightarrow> held_ok (l_eng L) \<and> repeats_ok (j_events (l_frame L)) \<and> j_device (l_frame L) = d \<and>
     (\<forall>\<rho>. completes \<rho> (l_eng L) \<longrightarrow>
        note_frame \<rho> (l_frame L) (note_journal \<rho> (e_journal (l_eng L)) H) = want \<rho> (l_eng L)) \<and>
     (l_meaningful L \<or> (\<forall>r\<in>set (j_events (l_frame L)). r_output r = None \<longrightarrow> \<not> is_payload (r_event r)))"

lemma note_frame_cong:
  "j_events f' = j_events f \<Longrightarrow> j_device f' = j_device f \<Longrightarrow> note_frame \<rho> f' H = note_frame \<rho> f H"
  by (simp add: note_frame_def)

lemma vis_loop_same:
  assumes "vis_loop d L H" "held_same (l_eng L) (l_eng L')" "persists (l_eng L) (l_eng L')"
    "j_events (l_frame L') = j_events (l_frame L)" "j_device (l_frame L') = j_device (l_frame L)"
    "l_meaningful L' = l_meaningful L"
  shows "vis_loop d L' H"
proof -
  have j: "e_journal (l_eng L') = e_journal (l_eng L)" using assms(2) by (simp add: held_same_def)
  show ?thesis
    using assms held_same_ok[OF assms(2)] held_same_want[OF assms(2)] completes_persists[OF _ assms(3)]
      note_frame_cong[OF assms(4,5)]
    by (simp add: vis_loop_def j)
qed

lemma vis_loop_fail:
  assumes "vis_loop d L H" "loop_ok cfg L"
  shows "vis_loop d (L\<lparr>l_eng := failed (l_eng L), l_failed := True\<rparr>) H"
  by (rule vis_loop_same[OF assms(1)]) (use assms(2) in \<open>auto simp: loop_ok_def intro: persists_failed\<close>)

lemma vis_loop_record:
  assumes "vis_loop d L H" "loop_inv cfg L" "is_abs d" "ingest d ev (l_eng L) = (p, tr, s1)"
  shows "vis_loop d (record_event ev p tr (hidden_chatter ev p (tr \<noteq> None) s1) (L\<lparr>l_eng := s1\<rparr>)) H"
proof -
  let ?ch = "hidden_chatter ev p (tr \<noteq> None) s1"
  let ?L = "record_event ev p tr ?ch (L\<lparr>l_eng := s1\<rparr>)"
  have ph: "phys_ok (l_eng L)" "held_ok (l_eng L)" using assms(1,2) by (simp_all add: loop_inv_def vis_loop_def)
  note fr = ingest_frame[OF assms(4)]
  have evs: "j_events (l_frame ?L) = j_events (l_frame L) @ (if ?ch then [] else [recorded_input ev p])"
    "j_device (l_frame ?L) = d" "l_meaningful ?L = (l_meaningful L \<or> is_payload ev \<and> \<not> ?ch)"
    using assms(1) by (simp_all add: record_event_def Let_def add_events_def vis_loop_def)
  have "note_frame \<rho> (l_frame ?L) (note_journal \<rho> (e_journal s1) H) = want \<rho> s1" if "completes \<rho> s1" for \<rho>
  proof -
    have "completes \<rho> (l_eng L)" using completes_persists[OF that persists_ingest[OF assms(4)]] .
    then have *: "note_frame \<rho> (l_frame L) (note_journal \<rho> (e_journal (l_eng L)) H) = want \<rho> (l_eng L)"
      using assms(1) by (simp add: vis_loop_def)
    note ing = ingest_want[OF ph assms(3,4) that]
    show ?thesis
    proof (cases ?ch)
      case True
      then have "want \<rho> s1 = want \<rho> (l_eng L)" by (intro ing(2)) (auto simp: hidden_chatter_def)
      then show ?thesis using * True evs assms(1) fr by (simp add: note_frame_def vis_loop_def)
    next
      case False
      then show ?thesis using * ing(1) evs assms(1) fr by (simp add: note_frame_def vis_loop_def)
    qed
  qed
  moreover have "repeats_ok (j_events (l_frame ?L))"
    using assms(1) evs(1) by (auto simp: vis_loop_def repeats_ok_def recorded_input_def)
  moreover have "l_meaningful ?L \<or>
      (\<forall>r\<in>set (j_events (l_frame ?L)). r_output r = None \<longrightarrow> \<not> is_payload (r_event r))"
    using assms(1) evs(1,3) by (cases ?ch) (auto simp: vis_loop_def)
  ultimately show ?thesis
    using ingest_held[OF ph(2,1) assms(3,4)] evs(2) by (simp add: vis_loop_def)
qed

lemma vis_loop_outputs:
  assumes "vis_loop d L H" "loop_ok cfg L" "held_outputs tr L = Some L'"
  shows "vis_loop d L' H"
proof (cases tr)
  case None
  then show ?thesis using assms(1,3) by (simp add: held_outputs_def)
next
  case (Some t)
  obtain outs s where act: "activation_events t (l_eng L) = (outs, s)" by (metis surj_pair)
  note fr = activation_events_frame[OF act]
  have held: "held_ok (l_eng L)" using assms(1) by (simp add: vis_loop_def)
  note aw = activation_events_want[OF held act]
  have ok: "loop_ok cfg (L\<lparr>l_eng := s\<rparr>)"
    using assms(2) safe_activation_events[OF _ act] by (auto simp: loop_ok_def fr)
  have out: "r_output r \<noteq> None" if "r \<in> set outs" for r
  proof -
    have "\<forall>r\<in>set (fst (activation_events_of t as x)). r_output r \<noteq> None" for as x
      by (induction as arbitrary: x)
        (auto simp: case_prod_beta activation_event_def Let_def split: if_splits)
    then show ?thesis using that act by (auto simp: activation_events_def case_prod_beta)
  qed
  have sent: "note_frame \<rho> (l_frame (add_events outs L)) (note_journal \<rho> (e_journal s) H) = want \<rho> s"
    if "completes \<rho> s" for \<rho>
  proof -
    have "completes \<rho> (l_eng L)" using that by (simp add: completes_def known_def fr)
    then have "note_frame \<rho> (l_frame L) (note_journal \<rho> (e_journal (l_eng L)) H) = want \<rho> (l_eng L)"
      "j_device (l_frame L) = d" using assms(1) by (simp_all add: vis_loop_def)
    then show ?thesis using aw(1)[of \<rho> d] by (simp add: note_frame_def add_events_def fr)
  qed
  have "repeats_ok (j_events (l_frame (add_events outs L)))" "j_device (l_frame (add_events outs L)) = d"
    using assms(1) aw(3) by (auto simp: vis_loop_def repeats_ok_def add_events_def)
  moreover have "l_meaningful L \<or> (\<forall>r\<in>set (j_events (l_frame (add_events outs L))).
      r_output r = None \<longrightarrow> \<not> is_payload (r_event r))"
    using assms(1) out by (fastforce simp: vis_loop_def add_events_def)
  ultimately have L1: "vis_loop d (add_events outs (L\<lparr>l_eng := s\<rparr>)) H"
    using sent aw(2) by (simp add: vis_loop_def add_events_def)
  have ok1: "loop_ok cfg (add_events outs (L\<lparr>l_eng := s\<rparr>))" using ok by (simp add: loop_ok_def)
  have "L' = add_events outs (L\<lparr>l_eng := s\<rparr>) \<or> L' = (add_events outs (L\<lparr>l_eng := s\<rparr>))
      \<lparr>l_eng := failed s, l_failed := True\<rparr>"
    using Some act assms(3) fail_loop_ok[OF ok] by (auto simp: held_outputs_def add_events_def split: if_splits)
  then show ?thesis using L1 vis_loop_fail[OF L1 ok1] by auto
qed

lemma vis_loop_event:
  assumes "vis_loop d L H" "loop_inv cfg L" "is_abs d" "frame_event cfg d now ev L = Some L'"
  shows "vis_loop d L' H"
proof -
  obtain p tr s1 where ing: "ingest d ev (l_eng L) = (p, tr, s1)" by (metis surj_pair)
  let ?ch = "hidden_chatter ev p (tr \<noteq> None) s1"
  let ?L2 = "record_event ev p tr ?ch (L\<lparr>l_eng := s1\<rparr>)"
  have "loop_ok cfg L" using assms(2) by (simp add: loop_inv_def)
  then obtain L3 where L3: "held_outputs tr ?L2 = Some L3" "loop_ok cfg L3" "new_to L3 tr"
    by (rule frame_event_stages[OF _ ing])
  have "loop_ok cfg ?L2" using record_event_inv[OF assms(2) ing] by (simp add: loop_inv_def)
  with vis_loop_record[OF assms(1-3) ing] L3(1) have vis3: "vis_loop d L3 H" by (blast intro: vis_loop_outputs)
  have "vis_loop d L' H" if m: "tr = Some t" "frame_match cfg t now L3 = Some L'" for t
  proof -
    note hs = held_same_match[OF m(2)]
    show ?thesis
      using frame_match_safe[OF L3(2), of t now] L3(3) m
      by (intro vis_loop_same[OF vis3 hs(1) _ _ _ hs(2)]) (auto simp: new_to_def intro: persists_follows)
  qed
  then show ?thesis
    using assms(4) L3(1) vis3 fail_loop_ok[OF L3(2)] vis_loop_fail[OF vis3 L3(2)]
    by (auto simp: frame_event_def ing split: if_splits option.splits)
qed

lemma vis_loop_events:
  "vis_loop d L H \<Longrightarrow> loop_inv cfg L \<Longrightarrow> is_abs d \<Longrightarrow> frame_events cfg d now evs L = Some L' \<Longrightarrow> vis_loop d L' H"
  by (induction evs arbitrary: L)
    (auto split: Option.bind_splits dest: frame_event_inv intro: vis_loop_event)

section \<open>Completion\<close>

lemma shown_same: "shown s H \<Longrightarrow> held_same s s' \<Longrightarrow> persists s s' \<Longrightarrow> shown s' H"
  using held_same_ok held_same_want completes_persists unfolding shown_def held_same_def by metis

lemma note_generated:
  "note_journal \<rho> (e_journal (queue_output out s)) H = consume out (note_journal \<rho> (e_journal s) H)"
  by (simp add: queue_output_def note_frame_def note_rec_simps)

lemma held_ok_queue: "held_ok (queue_output out s) = held_ok s"
  by (auto simp: held_ok_def queue_output_def phys_def phys_dev_def repeats_ok_def)

lemma want_queue: "want \<rho> (queue_output out s) = want \<rho> s"
  by (rule want_cong) simp_all

lemma want_virtual:
  assumes "held_ok s" "\<not> is_abs d"
  shows "want \<rho> s d = held_targets s d"
proof -
  have "phys s d c = None" for c using assms by (cases "phys s d c") (auto simp: held_ok_def)
  then show ?thesis by (simp add: want_def)
qed

lemma shown_tap:
  assumes "shown s H"
  shows "shown (queue_output (key_output ''eakd-remap'' t 0) (queue_output (key_output ''eakd-remap'' t 1) s)) H"
proof -
  have held: "held_ok s" using assms by (simp add: shown_def)
  have "held_targets s ''eakd-remap'' = {}" using held by (auto simp: held_targets_def held_ok_def dest: sym)
  then have "want \<rho> s ''eakd-remap'' = {}" for \<rho> using want_virtual[OF held] by simp
  then have "consume (key_output ''eakd-remap'' t 0) (consume (key_output ''eakd-remap'' t 1) (want \<rho> s)) = want \<rho> s" for \<rho>
    by (auto simp: key_output_def apply_key_def fun_eq_iff)
  then show ?thesis
    using assms unfolding shown_def
    by (simp add: held_ok_queue want_queue note_generated completes_def known_def)
qed

lemma shown_activate:
  assumes "shown s H"
  shows "shown (activate c t s) H"
proof -
  let ?a = "Suc (e_next_activation s)"
  let ?dev = "activation_device ?a"
  let ?x = "\<lparr>a_device = ?dev, a_target = t, a_members = c_match_members (e_cands s c),
    a_driver = c_driver (e_cands s c), a_live = True\<rparr>"
  let ?s1 = "s\<lparr>e_next_activation := ?a, e_acts := (e_acts s)(?a := ?x)\<rparr>"
  let ?s2 = "queue_output (key_output ?dev t 1) ?s1"
  have held: "held_ok s" using assms by (simp add: shown_def)
  have old: "a \<noteq> ?a \<and> a_device (e_acts s a) = activation_device a" if "a \<in> set (e_active s)" for a
    using held that by (auto simp: held_ok_def)
  have none: "want \<rho> s ?dev = {}" for \<rho>
    using want_virtual[OF held] old by (auto simp: held_targets_def)
  have t1: "held_targets ?s1 = held_targets s" using old by (auto simp: held_targets_def fun_eq_iff)
  have w1: "want \<rho> ?s1 = want \<rho> s" for \<rho> by (simp add: want_def fun_eq_iff phys_def phys_dev_def t1)
  have h1: "held_ok ?s1" using held by (auto simp: held_ok_def phys_def phys_dev_def)
  have act: "activate c t s = (if c_broken (e_cands s c) then stop_activation ?a ?s2
      else ?s2\<lparr>e_active := e_active ?s2 @ [?a]\<rparr>)"
    by (simp add: activate_def Let_def)
  have sent: "note_journal \<rho> (e_journal s) H = want \<rho> s" if "completes \<rho> s" for \<rho>
    using assms that by (simp add: shown_def)
  show ?thesis
  proof (cases "c_broken (e_cands s c)")
    case True
    let ?s3 = "upd_act ?a (\<lambda>x. x\<lparr>a_live := False\<rparr>) ?s2"
    have s3: "activate c t s = queue_output (ReconcileDevice ?dev []) (queue_output (key_output ?dev t 0) ?s3)"
      using True by (simp add: act stop_activation_def Let_def)
    have "held_targets ?s3 = held_targets s" using old by (auto simp: held_targets_def fun_eq_iff)
    then have "want \<rho> ?s3 = want \<rho> s" for \<rho> by (simp add: want_def fun_eq_iff phys_def phys_dev_def)
    moreover have "held_ok ?s3" using h1 held_ok_queue[of _ ?s1] by (auto simp: held_ok_def phys_def phys_dev_def)
    moreover have "e_journal ?s3 = e_journal ?s2" by simp
    moreover have "completes \<rho> (activate c t s) = completes \<rho> s" for \<rho>
      by (simp add: s3 completes_def known_def)
    moreover have "consume (ReconcileDevice ?dev []) (consume (key_output ?dev t 0) (consume (key_output ?dev t 1)
        (want \<rho> s))) = want \<rho> s" for \<rho>
      using none by (simp add: key_output_def no_keys fun_upd_idem)
    ultimately show ?thesis
      unfolding shown_def by (simp add: s3 held_ok_queue want_queue note_generated sent)
  next
    case False
    let ?s3 = "?s2\<lparr>e_active := e_active ?s2 @ [?a]\<rparr>"
    have "held_targets ?s3 d = (if d = ?dev then {t} else held_targets s d)" for d
      using old by (auto simp: held_targets_def)
    moreover have "phys ?s3 d k = phys s d k" for d k by (rule phys_same) simp
    moreover have "\<not> (\<exists>p. phys s ?dev k = Some p \<and> \<rho> p = Forwarded)" for k \<rho>
      using none[of \<rho>] by (auto simp: want_def)
    ultimately have "want \<rho> ?s3 d = ((want \<rho> s)(?dev := {t})) d" for \<rho> d by (auto simp: want_def)
    then have "want \<rho> ?s3 = (want \<rho> s)(?dev := {t})" for \<rho> by blast
    moreover have "held_ok ?s3" using h1 held_ok_queue[of _ ?s1] by (auto simp: held_ok_def phys_def phys_dev_def)
    moreover have "consume (key_output ?dev t 1) (want \<rho> s) = (want \<rho> s)(?dev := {t})" for \<rho>
      using none by (simp add: key_output_def apply_key_def)
    moreover have "completes \<rho> ?s3 = completes \<rho> s" for \<rho> by (simp add: completes_def known_def)
    ultimately show ?thesis
      using False unfolding act shown_def by (simp add: sent note_generated)
  qed
qed

lemma complete_shown:
  assumes "shown s H" "safe cfg s" "complete cfg now s = Some s'"
  shows "shown s' H"
proof (cases "e_seq s")
  case None
  then show ?thesis using assms by (simp add: complete_def)
next
  case (Some c)
  have res: "shown s1 H" if "resolve Consumed s = Some s1" for s1
  proof -
    have "follows s (resolved Consumed s)" "resolve Consumed s = Some (resolved Consumed s)"
      using assms(2) by (auto simp: resolve_ok safe_def appends_same intro!: follows_resolved_then[where r = Consumed])
    then show ?thesis
      using that held_same_resolve[OF that] by (intro shown_same[OF assms(1)]) (auto intro: persists_follows)
  qed
  have emit: "shown (queue_output (EmitAction act) s1) H" if "shown s1 H" for act s1
    using that unfolding shown_def by (simp add: held_ok_queue want_queue note_generated completes_def known_def)
  have same: "shown s2 H" if "shown s1 H" "held_same s1 s2" "e_presses s2 = e_presses s1" "e_next_id s2 = e_next_id s1" for s1 s2
    using that by (intro shown_same[OF that(1,2)]) (simp add: persists_same)
  have idle: "shown (idle s1) H" if "shown s1 H" for s1
    using that by (rule same) (simp_all add: held_same_def)
  have reuse: "shown (s1\<lparr>e_reuse := r\<rparr>) H" if "shown s1 H" for s1 r
    using that by (rule same) (simp_all add: held_same_def)
  have await: "shown (s1\<lparr>e_mode := m, e_active_prefix := i, e_seq := q, e_carry := cs, e_deadline := t\<rparr>) H"
    if "shown s1 H" for s1 m q i cs t
    using that by (rule same) (simp_all add: held_same_def)
  show ?thesis
    using assms(1,3) Some unfolding complete_def
    by (auto simp: Let_def split: option.splits if_splits Option.bind_splits dest!: res
        intro!: emit shown_activate shown_tap idle reuse await)
qed

section \<open>Frames and timeouts\<close>

lemma held_same_forward: "held_same s (forward_fresh ps s)"
  by (induction ps s rule: forward_fresh.induct) (simp_all add: held_same_def)

lemma note_quiet:
  assumes "\<forall>r\<in>set (j_events f). r_output r = None \<and> \<not> is_payload (r_event r)"
  shows "note_frame \<rho> f H = H"
proof -
  have "note_rec \<rho> d r H = H" if "r \<in> set (j_events f)" for d r H
    using assms that by (auto simp: note_rec_def is_payload_def apply_key_def)
  then have "fold (note_rec \<rho> d) rs H = H" if "set rs \<subseteq> set (j_events f)" for d rs
    using that by (induction rs) auto
  then show ?thesis by (simp add: note_frame_def)
qed

lemma complete_stays:
  assumes "complete cfg now s = Some s'" "e_mode s' = ModeReserved"
  shows "s' = s"
  using assms
  by (auto simp: complete_def Let_def queue_output_def idle_def activate_def stop_activation_def upd_act_def
      split: option.splits if_splits Option.bind_splits)

lemma finish_frame_shown:
  assumes "vis_loop d L H" "loop_ok cfg L" "finish_frame cfg now L = Some s'"
  shows "shown s' H"
proof -
  let ?reserved = "e_mode (l_eng L) = ModeReserved \<and>
    list_ex (escapes_reservation (l_eng L)) (j_events (l_frame L))"
  obtain L1 where L1: "(if ?reserved then fail_loop L else Some L) = Some L1" "loop_ok cfg L1" "vis_loop d L1 H"
    "e_mode (l_eng L1) = ModeReserved \<longrightarrow> \<not> list_ex (escapes_reservation (l_eng L1)) (j_events (l_frame L1))"
    using fail_loop_ok[OF assms(2)] loop_ok_failed[OF assms(2)] vis_loop_fail[OF assms(1,2)] assms(1,2)
    by (cases ?reserved) auto
  define s1 where "s1 = (l_eng L1)\<lparr>e_journal := e_journal (l_eng L1) @ [l_frame L1]\<rparr>"
  have shown1: "shown s1 H"
    using L1(3) unfolding shown_def vis_loop_def s1_def
    by (auto simp: held_ok_def completes_def known_def phys_def phys_dev_def want_def held_targets_def fun_eq_iff)
  have safe1: "safe cfg s1" using L1(2) by (simp add: s1_def loop_ok_def)
  obtain s2 where s2: "(if l_failed L1 then Some s1 else complete cfg now s1) = Some s2"
    using complete_safe[OF safe1, of now] by (cases "l_failed L1") auto
  have shown2: "shown s2 H"
    using s2 shown1 complete_shown[OF shown1 safe1, of now s2] by (cases "l_failed L1") auto
  have stay2: "s2 = s1" if "e_mode s2 = ModeReserved"
    using s2 complete_stays[of cfg now s1 s2] that by (cases "l_failed L1") auto
  define s3 where "s3 = forward_fresh (l_fresh L1) s2"
  have shown3: "shown s3 H"
    unfolding s3_def by (rule shown_same[OF shown2 held_same_forward persists_follows[OF follows_forward_fresh]])
  have s': "s' = (if e_mode s3 = ModeReserved \<and> \<not> l_meaningful L1
      then s3\<lparr>e_journal := butlast (e_journal s3)\<rparr> else s3)"
    using assms(3) unfolding finish_frame_def Let_def L1(1) Option.bind.bind_lunit s1_def[symmetric] s2
      s3_def[symmetric] by simp
  show ?thesis
  proof (cases "e_mode s3 = ModeReserved \<and> \<not> l_meaningful L1")
    case False
    then show ?thesis using s'[unfolded if_not_P[OF False]] shown3 by simp
  next
    case True
    then have mode2: "e_mode s2 = ModeReserved" by (simp add: s3_def)
    then have j: "e_journal s3 = e_journal (l_eng L1) @ [l_frame L1]"
      using stay2 by (simp add: s3_def) (simp add: s1_def)
    have "e_mode (l_eng L1) = ModeReserved" using mode2 stay2 by (simp add: s1_def)
    with L1(4) have "\<forall>r\<in>set (j_events (l_frame L1)). r_output r = None"
      by (auto simp: list_ex_iff escapes_reservation_def)
    then have "\<forall>r\<in>set (j_events (l_frame L1)). r_output r = None \<and> \<not> is_payload (r_event r)"
      using L1(3) True by (auto simp: vis_loop_def)
    from note_quiet[OF this] have "note_journal \<rho> (e_journal s3) H = note_journal \<rho> (butlast (e_journal s3)) H" for \<rho>
      by (simp add: j)
    then show ?thesis
      using shown3 True s' unfolding shown_def
      by (auto simp: held_ok_def completes_def known_def phys_def phys_dev_def want_def held_targets_def fun_eq_iff
          dest: in_set_butlastD)
  qed
qed

lemma failed_shown: "shown s H \<Longrightarrow> safe cfg s \<Longrightarrow> shown (failed s) H"
  by (rule shown_same) (auto intro: persists_failed)

lemma handle_timeout_shown:
  assumes "engine_inv cfg s" "shown s H" "handle_timeout now s = Some (outs, s')"
  shows "shown s' (fold consume outs H)"
proof -
  let ?s = "if expired now s then failed s else s"
  have saf: "safe cfg s" using assms(1) by (simp add: engine_inv_def)
  have "drain ?s = (outs, s')"
    using assms(3) fail_failed[OF saf] by (cases "expired now s") (simp_all add: handle_timeout_def)
  then show ?thesis
    using drain_shown[of cfg ?s H outs s'] assms(1,2) failed_shown[OF assms(2) saf] inv_failed by auto
qed

lemma handle_frame_shown:
  assumes "engine_inv cfg s" "shown s H" "is_abs (fr_device fr)" "handle_frame cfg fr now s = Some (outs, s')"
  shows "shown s' (fold consume outs H)"
proof -
  from assms(4) obtain outs1 s1 L s2 outs2 where 1: "handle_timeout now s = Some (outs1, s1)"
    "frame_events cfg (fr_device fr) now (fr_events fr) (new_loop (fr_device fr) s1) = Some L"
    "finish_frame cfg now L = Some s2" "drain s2 = (outs2, s')" "outs = outs1 @ outs2"
    by (auto simp: handle_frame_def split: Option.bind_splits prod.splits)
  let ?H = "fold consume outs1 H"
  have sh1: "shown s1 ?H" by (rule handle_timeout_shown[OF assms(1,2) 1(1)])
  have inv1: "engine_inv cfg s1" using handle_timeout_inv[OF assms(1) 1(1)] by simp
  let ?L0 = "new_loop (fr_device fr) s1"
  have "vis_loop (fr_device fr) ?L0 ?H"
    using sh1 by (simp add: vis_loop_def new_loop_def shown_def repeats_ok_def note_frame_def)
  from vis_loop_events[OF this loop_inv_new[OF inv1] assms(3) 1(2)]
  have vis: "vis_loop (fr_device fr) L ?H" .
  have linv: "loop_inv cfg L" using frame_events_inv[OF loop_inv_new[OF inv1] 1(2)] .
  have "shown s2 ?H" using finish_frame_shown[OF vis _ 1(3)] linv by (simp add: loop_inv_def)
  moreover have "engine_inv cfg s2" using finish_frame_inv[OF linv 1(3)] by simp
  ultimately show ?thesis using drain_shown[OF _ _ 1(4)] by (simp add: 1(5))
qed

end
