(* ===== verification/Engine_Holding.thy ===== *)
theory Engine_Holding
  imports Engine_Visible
begin

text \<open>
  The invariant \<open>shown\<close> of \<open>Engine_Visible\<close> across resynchronisation and shutdown, and along every run
  of the engine.
\<close>

section \<open>Recovery\<close>

text \<open>The effect on one device depends on that device alone.\<close>

lemma consume_local: "H d = H' d \<Longrightarrow> consume out H d = consume out H' d"
  by (cases out) auto

lemma note_rec_local:
  assumes "H d = H' d"
  shows "note_rec \<rho> e r H d = note_rec \<rho> e r H' d"
  using consume_local[of H d H', OF assms] assms by (auto simp: note_rec_def split: option.split)

lemma note_recs_local:
  assumes "H d = H' d"
  shows "fold (note_rec \<rho> e) rs H d = fold (note_rec \<rho> e) rs H' d"
  using assms
proof (induction rs arbitrary: H H')
  case (Cons r rs)
  from Cons.IH[of "note_rec \<rho> e r H" "note_rec \<rho> e r H'"] note_rec_local[of H d H', OF Cons.prems]
  show ?case by simp
qed simp

lemma note_rec_other: "r_output r = None \<Longrightarrow> d \<noteq> e \<Longrightarrow> note_rec \<rho> e r H d = H d"
  by (simp add: note_rec_def)

lemma note_filter_other:
  assumes "\<And>r. r \<in> set rs \<Longrightarrow> \<not> keep r \<Longrightarrow> r_output r = None" "d \<noteq> e" "H d = H' d"
  shows "fold (note_rec \<rho> e) (filter keep rs) H d = fold (note_rec \<rho> e) rs H' d"
  using assms
proof (induction rs arbitrary: H H')
  case (Cons r rs)
  have skip: "H d = note_rec \<rho> e r H' d" if "\<not> keep r"
    using Cons.prems that note_rec_other[of r d e \<rho> H'] by auto
  have step: "note_rec \<rho> e r H d = note_rec \<rho> e r H' d" by (rule note_rec_local[of H d H', OF Cons.prems(3)])
  show ?case
    using Cons.IH[OF _ Cons.prems(2), of "if keep r then note_rec \<rho> e r H else H" "note_rec \<rho> e r H'"]
      Cons.prems(1) skip step by (cases "keep r") simp_all
qed simp

lemma note_dropped_inputs:
  "d' \<noteq> d \<Longrightarrow> H d' = H' d' \<Longrightarrow>
   note_journal \<rho> (map (\<lambda>f. if j_device f = d then drop_inputs f else f) fs) H d' = note_journal \<rho> fs H' d'"
proof (induction fs arbitrary: H H')
  case (Cons f fs)
  let ?f = "if j_device f = d then drop_inputs f else f"
  have frame: "note_frame \<rho> ?f H d' = note_frame \<rho> f H' d'"
  proof (cases "j_device f = d")
    case True
    then show ?thesis
      using note_filter_other[of "j_events f" "\<lambda>r. r_output r \<noteq> None" d' d H H' \<rho>] Cons.prems
      by (simp add: note_frame_def drop_inputs_def)
  next
    case False
    then show ?thesis using note_recs_local[of H d' H', OF Cons.prems(2)] by (simp add: note_frame_def)
  qed
  show ?case
    using Cons.IH[of "note_frame \<rho> ?f H" "note_frame \<rho> f H'", OF Cons.prems(1) frame] by simp
qed simp

lemma note_stops:
  "note_journal \<rho> (e_journal (fold stop_activation as s)) H =
   (\<lambda>d. if d \<in> (\<lambda>a. a_device (e_acts s a)) ` set as then {} else note_journal \<rho> (e_journal s) H d)"
proof (induction as arbitrary: s)
  case (Cons a as)
  have dev: "a_device (e_acts (stop_activation a s) b) = a_device (e_acts s b)" for b
    by (simp add: stop_activation_def Let_def)
  have one: "note_journal \<rho> (e_journal (stop_activation a s)) H = (note_journal \<rho> (e_journal s) H)(a_device (e_acts s a) := {})"
    by (simp add: stop_activation_def Let_def note_generated key_output_def no_keys)
  show ?case by (simp add: Cons.IH one dev fun_eq_iff)
qed simp

lemma stops_journal:
  "\<exists>fs. e_journal (fold stop_activation as s) = e_journal s @ fs \<and> (\<forall>f\<in>set fs. repeats_ok (j_events f))"
proof (induction as arbitrary: s)
  case (Cons a as)
  obtain fs where "e_journal (fold stop_activation as (stop_activation a s)) = e_journal (stop_activation a s) @ fs"
    "\<forall>f\<in>set fs. repeats_ok (j_events f)" using Cons by blast
  moreover have "\<exists>gs. e_journal (stop_activation a s) = e_journal s @ gs \<and> (\<forall>f\<in>set gs. repeats_ok (j_events f))"
    by (auto simp: stop_activation_def Let_def queue_output_def repeats_ok_def)
  ultimately show ?case by (auto simp: ball_Un)
qed simp

lemma ended_targets:
  fixes as :: "aid list"
  assumes "held_ok s"
  defines "s' \<equiv> end_activations as s"
  shows "held_targets s' d = (if d \<in> activation_device ` set as then {} else held_targets s d)"
    "set (e_active s') \<subseteq> set (e_active s)" "a_device (e_acts s' a) = a_device (e_acts s a)"
    "e_next_activation s' = e_next_activation s" "e_journal s' = e_journal s"
proof -
  let ?s1 = "fold (\<lambda>a. upd_act a (\<lambda>x. x\<lparr>a_live := False\<rparr>)) as s"
  have acts: "e_acts ?s1 b = (if b \<in> set as then (e_acts s b)\<lparr>a_live := False\<rparr> else e_acts s b)" for b
    by (induction as arbitrary: s) auto
  have "e_active ?s1 = e_active s" "e_next_activation ?s1 = e_next_activation s" "e_journal ?s1 = e_journal s"
    using fold_upd_act_frame[of "\<lambda>x. x\<lparr>a_live := False\<rparr>" as s] by auto
  then have s': "e_active s' = filter (\<lambda>a. a_live (e_acts ?s1 a)) (e_active s)" "e_acts s' = e_acts ?s1"
    "e_next_activation s' = e_next_activation s" "e_journal s' = e_journal s"
    by (simp_all add: s'_def end_activations_def Let_def)
  show "set (e_active s') \<subseteq> set (e_active s)" "e_next_activation s' = e_next_activation s"
    "e_journal s' = e_journal s" using s' by auto
  show "a_device (e_acts s' a) = a_device (e_acts s a)" by (simp add: s' acts)
  show "held_targets s' d = (if d \<in> activation_device ` set as then {} else held_targets s d)"
  proof (cases "d \<in> activation_device ` set as")
    case True
    then show ?thesis using assms(1) unfolding held_targets_def s'(1,2)
      by (auto simp: acts held_ok_def split: if_splits)
  next
    case False
    then have "a \<notin> set as" if "a \<in> set (e_active s)" "a_device (e_acts s a) = d" for a
      using assms(1) that by (auto simp: held_ok_def)
    then show ?thesis using False unfolding held_targets_def s'(1,2) by (auto simp: acts)
  qed
qed

text \<open>Releases and adopted presses leave the held outputs alone.\<close>

definition acts_same :: "engine \<Rightarrow> engine \<Rightarrow> bool" where
  "acts_same s s' \<longleftrightarrow> e_active s' = e_active s \<and> e_acts s' = e_acts s \<and> e_next_activation s' = e_next_activation s"

lemma acts_same_fold: "(\<And>x s. acts_same s (f x s)) \<Longrightarrow> acts_same s (fold f xs s)"
  by (induction xs arbitrary: s) (auto simp: acts_same_def)

lemma acts_same_release: "acts_same s (release_missing d pressed s)"
  unfolding release_missing_def by (rule acts_same_fold) (simp add: acts_same_def split: prod.split)

lemma acts_same_adopt: "acts_same s (snd (adopt_codes d cs vis s))"
proof (induction cs arbitrary: vis s)
  case (Cons c cs)
  have "acts_same s (snd (adopt_code d c s))"
  proof -
    obtain p tr s1 where "ingest d (key_event c 1) s = (p, tr, s1)" by (metis surj_pair)
    with ingest_frame[OF this] show ?thesis
      by (simp add: adopt_code_def acts_same_def Let_def split: option.split)
  qed
  then show ?case using Cons by (auto simp: acts_same_def Let_def split_beta)
qed (simp add: acts_same_def)

lemma acts_same_targets: "acts_same s s' \<Longrightarrow> held_targets s' = held_targets s"
  by (intro targets_cong) (auto simp: acts_same_def)

lemma stops_targets:
  "held_ok s \<Longrightarrow> e_active (fold stop_activation as s) = e_active s \<and>
   e_next_activation (fold stop_activation as s) = e_next_activation s \<and>
   (\<forall>a. a_device (e_acts (fold stop_activation as s) a) = a_device (e_acts s a)) \<and>
   held_targets (fold stop_activation as s) d = (if d \<in> activation_device ` set as then {} else held_targets s d)"
proof (induction as arbitrary: s)
  case (Cons a as)
  have acts: "e_acts (stop_activation a s) = (e_acts s)(a := (e_acts s a)\<lparr>a_live := False\<rparr>)"
    by (simp add: stop_activation_def Let_def)
  have "held_ok (stop_activation a s)"
    using Cons.prems by (auto simp: stop_activation_def Let_def held_ok_queue) (auto simp: held_ok_def phys_def phys_dev_def)
  moreover have "held_targets (stop_activation a s) d = (if d = activation_device a then {} else held_targets s d)"
    using Cons.prems by (auto simp: held_targets_def acts held_ok_def split: if_splits)
  ultimately show ?case using Cons.IH by (auto simp: acts)
qed simp

lemma drain_all_shown:
  assumes "engine_inv cfg s" "e_seq s = None" "completes \<rho> s" "\<forall>f\<in>set (e_journal s). repeats_ok (j_events f)"
  shows "fold consume (fst (drain s)) H = note_journal \<rho> (e_journal s) H" "e_journal (snd (drain s)) = []"
proof -
  have all: "\<forall>f\<in>set (e_journal s). \<not> frame_pending s f" using nothing_pending[OF assms(1,2)] by blast
  have "\<forall>f\<in>set (e_journal s). events_ok s (j_events f) \<and> repeats_ok (j_events f)"
    using assms(1,4) by (simp add: engine_inv_def journal_ok_def)
  from drain_consumed[OF assms(3) this, of H] drain_frames_all[OF all]
  show "fold consume (fst (drain s)) H = note_journal \<rho> (e_journal s) H" by (simp add: drain_def)
  show "e_journal (snd (drain s)) = []" using drain_all[OF assms(1,2)] by simp
qed

lemma reconcile_shown:
  assumes "engine_inv cfg s" "shown s H" "is_abs d" "reconcile d pressed s = Some (outs, s')"
  shows "shown s' (fold consume outs H)"
proof -
  have saf: "safe cfg s" using assms(1) by (simp add: engine_inv_def)
  define sf where "sf = failed s"
  define ended where "ended = ended_by d sf"
  define se where "se = end_activations ended sf"
  define s1 where "s1 = drop_device_inputs d se"
  define s3 where "s3 = fold stop_activation ended (s1\<lparr>e_journal := []\<rparr>)"
  define s4 where "s4 = release_missing d pressed s3"
  let ?codes = "sort (filter (gm_true pressed) (gm_keys pressed))"
  define vis where "vis = fst (adopt_codes d ?codes [] s4)"
  define s5 where "s5 = snd (adopt_codes d ?codes [] s4)"
  have invf: "engine_inv cfg sf" "e_seq sf = None" using assms(1) by (simp_all add: sf_def inv_failed)
  have shf: "shown sf H" unfolding sf_def by (rule failed_shown[OF assms(2) saf])
  have inv1: "engine_inv cfg s1" "e_seq s1 = None"
    using invf by (simp_all add: s1_def se_def inv_end_activations inv_drop_device_inputs)
  obtain outs1 where 1: "drain s1 = (outs1, s1\<lparr>e_journal := []\<rparr>)" using drain_all[OF inv1] by simp
  have inv2: "engine_inv cfg (s1\<lparr>e_journal := []\<rparr>)" using inv_drain[OF inv1(1)] 1 by simp
  have inv3: "engine_inv cfg s3" "e_seq s3 = None"
    using inv2 inv1(2) by (simp_all add: s3_def fold_stop_frame fold_invariant[of "engine_inv cfg"] inv_stop_activation)
  note rel = phys_release_missing[OF inv3(1), where d = d and pressed = pressed, folded s4_def]
  have "engine_inv cfg s5 \<and> e_seq s5 = None \<and> e_journal s5 = e_journal s4"
    using adopt_codes_inv[OF rel(1), of d ?codes "[]" vis s5] rel(2) inv3(2) by (simp add: vis_def s5_def)
  then have inv5: "engine_inv cfg s5" "e_seq s5 = None" "e_journal s5 = e_journal s3" using rel(4) by simp_all
  define s6 where "s6 = queue_output (ReconcileDevice d vis) s5"
  have inv6: "engine_inv cfg s6" "e_seq s6 = None" using inv5 by (simp_all add: s6_def inv_queue_output)
  obtain outs2 where 6: "drain s6 = (outs2, s6\<lparr>e_journal := []\<rparr>)" using drain_all[OF inv6] by simp
  have res: "outs = outs1 @ outs2" "s' = s6\<lparr>e_journal := []\<rparr>"
    using assms(4) 1 6 fail_failed[OF saf]
    by (simp_all add: reconcile_def Let_def case_prod_beta sf_def[symmetric] ended_def[symmetric] se_def[symmetric]
        s1_def[symmetric] s3_def[symmetric] s4_def[symmetric] vis_def[symmetric] s5_def[symmetric] s6_def[symmetric])
  have p5: "persists s1 s5"
    unfolding s5_def s4_def s3_def
    by (rule persists_trans[OF persists_trans[OF persists_trans[OF persists_same persists_stop]
          persists_release_missing] persists_adopt_codes]) simp_all
  have comp: "completes \<rho> s6" "completes \<rho> s1" "completes \<rho> sf" "completes \<rho> s" if "completes \<rho> s'" for \<rho>
  proof -
    show 6: "completes \<rho> s6" using that by (simp add: res(2) completes_def known_def)
    then have "completes \<rho> s5" by (simp add: s6_def completes_def known_def)
    then show 1: "completes \<rho> s1" by (rule completes_persists[OF _ p5])
    then have "completes \<rho> se" by (simp add: s1_def drop_device_inputs_def completes_def known_def)
    then show "completes \<rho> sf" unfolding se_def by (rule completes_persists[OF _ persists_end_activations])
    then show "completes \<rho> s" using completes_persists persists_failed[OF saf] by (simp add: sf_def)
  qed
  have heldf: "held_ok sf" using shf by (simp add: shown_def)
  note et = ended_targets[OF heldf, of ended, folded se_def]
  have held2: "held_ok (s1\<lparr>e_journal := []\<rparr>)"
    using heldf et(2-4) by (auto simp: s1_def drop_device_inputs_def held_ok_def phys_def phys_dev_def se_def)
  note st = stops_targets[OF held2, of ended, folded s3_def]
  have same: "acts_same s3 s'"
    using acts_same_release[of s3 d pressed] acts_same_adopt[of s4 d ?codes "[]"]
    by (simp add: acts_same_def res(2) s6_def s5_def s4_def)
  have targets: "held_targets s' d' = (if d' \<in> activation_device ` set ended then {} else held_targets s d')" for d'
  proof -
    have "held_targets (s1\<lparr>e_journal := []\<rparr>) = held_targets se"
      by (rule targets_cong) (simp_all add: s1_def drop_device_inputs_def)
    moreover have "held_targets sf = held_targets s" by (rule targets_cong) (simp_all add: sf_def)
    ultimately show ?thesis using st[of d'] et(1)[of d'] acts_same_targets[OF same] by simp
  qed
  note result = reconcile_result[OF assms(1,4)]
  have phys': "phys s' d' c = phys s d' c" if "d' \<noteq> d" for d' c using result that by blast
  have held': "held_ok s'"
    unfolding held_ok_def
  proof (intro conjI allI impI ballI)
    show "is_abs d'" if "phys s' d' c = Some p" for d' c p
      using that phys'[of d' c] assms(2,3) by (cases "d' = d") (auto simp: shown_def held_ok_def)
    show "a_device (e_acts s' a) = activation_device a" "a \<le> e_next_activation s'" if "a \<in> set (e_active s')" for a
      using that st[of "[]"] same held2 by (auto simp: acts_same_def held_ok_def)
    show "repeats_ok (j_events f)" if "f \<in> set (e_journal s')" for f using that by (simp add: res(2))
  qed
  have "fold consume outs H d' = want \<rho> s' d'" if \<rho>: "completes \<rho> s'" for \<rho> d'
  proof -
    let ?H1 = "fold consume outs1 H"
    have "\<forall>f\<in>set (e_journal s1). repeats_ok (j_events f)"
      using heldf by (auto simp: s1_def et(5) drop_device_inputs_def drop_inputs_def held_ok_def repeats_ok_def)
    from drain_all_shown(1)[OF inv1 comp(2)[OF \<rho>] this, of H]
    have "?H1 = note_journal \<rho> (map (\<lambda>f. if j_device f = d then drop_inputs f else f) (e_journal sf)) H"
      unfolding 1 by (simp add: s1_def et(5) drop_device_inputs_def)
    then have H1: "?H1 e = want \<rho> s e" if "e \<noteq> d" for e
      using note_dropped_inputs[of e d H H, OF that refl] shf comp(3)[OF \<rho>] held_same_want[of s sf \<rho>]
      by (simp add: shown_def sf_def)
    have "\<forall>f\<in>set (e_journal s6). repeats_ok (j_events f)"
      using stops_journal[of ended "s1\<lparr>e_journal := []\<rparr>"] inv5(3)
      by (auto simp: s6_def s3_def queue_output_def repeats_ok_def)
    from drain_all_shown(1)[OF inv6 comp(1)[OF \<rho>] this, of ?H1]
    have "fold consume outs H = consume (ReconcileDevice d vis) (note_journal \<rho> (e_journal s3) ?H1)"
      unfolding 6 by (simp add: res(1) s6_def note_generated inv5(3))
    then have H': "fold consume outs H = (\<lambda>e. if e = d then {c. gm_true vis c}
        else if e \<in> (\<lambda>a. a_device (e_acts s1 a)) ` set ended then {} else ?H1 e)"
      by (simp add: s3_def note_stops fun_eq_iff)
    have devs: "(\<lambda>a. a_device (e_acts s1 a)) ` set ended = activation_device ` set ended"
      using et(3) heldf by (auto simp: s1_def drop_device_inputs_def ended_def ended_by_def held_ok_def intro!: image_cong)
    show ?thesis
    proof (cases "d' = d")
      case True
      obtain rest visible where vis: "outs = rest @ [ReconcileDevice d visible]"
        "\<And>c. gm_true visible c \<longleftrightarrow> (\<exists>p. phys s' d c = Some p \<and> p_route (pr s' p) = Forwarded)"
        using result by blast
      have "phys_ok s'" using result by (simp add: engine_inv_def)
      then have "\<rho> p = p_route (pr s' p) \<or> p_route (pr s' p) = Undecided" if "phys s' d c = Some p" for c p
        using that \<rho> by (auto simp: phys_ok_def down_ok_def completes_def known_def)
      moreover have "p_route (pr s' p) \<noteq> Undecided" if "phys s' d c = Some p" for c p
      proof -
        have "engine_inv cfg s'" "e_seq s' = None" using result by simp_all
        then have "undecided s' = {}" by (rule no_undecided)
        then show ?thesis using that \<open>phys_ok s'\<close> by (auto simp: undecided_def known_def phys_ok_def down_ok_def)
      qed
      ultimately show ?thesis
        using True vis targets_virtual[OF held' assms(3)] by (fastforce simp: want_def)
    next
      case False
      show ?thesis
      proof (cases "d' \<in> activation_device ` set ended")
        case True
        then show ?thesis using False want_virtual[OF held', of d' \<rho>] targets[of d'] by (auto simp: H' devs)
      next
        case out: False
        then have "want \<rho> s' d' = want \<rho> s d'" using phys'[OF False] targets[of d'] by (simp add: want_def)
        then show ?thesis using out False H1[OF False] by (simp add: H' devs)
      qed
    qed
  qed
  then show ?thesis using held' by (simp add: shown_def res(2) fun_eq_iff)
qed

section \<open>Shutdown\<close>

lemma consume_mono: "H d \<subseteq> H' d \<Longrightarrow> consume out H d \<subseteq> consume out H' d"
proof -
  have keys: "fold apply_key evs S \<subseteq> fold apply_key evs T" if "S \<subseteq> T" for evs S T
    using that
  proof (induction evs arbitrary: S T)
    case (Cons ev evs)
    have "apply_key ev S \<subseteq> apply_key ev T" using Cons.prems by (auto simp: apply_key_def)
    from Cons.IH[OF this] show ?case by simp
  qed simp
  show "H d \<subseteq> H' d \<Longrightarrow> consume out H d \<subseteq> consume out H' d"
    using keys[of "H d" "H' d"] by (cases out) auto
qed

lemma note_rec_mono: "H d \<subseteq> H' d \<Longrightarrow> note_rec \<rho> e r H d \<subseteq> note_rec \<rho> e r H' d"
  using consume_mono[of H d H'] by (auto simp: note_rec_def apply_key_def split: option.split)

lemma note_dropped_presses:
  "H d \<subseteq> H' d \<Longrightarrow> fold (note_rec \<rho> e) (filter keep_on_close rs) H d \<subseteq> fold (note_rec \<rho> e) rs H' d"
proof (induction rs arbitrary: H H')
  case (Cons r rs)
  have "H d \<subseteq> note_rec \<rho> e r H' d" if "\<not> keep_on_close r"
    using that Cons.prems by (auto simp: keep_on_close_def note_rec_def apply_key_def)
  with note_rec_mono[of H d H' \<rho> e r, OF Cons.prems] show ?case
    using Cons.IH[of "if keep_on_close r then note_rec \<rho> e r H else H" "note_rec \<rho> e r H'"]
    by (cases "keep_on_close r") simp_all
qed simp

lemma note_journal_dropped:
  "H d \<subseteq> H' d \<Longrightarrow> note_journal \<rho> (map (\<lambda>f. f\<lparr>j_events := filter keep_on_close (j_events f)\<rparr>) fs) H d
     \<subseteq> note_journal \<rho> fs H' d"
proof (induction fs arbitrary: H H')
  case (Cons f fs)
  let ?f = "f\<lparr>j_events := filter keep_on_close (j_events f)\<rparr>"
  have "note_frame \<rho> ?f H d \<subseteq> note_frame \<rho> f H' d"
    using note_dropped_presses[of H d H', OF Cons.prems] by (simp add: note_frame_def)
  from Cons.IH[of "note_frame \<rho> ?f H" "note_frame \<rho> f H'", OF this] show ?case by simp
qed simp

lemma close_devices_note:
  "e_journal (fold close_device ds s) = e_journal s @
     map (\<lambda>d. \<lparr>j_device = [], j_events = [recorded_output (ReconcileDevice d []) None], j_drop_scan = False,
       j_candidate = None\<rparr>) ds"
proof (induction ds arbitrary: s)
  case (Cons d ds)
  have "e_journal (fold (\<lambda>(c, p). release p) xs s) = e_journal s" for xs :: "(u16 \<times> pid) list" and s
    by (induction xs arbitrary: s) (auto simp: case_prod_beta)
  then have "e_journal (close_device d s) = e_journal s @ [\<lparr>j_device = [],
      j_events = [recorded_output (ReconcileDevice d []) None], j_drop_scan = False, j_candidate = None\<rparr>]"
    by (simp add: close_device_def queue_output_def)
  then show ?case using Cons by simp
qed simp

lemma close_shown:
  assumes "engine_inv cfg s" "shown s H" "close_engine s = Some (outs, s')"
  shows "shown s' (fold consume outs H)" "fold consume outs H = (\<lambda>_. {})"
proof -
  have saf: "safe cfg s" using assms(1) by (simp add: engine_inv_def)
  define sf where "sf = failed s"
  define s1 where "s1 = fold stop_activation (e_active sf) (drop_presses sf)"
  define s2 where "s2 = s1\<lparr>e_active := []\<rparr>"
  let ?ds = "sort (gm_keys (e_physical s2))"
  define s3 where "s3 = fold close_device ?ds s2"
  have invf: "engine_inv cfg sf" using inv_failed[OF assms(1)] by (simp add: sf_def)
  have shf: "shown sf H" unfolding sf_def by (rule failed_shown[OF assms(2) saf])
  have inv1: "engine_inv cfg s1" unfolding s1_def
    by (rule fold_invariant) (simp_all add: inv_stop_activation inv_drop_presses invf)
  have "journal_ok s1" "safe cfg s1" using inv1 by (simp_all add: engine_inv_def)
  moreover from this have "journal_ok s2" using journal_ok_mono[of s1 s2] by (simp add: s2_def)
  ultimately have inv2: "engine_inv cfg s2" by (intro inv_cong[OF inv1]) (simp_all add: s2_def)
  note cl = close_devices_result[OF inv2, of ?ds, folded s3_def]
  have s2: "e_seq s2 = None" "e_physical s2 = e_physical s"
    by (simp_all add: s2_def s1_def sf_def fold_stop_frame drop_presses_def)
  have inv3: "engine_inv cfg s3" "e_seq s3 = None" using cl s2(1) by simp_all
  have dr: "drain s3 = (outs, s')"
    using assms(3) fail_failed[OF saf]
    by (simp add: close_engine_def s1_def s2_def s3_def sf_def drop_presses_def)
  note result = close_result[OF assms(1,3)]
  have held: "held_ok sf" using shf by (simp add: shown_def)
  define \<rho> where "\<rho> = (\<lambda>p. if p_route (pr s3 p) = Undecided then Forwarded else p_route (pr s3 p))"
  have c3: "completes \<rho> s3" unfolding \<rho>_def by (rule completes_choice)
  have "persists s2 s3" unfolding s3_def by (rule persists_fold) (rule persists_close_device)
  then have "completes \<rho> s2" using c3 completes_persists by blast
  then have "completes \<rho> s1" by (simp add: s2_def completes_def known_def)
  moreover have "persists sf s1"
    unfolding s1_def by (rule persists_trans[OF persists_same persists_stop]) (simp_all add: drop_presses_def)
  ultimately have cf: "completes \<rho> sf" using completes_persists by blast
  obtain fs where fs: "e_journal s1 = e_journal (drop_presses sf) @ fs" "\<forall>f\<in>set fs. repeats_ok (j_events f)"
    using stops_journal[of "e_active sf" "drop_presses sf"] by (auto simp: s1_def)
  have j3: "e_journal s3 = e_journal s1 @ map (\<lambda>d. \<lparr>j_device = [],
      j_events = [recorded_output (ReconcileDevice d []) None], j_drop_scan = False, j_candidate = None\<rparr>) ?ds"
    using close_devices_note[of ?ds s2] by (simp add: s3_def s2_def)
  have "\<forall>f\<in>set (e_journal s3). repeats_ok (j_events f)"
    using held fs by (auto simp: j3 drop_presses_def held_ok_def repeats_ok_def)
  from drain_all_shown(1)[OF inv3 c3 this, of H]
  have out: "fold consume outs H = note_journal \<rho> (e_journal s3) H" using dr by simp
  have clear: "note_journal \<rho> (map (\<lambda>d. \<lparr>j_device = [], j_events = [recorded_output (ReconcileDevice d []) None],
      j_drop_scan = False, j_candidate = None\<rparr>) ds) K = (\<lambda>d. if d \<in> set ds then {} else K d)" for ds K
    by (induction ds arbitrary: K) (auto simp: note_frame_def note_rec_simps no_keys fun_eq_iff)
  show empty: "fold consume outs H = (\<lambda>_. {})"
  proof
    fix d
    let ?K = "note_journal \<rho> (e_journal s1) H"
    have K: "?K d = (if d \<in> (\<lambda>a. a_device (e_acts (drop_presses sf) a)) ` set (e_active sf) then {}
        else note_journal \<rho> (e_journal (drop_presses sf)) H d)"
      by (simp add: s1_def note_stops)
    have sub: "note_journal \<rho> (e_journal (drop_presses sf)) H d \<subseteq> want \<rho> sf d"
      using note_journal_dropped[of H d H \<rho> "e_journal sf"] shf cf by (simp add: drop_presses_def shown_def)
    have "?K d = {}" if "d \<notin> set ?ds"
    proof -
      have none: "phys sf d c = None" for c
        using that by (auto simp: s2(2) sf_def phys_def phys_dev_def gm.keys_get split: option.splits)
      have "held_targets sf d = {}" if "d \<notin> (\<lambda>a. a_device (e_acts sf a)) ` set (e_active sf)"
        using that by (auto simp: held_targets_def)
      then show ?thesis using K sub none by (auto simp: drop_presses_def want_def split: if_splits)
    qed
    then show "fold consume outs H d = {}" by (auto simp: out j3 clear)
  qed
  have "want \<rho>' s' = (\<lambda>_. {})" for \<rho>' using result by (simp add: want_def held_targets_def fun_eq_iff)
  then show "shown s' (fold consume outs H)" using result empty by (simp add: shown_def held_ok_def)
qed

section \<open>Every run\<close>

definition real_input :: "engine_input \<Rightarrow> bool" where
  "real_input i = (case i of FrameIn fr _ \<Rightarrow> is_abs (fr_device fr) | ReconcileIn d _ \<Rightarrow> is_abs d | _ \<Rightarrow> True)"

lemma engine_step_shown:
  assumes "engine_inv cfg s" "shown s H" "real_input i" "engine_step cfg i s = Some (outs, s')"
  shows "shown s' (fold consume outs H)"
  using assms handle_frame_shown[OF assms(1,2)] handle_timeout_shown[OF assms(1,2)]
    reconcile_shown[OF assms(1,2)] close_shown(1)[OF assms(1,2)]
  by (cases i) (simp_all add: real_input_def)

lemma shown_new: "shown new_engine (\<lambda>_. {})"
  by (simp add: shown_def held_ok_def new_engine_def phys_def phys_dev_def want_def held_targets_def fun_eq_iff)

lemma engine_run_shown:
  assumes "engine_inv cfg s" "shown s H" "drained s" "\<forall>i\<in>set ins. real_input i"
    "run_steps (engine_step cfg) ins s = Some (outs, s')"
  shows "shown s' (fold consume outs H)"
  using assms
proof (induction ins arbitrary: s H outs)
  case (Cons i ins)
  then obtain os1 s1 os2 where 1: "engine_step cfg i s = Some (os1, s1)"
    "run_steps (engine_step cfg) ins s1 = Some (os2, s')" "outs = os1 @ os2" by (auto split: Option.bind_splits)
  have "shown s1 (fold consume os1 H)" using engine_step_shown[OF Cons.prems(1,2) _ 1(1)] Cons.prems(4) by simp
  moreover have "engine_inv cfg s1" "drained s1" using engine_step_inv[OF Cons.prems(1)] 1(1) Cons.prems(3) by auto
  ultimately show ?case using Cons.IH[OF _ _ _ _ 1(2)] Cons.prems(4) by (simp add: 1(3))
qed simp

end
