(* ===== verification/Virtual_Keyboard.thy ===== *)
theory Virtual_Keyboard
  imports Forwarder
begin

text \<open>
  \<open>internal/linuxinput/uinput_linux.go\<close>: the virtual keyboard the compositor reads.  The kernel is a
  parameter: the answer to each ioctl request (an errno or success), to \<open>open\<close> and \<open>close\<close>, whether
  the new node appears in sysfs in time, and the script of \<open>write\<close> results of Kernel_IO.  The
  functions record the system calls they make.

  \<open>VirtualKeyboard.Write\<close> is the interpretation of the locale \<open>event_writer\<close>, so the statements about
  the forwarder hold for the bytes the kernel takes.
\<close>

section \<open>Creation\<close>

datatype ui_arg = NoArg | IntArg i32 | SetupArg "u8 list"

type_synonym ui_request = "u64 \<times> ui_arg"

datatype ui_call = UiOpen | UiIoctl ui_request | UiClose

definition uinput_max_name :: nat where "uinput_max_name = 80"

text \<open>\<open>uinputSetup\<close>: identity, name copied into its array, no force feedback.\<close>

definition setup_bytes :: "u8 list \<Rightarrow> u8 list" where
  "setup_bytes name =
     bytes_of_u16 0x06 @ bytes_of_u16 0x4541 @ bytes_of_u16 0x4b44 @ bytes_of_u16 1 @
     (take uinput_max_name name @ replicate (uinput_max_name - length name) 0) @ replicate 4 0"

definition ui_set :: "u64 \<Rightarrow> u16 \<Rightarrow> ui_request" where
  "ui_set number code = (iow uinput_base number 4, IntArg (ucast code))"

definition ui_create :: ui_request where "ui_create = (io_req uinput_base 1, NoArg)"
definition ui_destroy :: ui_request where "ui_destroy = (io_req uinput_base 2, NoArg)"

definition virtual_requests :: "u8 list \<Rightarrow> ui_request list" where
  "virtual_requests name =
     [ui_set 100 EVKey] @ map (\<lambda>c. ui_set 101 (of_nat c)) [0..<Suc KeyMax] @
     [ui_set 100 EVMsc, ui_set 104 MscScan, ui_set 100 EVLed] @
     map (ui_set 105) [LEDNumLock, LEDCapsLock, LEDScrollLock] @
     [(iow uinput_base 3 92, SetupArg (setup_bytes name)), ui_create]"

record vk =
  vk_fd :: int
  vk_name :: "u8 list"
  vk_taken :: "u8 list"            \<comment> \<open>the bytes the kernel took\<close>
  vk_script :: "write_result list" \<comment> \<open>its answers to come\<close>

datatype create_error = OpenFailed nat | RequestFailed ui_request nat | NeverVisible

text \<open>The requests up to the first one that fails.\<close>

fun issue_requests :: "(ui_request \<Rightarrow> nat option) \<Rightarrow> ui_request list \<Rightarrow> ((ui_request \<times> nat) + unit) \<times> ui_call list" where
  "issue_requests answer [] = (Inr (), [])"
| "issue_requests answer (r # rs) =
     (case answer r of
        Some e \<Rightarrow> (Inl (r, e), [UiIoctl r])
      | None \<Rightarrow> let (res, calls) = issue_requests answer rs in (res, UiIoctl r # calls))"

datatype close_error = DestroyFailed nat | CloseFailed nat

definition close_keyboard :: "(ui_request \<Rightarrow> nat option) \<Rightarrow> nat option \<Rightarrow> vk \<Rightarrow>
    (close_error + unit) \<times> vk \<times> ui_call list" where
  "close_keyboard answer close_result v =
     (if vk_fd v < 0 then (Inr (), v, [])
      else (case answer ui_destroy of
              Some e \<Rightarrow> Inl (DestroyFailed e)
            | None \<Rightarrow> (case close_result of Some e \<Rightarrow> Inl (CloseFailed e) | None \<Rightarrow> Inr ()),
            v\<lparr>vk_fd := -1\<rparr>, [UiIoctl ui_destroy, UiClose]))"

text \<open>\<open>open_result\<close> is an errno or the descriptor; \<open>appears\<close> is the answer of
  \<open>waitUntilVisible\<close>, below.\<close>

definition create_keyboard :: "nat + nat \<Rightarrow> (ui_request \<Rightarrow> nat option) \<Rightarrow> bool \<Rightarrow> u8 list \<Rightarrow> write_result list \<Rightarrow>
    (create_error + vk) \<times> ui_call list" where
  "create_keyboard open_result answer appears name script =
     (case open_result of
        Inl e \<Rightarrow> (Inl (OpenFailed e), [UiOpen])
      | Inr fd \<Rightarrow>
          (case issue_requests answer (virtual_requests name) of
             (Inl (r, e), calls) \<Rightarrow> (Inl (RequestFailed r e), UiOpen # calls @ [UiClose])
           | (Inr _, calls) \<Rightarrow>
               let v = \<lparr>vk_fd = int fd, vk_name = name, vk_taken = [], vk_script = script\<rparr>
               in if appears then (Inr v, UiOpen # calls)
                  else (case close_keyboard answer None v of
                          (_, _, closing) \<Rightarrow> (Inl NeverVisible, UiOpen # calls @ closing))))"

section \<open>Waiting for the node\<close>

text \<open>\<open>waitUntilVisible\<close>: each round reads the clock and, before the deadline, the names of the input
  devices in sysfs, then sleeps; times are nanoseconds.  \<open>None\<close>: still waiting after these rounds.\<close>

definition visible_timeout :: int where "visible_timeout = 3 * 1000000000"
definition poll_interval :: int where "poll_interval = 25 * 1000000"

fun wait_until_visible :: "u8 list \<Rightarrow> int \<Rightarrow> (int \<times> u8 list list) list \<Rightarrow> bool option" where
  "wait_until_visible name deadline [] = None"
| "wait_until_visible name deadline ((now, names) # rounds) =
     (if now < deadline
      then if name @ [10] \<in> set names then Some True else wait_until_visible name deadline rounds
      else Some False)"

definition keyboard_visible :: "u8 list \<Rightarrow> int \<Rightarrow> (int \<times> u8 list list) list \<Rightarrow> bool option" where
  "keyboard_visible name start rounds = wait_until_visible name (start + visible_timeout) rounds"

section \<open>Writing\<close>

datatype vk_error = WriteFailed write_error | Unanswered

text \<open>\<open>VirtualKeyboard.Write\<close>; \<open>Unanswered\<close> stands for a call the script ends in the middle of.\<close>

definition vk_write :: "event \<Rightarrow> vk \<Rightarrow> (vk_error + unit) \<times> vk" where
  "vk_write ev v =
     (case write_event_fd ev (vk_taken v) (vk_script v) of
        None \<Rightarrow> (Inl Unanswered, v)
      | Some (r, taken, script) \<Rightarrow> (map_err WriteFailed r, v\<lparr>vk_taken := taken, vk_script := script\<rparr>))"

text \<open>What a reader of the device sees: the records of the bytes taken.\<close>

definition vk_log :: "vk \<Rightarrow> event list" where
  "vk_log v = decode_records (vk_taken v)"

definition vk_aligned :: "vk \<Rightarrow> bool" where
  "vk_aligned v \<longleftrightarrow> length (vk_taken v) mod kernel_event_size = 0"

interpretation vk: event_writer vk_write vk_log vk_aligned
proof
  fix v ev v' assume v: "vk_aligned v" and w: "vk_write ev v = (Inr (), v')"
  obtain taken script where "write_event_fd ev (vk_taken v) (vk_script v) = Some (Inr (), taken, script)"
    and v': "v' = v\<lparr>vk_taken := taken, vk_script := script\<rparr>"
    using w by (auto simp: vk_write_def split: option.splits)
  from write_event_taken[OF this(1)] v' have taken: "vk_taken v' = vk_taken v @ encode_event ev" by simp
  have "decode_records (encode_event ev) = [ev]"
    using decode_records_encode[of ev "[]"] by (simp add: decode_records.simps)
  then have "vk_log v' = vk_log v @ [ev]"
    using decode_records_append[OF v[unfolded vk_aligned_def]] by (simp add: vk_log_def taken)
  moreover have "vk_aligned v'" using v by (simp add: vk_aligned_def taken mod_add_eq[symmetric])
  ultimately show "vk_log v' = vk_log v @ [ev] \<and> vk_aligned v'" ..
qed

lemma vk_fresh: "vk_taken v = [] \<Longrightarrow> vk_aligned v \<and> vk_log v = []"
  by (simp add: vk_aligned_def vk_log_def decode_records.simps)

section \<open>What one operation writes\<close>

definition op_device :: "fw_op \<Rightarrow> device" where
  "op_device act = (case act of OpFrame fr \<Rightarrow> fr_device fr | OpResync d _ \<Rightarrow> d)"

text \<open>Of a frame, events of the frame in their order; of a snapshot, transitions of keys that differ.\<close>

definition op_events :: "fw_op \<Rightarrow> u16 set \<Rightarrow> event list \<Rightarrow> bool" where
  "op_events act K sent =
     (case act of
        OpFrame fr \<Rightarrow> subseq sent (fr_events fr)
      | OpResync d actual \<Rightarrow>
          set sent \<subseteq> (\<lambda>c. key_event c 0) ` (K - {c. gm_true actual c}) \<union>
            (\<lambda>c. key_event c 1) ` ({c. gm_true actual c} - K))"

lemma op_report:
  assumes "fw_step vk_write act f = (Inr u, f')" "vk_aligned (fw_output f)" "fw_synced vk_log f"
  shows "\<exists>sent. op_events act (device_keys f (op_device act)) sent \<and>
    vk_log (fw_output f') = vk_log (fw_output f) @ (if sent = [] then [] else sent @ [syn_event])"
proof (cases act)
  case (OpFrame fr)
  then have "fw_frame vk_write fr f = (Inr u, f')" using assms(1) by (auto simp: fw_step_def split: prod.splits)
  from vk.frame_synced[OF this assms(2,3)] OpFrame show ?thesis
    by (simp add: op_events_def op_device_def)
next
  case (OpResync d actual)
  then have "fw_resync vk_write d actual f = (Inr u, f')" using assms(1) by (auto simp: fw_step_def split: prod.splits)
  from vk.resync_synced[OF this assms(2,3)] show ?thesis
    unfolding OpResync op_events_def op_device_def fw_op.case by blast
qed

lemma fw_run_snoc:
  assumes "fw_run wr (acts @ [act]) f = (Inr u, f'')"
  obtains f' u' where "fw_run wr acts f = (Inr (), f')" "fw_step wr act f' = (Inr u', f'')"
  using assms
proof (induction acts arbitrary: f thesis)
  case Nil
  then show ?case by (auto split: prod.splits sum.splits)
next
  case (Cons a acts)
  obtain r f1 where "fw_step wr a f = (Inr r, f1)" "fw_run wr (acts @ [act]) f1 = (Inr u, f'')"
    using Cons.prems(2) by (auto split: prod.splits sum.splits)
  with Cons.IH[of f1] Cons.prems(1) show ?case by fastforce
qed

section \<open>Properties of the forwarder on the virtual keyboard\<close>

text \<open>A run of the examples: the second keyboard still holds A after the first one released it.\<close>

definition example_ops :: "fw_op list" where
  "example_ops =
     [OpFrame \<lparr>fr_device = ''a'', fr_events = [key_event KeyA 1, syn_event]\<rparr>,
      OpFrame \<lparr>fr_device = ''b'', fr_events = [key_event KeyA 1, key_event KeyZ 1, syn_event]\<rparr>,
      OpFrame \<lparr>fr_device = ''a'', fr_events = [key_event KeyA 0, syn_event]\<rparr>]"

definition example_keyboard :: vk where
  "example_keyboard = \<lparr>vk_fd = 5, vk_name = [], vk_taken = [], vk_script = replicate 4 (Wrote 24)\<rparr>"

lemma two_keyboards_run: "fw_run vk_write example_ops (new_forwarder example_keyboard) =
    (Inr (), snd (fw_run vk_write example_ops (new_forwarder example_keyboard)))"
proof -
  have "fst (fw_run vk_write example_ops (new_forwarder example_keyboard)) = Inr ()" by code_simp
  then show ?thesis by (metis prod.collapse)
qed

text \<open>
  C14. The compositor sees exactly the keys that are held.  After any run of frames and
  resynchronisations that succeeded, a key is pressed on the virtual keyboard exactly when some
  device holds it, and the count of a key is the number of devices that hold it.
\<close>

theorem forwarder_shows_held_keys:
  assumes "vk_taken v = []" "fw_run vk_write acts (new_forwarder v) = (Inr (), f)"
  shows "visible (vk_log (fw_output f)) = (\<Union>d. keys_after acts d) \<and>
    fw_count (fw_counts f) c = int (card {d. c \<in> keys_after acts d})"
  using vk.run_visible(1,3)[OF assms(2)] vk_fresh[OF assms(1)] by simp

theorem forwarder_shows_held_keys_witness:
  "KeyA \<in> visible (vk_log (fw_output (snd (fw_run vk_write example_ops (new_forwarder example_keyboard)))))"
proof -
  have "KeyA \<in> keys_after example_ops ''b''" by code_simp
  then show ?thesis
    using forwarder_shows_held_keys[OF _ two_keyboards_run, of KeyA] by (auto simp: example_keyboard_def)
qed

text \<open>
  C24. Every key event the virtual keyboard sends is real: a press of a key that was not pressed, a
  release of a key that was, or a repeat of a pressed key that is no modifier.
\<close>

theorem forwarder_sends_real_changes:
  assumes "vk_taken v = []" "fw_run vk_write acts (new_forwarder v) = (Inr (), f)"
  shows "stream_ok {} (vk_log (fw_output f))"
  using vk.run_visible(2)[OF assms(2)] vk_fresh[OF assms(1)] by simp

theorem forwarder_sends_real_changes_witness:
  "stream_ok {} (vk_log (fw_output (snd (fw_run vk_write example_ops (new_forwarder example_keyboard)))))"
  by (rule forwarder_sends_real_changes[OF _ two_keyboards_run]) (simp add: example_keyboard_def)

text \<open>
  Each operation writes nothing, or one report closed by its only \<open>SYN_REPORT\<close>: of a frame, events
  of the frame in their order; of a resynchronisation, only releases of keys the device held and
  the snapshot lacks and presses of keys the snapshot adds.
\<close>

theorem forwarder_writes_one_report:
  assumes "vk_taken v = []" "fw_run vk_write acts (new_forwarder v) = (Inr (), f)"
    "fw_step vk_write act f = (Inr (), f')"
  shows "\<exists>sent. op_events act (keys_after acts (op_device act)) sent \<and>
    vk_log (fw_output f') = vk_log (fw_output f) @ (if sent = [] then [] else sent @ [syn_event])"
proof -
  have "fw_synced vk_log (new_forwarder v) \<and> device_keys (new_forwarder v) = (\<lambda>_. {})"
    using vk_fresh[OF assms(1)] by (simp add: vk.new_synced)
  with vk.run_synced[OF assms(2)] vk_fresh[OF assms(1)]
  have f: "vk_aligned (fw_output f)" "fw_synced vk_log f" "device_keys f = keys_after acts"
    by (simp_all add: keys_after_def new_forwarder_def)
  from op_report[OF assms(3) f(1,2)] f(3) show ?thesis by simp
qed

theorem forwarder_writes_one_report_witness:
  "\<exists>sent. op_events (OpResync ''b'' []) (keys_after example_ops ''b'') sent"
proof -
  define v where "v = example_keyboard\<lparr>vk_script := replicate 7 (Wrote 24)\<rparr>"
  define f where "f = snd (fw_run vk_write example_ops (new_forwarder v))"
  have "fst (fw_run vk_write example_ops (new_forwarder v)) = Inr ()" unfolding v_def by code_simp
  then have run: "fw_run vk_write example_ops (new_forwarder v) = (Inr (), f)"
    unfolding f_def by (metis prod.collapse)
  have "fst (fw_step vk_write (OpResync ''b'' []) f) = Inr ()" unfolding f_def v_def by code_simp
  then have step: "fw_step vk_write (OpResync ''b'' []) f = (Inr (), snd (fw_step vk_write (OpResync ''b'' []) f))"
    by (metis prod.collapse)
  have "vk_taken v = []" by (simp add: v_def example_keyboard_def)
  from forwarder_writes_one_report[OF this run step] show ?thesis by (auto simp: op_device_def)
qed

section \<open>Properties of the virtual keyboard\<close>

text \<open>The requests of a creation that ends: all of them, or those up to the one that failed.\<close>

lemma issue_requests_all:
  "issue_requests answer rs = (Inr u, calls) \<Longrightarrow> calls = map UiIoctl rs \<and> (\<forall>r \<in> set rs. answer r = None)"
  by (induction rs arbitrary: calls) (auto split: option.splits prod.splits)

lemma issue_requests_calls:
  "issue_requests answer rs = (res, calls) \<Longrightarrow> set calls \<subseteq> range UiIoctl"
  by (induction rs arbitrary: res calls) (fastforce split: option.splits prod.splits)+

text \<open>
  \<open>CreateVirtualKeyboard\<close> leaks no descriptor.  When it fails after \<open>open\<close>, its last system call is
  the only \<open>close\<close>; when it succeeds it never closed the descriptor, and every request was
  accepted, the creation of the device being the last.
\<close>

theorem create_keyboard_closes:
  "(case create_keyboard open_result answer appears name script of
      (Inl e, calls) \<Rightarrow>
        (case open_result of
           Inl _ \<Rightarrow> calls = [UiOpen]
         | Inr _ \<Rightarrow> \<exists>before. calls = before @ [UiClose] \<and> UiClose \<notin> set before)
    | (Inr v, calls) \<Rightarrow>
        calls = UiOpen # map UiIoctl (virtual_requests name) \<and> last calls = UiIoctl ui_create \<and>
        (\<forall>r \<in> set (virtual_requests name). answer r = None) \<and> Inr (nat (vk_fd v)) = open_result \<and> vk_taken v = [])"
proof (cases open_result)
  case (Inl e)
  then show ?thesis by (simp add: create_keyboard_def)
next
  case (Inr fd')
  obtain res calls where i: "issue_requests answer (virtual_requests name) = (res, calls)"
    by (cases "issue_requests answer (virtual_requests name)")
  have noclose: "UiClose \<notin> set calls" using issue_requests_calls[OF i] by auto
  show ?thesis
  proof (cases res)
    case (Inl re)
    then show ?thesis using Inr i noclose
      by (cases re) (auto simp: create_keyboard_def intro: exI[of _ "UiOpen # calls"])
  next
    case ok: (Inr u)
    have all: "calls = map UiIoctl (virtual_requests name)" "\<forall>r \<in> set (virtual_requests name). answer r = None"
      using issue_requests_all i ok by auto
    have lst: "last (map UiIoctl (virtual_requests name)) = UiIoctl ui_create"
      "map UiIoctl (virtual_requests name) \<noteq> []"
      by (simp_all add: virtual_requests_def)
    show ?thesis
    proof (cases appears)
      case True
      then show ?thesis using Inr i ok all lst by (simp add: create_keyboard_def Let_def)
    next
      case False
      then show ?thesis using Inr i ok noclose
        by (auto simp: create_keyboard_def close_keyboard_def Let_def
            intro!: exI[of _ "UiOpen # calls @ [UiIoctl ui_destroy]"])
    qed
  qed
qed

theorem create_keyboard_closes_witness:
  "\<exists>e calls. create_keyboard (Inr 7) (\<lambda>r. if r = ui_set 100 EVKey then Some 22 else None) True [101] [] = (Inl e, calls) \<and>
     (\<exists>before. calls = before @ [UiClose] \<and> UiClose \<notin> set before)"
proof -
  let ?answer = "\<lambda>r. if r = ui_set 100 EVKey then Some (22 :: nat) else None"
  have "create_keyboard (Inr 7) ?answer True [101] [] =
      (Inl (RequestFailed (ui_set 100 EVKey) 22), [UiOpen, UiIoctl (ui_set 100 EVKey), UiClose])"
    by (simp add: create_keyboard_def virtual_requests_def)
  then show ?thesis using create_keyboard_closes[where open_result = "Inr 7" and answer = ?answer and appears = True and name = "[101]" and script = "[]"] by simp
qed

text \<open>
  The virtual keyboard can show every key the daemon can forward: before the device is created
  every key code up to \<open>KEY_MAX\<close>, the scan code event and the three LEDs are enabled, and
  the setup record has the size its request announces.
\<close>

theorem virtual_keyboard_capabilities:
  "\<exists>enabling. virtual_requests name = enabling @ [(iow uinput_base 3 92, SetupArg (setup_bytes name)), ui_create] \<and>
     (\<forall>code. unat code \<le> KeyMax \<longrightarrow> ui_set 101 code \<in> set enabling) \<and>
     {ui_set 100 EVKey, ui_set 100 EVMsc, ui_set 104 MscScan, ui_set 100 EVLed,
      ui_set 105 LEDNumLock, ui_set 105 LEDCapsLock, ui_set 105 LEDScrollLock} \<subseteq> set enabling \<and>
     ui_create \<notin> set enabling \<and> length (setup_bytes name) = 92"
proof -
  define enabling where "enabling = [ui_set 100 EVKey] @ map (\<lambda>c. ui_set 101 (of_nat c)) [0..<Suc KeyMax] @
     [ui_set 100 EVMsc, ui_set 104 MscScan, ui_set 100 EVLed] @ map (ui_set 105) [LEDNumLock, LEDCapsLock, LEDScrollLock]"
  have "virtual_requests name = enabling @ [(iow uinput_base 3 92, SetupArg (setup_bytes name)), ui_create]"
    by (simp add: virtual_requests_def enabling_def)
  moreover have "ui_set 101 code \<in> set enabling" if "unat code \<le> KeyMax" for code
  proof -
    have "ui_set 101 code \<in> (\<lambda>c. ui_set 101 (of_nat c)) ` set [0..<Suc KeyMax]"
      using that by (intro image_eqI[of _ _ "unat code"]) (auto simp del: upt_Suc)
    then show ?thesis by (simp add: enabling_def del: upt_Suc)
  qed
  moreover have "{ui_set 100 EVKey, ui_set 100 EVMsc, ui_set 104 MscScan, ui_set 100 EVLed,
      ui_set 105 LEDNumLock, ui_set 105 LEDCapsLock, ui_set 105 LEDScrollLock} \<subseteq> set enabling"
    by (simp add: enabling_def)
  moreover have "ui_create \<notin> set enabling" by (auto simp: enabling_def ui_create_def ui_set_def simp del: upt_Suc)
  moreover have "length (setup_bytes name) = 92"
    by (simp add: setup_bytes_def bytes_of_u16_def uinput_max_name_def)
  ultimately show ?thesis by blast
qed

theorem virtual_keyboard_capabilities_witness:
  "\<exists>enabling. ui_set 101 KeyA \<in> set enabling \<and> virtual_requests [101] =
     enabling @ [(iow uinput_base 3 92, SetupArg (setup_bytes [101])), ui_create]"
proof -
  have "unat KeyA \<le> KeyMax" by simp
  with virtual_keyboard_capabilities[of "[101]"] show ?thesis by blast
qed

text \<open>
  \<open>Close\<close> destroys the device and closes its descriptor once: a second \<open>Close\<close> makes no system
  call and returns no error, whatever the first one returned.
\<close>

theorem close_keyboard_once:
  "(case close_keyboard answer r v of
      (_, v', calls) \<Rightarrow>
        calls = (if vk_fd v < 0 then [] else [UiIoctl ui_destroy, UiClose]) \<and>
        close_keyboard answer' r' v' = (Inr (), v', []))"
  by (simp add: close_keyboard_def split: option.splits)

text \<open>The rounds before the deadline decide.\<close>

lemma wait_until_visible_eq:
  "wait_until_visible name deadline rounds =
     (let early = takeWhile (\<lambda>(now, _). now < deadline) rounds in
      if list_ex (\<lambda>(_, names). name @ [10] \<in> set names) early then Some True
      else if early = rounds then None else Some False)"
  by (induction name deadline rounds rule: wait_until_visible.induct)
    (auto simp: Let_def simp del: takeWhile_eq_all_conv)

text \<open>
  Waiting for the virtual keyboard ends.  The clock moves on by the time slept, so after 121 rounds
  the wait is over; it succeeds exactly when in a round before the deadline some input device has the
  name of the keyboard.
\<close>

theorem keyboard_wait_ends:
  assumes "\<And>i. i < length rounds \<Longrightarrow> fst (rounds ! i) \<ge> start + int i * poll_interval" "length rounds \<ge> 121"
  shows "keyboard_visible name start rounds =
    Some (list_ex (\<lambda>(_, names). name @ [10] \<in> set names) (takeWhile (\<lambda>(now, _). now < start + visible_timeout) rounds))"
proof -
  have "rounds ! 120 \<in> set rounds" "fst (rounds ! 120) \<ge> start + visible_timeout"
    using assms(1)[of 120] assms(2) by (auto simp: poll_interval_def visible_timeout_def)
  then have "takeWhile (\<lambda>(now, _). now < start + visible_timeout) rounds \<noteq> rounds"
    by (metis (no_types, lifting) case_prod_beta not_le set_takeWhileD)
  then show ?thesis by (simp add: keyboard_visible_def wait_until_visible_eq Let_def del: takeWhile_eq_all_conv)
qed

theorem keyboard_wait_ends_witness:
  "keyboard_visible [101] 0 (map (\<lambda>i. (int i * poll_interval, if i < 3 then [] else [[101, 10]])) [0..<121]) \<noteq> None"
proof -
  let ?rounds = "map (\<lambda>i. (int i * poll_interval, if i < 3 then [] else [[101, 10]])) [0..<121] :: (int \<times> u8 list list) list"
  have rounds: "length ?rounds \<ge> 121" "\<And>i. i < length ?rounds \<Longrightarrow> fst (?rounds ! i) \<ge> 0 + int i * poll_interval"
    by (simp_all del: upt_Suc)
  show ?thesis by (simp only: keyboard_wait_ends[OF rounds(2,1)] option.distinct not_False_eq_True)
qed

end
