(* ===== verification/Daemon.thy ===== *)
theory Daemon
  imports Engine_Holding Virtual_Keyboard
begin

text \<open>
  \<open>cmd/eakd/main_linux.go\<close> and \<open>internal/systemd\<close>: the daemon's main loop.  It feeds the manager's
  messages to the engine, applies the engine's outputs to the forwarder and the action server, arms
  the timer for the engine's deadline and tells systemd when everything is up.

  Each case of the \<open>select\<close> is a \<open>daemon_event\<close>; the events that can happen in a state are \<open>enabled\<close>,
  and \<open>daemon_run\<close> is the step relation.  One clock reading \<open>now\<close> per event stands for the \<open>time.Now\<close>
  and \<open>time.Until\<close> calls of its handler.  \<open>None\<close> is a panic of the engine.  \<open>'e\<close> is the type of the
  errors of the packages the loop only passes on.
\<close>

section \<open>Service notification\<close>

definition systemd_ready :: "string \<Rightarrow> (string \<Rightarrow> string \<Rightarrow> 'e option) \<Rightarrow> 'e option" where
  "systemd_ready path send = (if path = [] then None else send path ''READY=1'')"

datatype socket_call = Dial string | WriteDatagram string | CloseConnection

text \<open>\<open>sendDatagram\<close> with the answers of the kernel: its error and its calls.\<close>

definition send_datagram :: "'e option \<Rightarrow> 'e option \<Rightarrow> string \<Rightarrow> string \<Rightarrow> 'e option \<times> socket_call list" where
  "send_datagram dial_error write_error path message =
     (case dial_error of
        Some e \<Rightarrow> (Some e, [Dial path])
      | None \<Rightarrow> (write_error, [Dial path, WriteDatagram message, CloseConnection]))"

section \<open>State\<close>

text \<open>A \<open>time.Timer\<close>: when it is due, while it runs, and the value in its channel.\<close>

record go_timer =
  tm_due :: "time option"
  tm_value :: "time option"

record daemon =
  d_engine :: engine
  d_forwarder :: "vk forwarder"
  d_published :: "string list"      \<comment> \<open>the calls of \<open>server.Publish\<close>\<close>
  d_timer :: "go_timer option"
  d_channel :: bool                 \<comment> \<open>\<open>timerChannel\<close> is not nil\<close>
  d_server_wait :: bool             \<comment> \<open>\<open>serverReady\<close> is not nil\<close>
  d_manager_wait :: bool
  d_notified :: bool

definition new_daemon :: "vk \<Rightarrow> daemon" where
  "new_daemon v = \<lparr>d_engine = new_engine, d_forwarder = new_forwarder v, d_published = [], d_timer = None,
     d_channel = False, d_server_wait = True, d_manager_wait = True, d_notified = False\<rparr>"

type_synonym forward_error = "vk_error fw_error"

datatype 'e daemon_error =
    ForwardTimeout forward_error
  | ForwardInput forward_error
  | ResyncDevice device forward_error
  | ReleaseRemoved device forward_error
  | ForwardClose forward_error
  | NotifyError 'e
  | ServerError 'e
  | ManagerError 'e
  | ManagerStopped

datatype 'e outcome = Running | Returned "'e daemon_error option"

section \<open>The timer\<close>

text \<open>\<open>Stop\<close> (since Go 1.23, which the module requires, it also discards a value that was not
  received) returns whether the timer was pending.  The code drains the channel when it was not.\<close>

definition stop_timer :: "go_timer \<Rightarrow> bool \<times> go_timer" where
  "stop_timer x = (tm_due x \<noteq> None \<or> tm_value x \<noteq> None, \<lparr>tm_due = None, tm_value = None\<rparr>)"

definition drain_timer :: "go_timer \<Rightarrow> go_timer" where
  "drain_timer x = x\<lparr>tm_value := None\<rparr>"

definition arm_timer :: "time \<Rightarrow> time \<Rightarrow> go_timer option \<Rightarrow> go_timer" where
  "arm_timer now deadline t =
     (let delay = max 0 (deadline - now) in
      case t of
        None \<Rightarrow> \<lparr>tm_due = Some (now + delay), tm_value = None\<rparr>
      | Some x \<Rightarrow>
          let (pending, x1) = stop_timer x; x2 = (if \<not> pending then drain_timer x1 else x1)
          in x2\<lparr>tm_due := Some (now + delay)\<rparr>)"

text \<open>\<open>resetTimer\<close>\<close>

definition reset_timer :: "time \<Rightarrow> daemon \<Rightarrow> daemon" where
  "reset_timer now d =
     (case engine_deadline (d_engine d) of
        None \<Rightarrow> d\<lparr>d_timer := map_option (snd \<circ> stop_timer) (d_timer d), d_channel := False\<rparr>
      | Some deadline \<Rightarrow> d\<lparr>d_timer := Some (arm_timer now deadline (d_timer d)), d_channel := True\<rparr>)"

text \<open>The runtime's part: a running timer that is due stops and leaves the time in its channel.\<close>

definition expire_timer :: "time \<Rightarrow> go_timer \<Rightarrow> go_timer" where
  "expire_timer now x = \<lparr>tm_due = None, tm_value = Some now\<rparr>"

section \<open>Applying outputs\<close>

definition apply_output :: "engine_output \<Rightarrow> daemon \<Rightarrow> (forward_error + unit) \<times> daemon" where
  "apply_output out d =
     (case out of
        ForwardFrame fr \<Rightarrow>
          let (r, f) = fw_step vk_write (OpFrame fr) (d_forwarder d) in (r, d\<lparr>d_forwarder := f\<rparr>)
      | ReconcileDevice dv pressed \<Rightarrow>
          let (r, f) = fw_step vk_write (OpResync dv pressed) (d_forwarder d) in (r, d\<lparr>d_forwarder := f\<rparr>)
      | EmitAction act \<Rightarrow> (Inr (), d\<lparr>d_published := d_published d @ [act]\<rparr>))"

fun apply_outputs :: "engine_output list \<Rightarrow> daemon \<Rightarrow> (forward_error + unit) \<times> daemon" where
  "apply_outputs [] d = (Inr (), d)"
| "apply_outputs (out # outs) d =
     (case apply_output out d of (Inl e, d') \<Rightarrow> (Inl e, d') | (Inr _, d') \<Rightarrow> apply_outputs outs d')"

text \<open>\<open>apply\<close> of a result of the engine; the callers wrap its error.\<close>

definition apply_result ::
    "(forward_error \<Rightarrow> 'e daemon_error) \<Rightarrow> time \<Rightarrow> (engine_output list \<times> engine) option \<Rightarrow> daemon \<Rightarrow>
     (('e daemon_error + unit) \<times> daemon) option" where
  "apply_result wrap now result d = do {
     (outs, s) \<leftarrow> result;
     let (r, d') = apply_outputs outs (d\<lparr>d_engine := s\<rparr>);
     Some (case r of Inl e \<Rightarrow> (Inl (wrap e), d') | Inr _ \<Rightarrow> (Inr (), reset_timer now d')) }"

section \<open>The main loop\<close>

datatype 'e daemon_event =
    CtxDone time
  | ManagerReady "'e option"       \<comment> \<open>with the answer of \<open>systemd.Ready\<close>\<close>
  | ServerReady "'e option"
  | ServerStopped "'e option" time
  | TimerChannel time
  | MessageIn "'e message" time
  | MessagesClosed bool time       \<comment> \<open>with whether the context is cancelled\<close>
  | TimerExpires time              \<comment> \<open>the runtime, not a case of the select\<close>

definition notify_ready :: "'e option \<Rightarrow> daemon \<Rightarrow> 'e outcome \<times> daemon" where
  "notify_ready answer d =
     (if d_notified d \<or> d_server_wait d \<or> d_manager_wait d then (Running, d)
      else (case answer of
              Some e \<Rightarrow> (Returned (Some (NotifyError e)), d)
            | None \<Rightarrow> (Running, d\<lparr>d_notified := True\<rparr>)))"

definition ending :: "('e daemon_error + unit) \<times> daemon \<Rightarrow> 'e outcome \<times> daemon" where
  "ending rd = (case fst rd of Inl e \<Rightarrow> Returned (Some e) | Inr _ \<Rightarrow> Returned None, snd rd)"

definition continuing :: "('e daemon_error + unit) \<times> daemon \<Rightarrow> 'e outcome \<times> daemon" where
  "continuing rd = (case fst rd of Inl e \<Rightarrow> Returned (Some e) | Inr _ \<Rightarrow> Running, snd rd)"

definition and_apply :: "(('e daemon_error + unit) \<times> daemon) option \<Rightarrow>
    (daemon \<Rightarrow> (('e daemon_error + unit) \<times> daemon) option) \<Rightarrow> (('e daemon_error + unit) \<times> daemon) option" where
  "and_apply x f = do { (r, d) \<leftarrow> x; case r of Inl e \<Rightarrow> Some (Inl e, d) | Inr _ \<Rightarrow> f d }"

text \<open>The three parts of a message, each if it is there.\<close>

definition message_frame :: "config \<Rightarrow> 'e message \<Rightarrow> time \<Rightarrow> daemon \<Rightarrow> (('e daemon_error + unit) \<times> daemon) option" where
  "message_frame cfg m now d =
     (case msg_frame m of
        None \<Rightarrow> Some (Inr (), d)
      | Some fr \<Rightarrow> apply_result ForwardInput now (handle_frame cfg fr now (d_engine d)) d)"

definition message_resync :: "'e message \<Rightarrow> time \<Rightarrow> daemon \<Rightarrow> (('e daemon_error + unit) \<times> daemon) option" where
  "message_resync m now d =
     (case msg_resync m of
        None \<Rightarrow> Some (Inr (), d)
      | Some rs \<Rightarrow> apply_result (ResyncDevice (rs_device rs)) now
          (reconcile (rs_device rs) (rs_pressed rs) (d_engine d)) d)"

definition message_removed :: "'e message \<Rightarrow> time \<Rightarrow> daemon \<Rightarrow> (('e daemon_error + unit) \<times> daemon) option" where
  "message_removed m now d =
     (if msg_removed m = [] then Some (Inr (), d)
      else apply_result (ReleaseRemoved (msg_removed m)) now (reconcile (msg_removed m) [] (d_engine d)) d)"

definition handle_message :: "config \<Rightarrow> 'e message \<Rightarrow> time \<Rightarrow> daemon \<Rightarrow> (('e daemon_error + unit) \<times> daemon) option" where
  "handle_message cfg m now d =
     (case msg_err m of
        Some e \<Rightarrow> Some (Inl (ManagerError e), d)
      | None \<Rightarrow> and_apply (and_apply (message_frame cfg m now d) (message_resync m now)) (message_removed m now))"

definition close_daemon :: "time \<Rightarrow> daemon \<Rightarrow> ('e outcome \<times> daemon) option" where
  "close_daemon now d = map_option ending (apply_result ForwardClose now (close_engine (d_engine d)) d)"

text \<open>The value a receive from \<open>timer.C\<close> takes.\<close>

definition take_value :: "daemon \<Rightarrow> daemon" where
  "take_value d = d\<lparr>d_timer := map_option (\<lambda>x. x\<lparr>tm_value := None\<rparr>) (d_timer d)\<rparr>"

definition timer_value :: "daemon \<Rightarrow> time option" where
  "timer_value d = (case d_timer d of None \<Rightarrow> None | Some x \<Rightarrow> tm_value x)"

definition daemon_step :: "config \<Rightarrow> 'e daemon_event \<Rightarrow> daemon \<Rightarrow> ('e outcome \<times> daemon) option" where
  "daemon_step cfg ev d =
     (case ev of
        CtxDone now \<Rightarrow> close_daemon now d
      | ManagerReady answer \<Rightarrow> Some (notify_ready answer (d\<lparr>d_manager_wait := False\<rparr>))
      | ServerReady answer \<Rightarrow> Some (notify_ready answer (d\<lparr>d_server_wait := False\<rparr>))
      | ServerStopped err now \<Rightarrow>
          (case err of Some e \<Rightarrow> Some (Returned (Some (ServerError e)), d) | None \<Rightarrow> close_daemon now d)
      | TimerChannel now \<Rightarrow>
          (case timer_value d of
             None \<Rightarrow> Some (Running, d)
           | Some fired \<Rightarrow> map_option continuing
               (apply_result ForwardTimeout now (handle_timeout fired (d_engine d)) (take_value d)))
      | MessageIn m now \<Rightarrow> map_option continuing (handle_message cfg m now d)
      | MessagesClosed cancelled now \<Rightarrow>
          (if cancelled then close_daemon now d else Some (Returned (Some ManagerStopped), d))
      | TimerExpires now \<Rightarrow> Some (Running, d\<lparr>d_timer := map_option (expire_timer now) (d_timer d)\<rparr>))"

text \<open>A nil channel is never ready, an empty timer channel neither; the manager's devices are paths.\<close>

definition real_message :: "'e message \<Rightarrow> bool" where
  "real_message m \<longleftrightarrow> (case msg_frame m of None \<Rightarrow> True | Some fr \<Rightarrow> is_abs (fr_device fr)) \<and>
     (case msg_resync m of None \<Rightarrow> True | Some rs \<Rightarrow> is_abs (rs_device rs)) \<and>
     (msg_removed m = [] \<or> is_abs (msg_removed m))"

definition enabled :: "'e daemon_event \<Rightarrow> daemon \<Rightarrow> bool" where
  "enabled ev d =
     (case ev of
        ManagerReady _ \<Rightarrow> d_manager_wait d
      | ServerReady _ \<Rightarrow> d_server_wait d
      | TimerChannel _ \<Rightarrow> d_channel d \<and> timer_value d \<noteq> None
      | MessageIn m _ \<Rightarrow> real_message m
      | TimerExpires now \<Rightarrow> (case d_timer d of None \<Rightarrow> False | Some x \<Rightarrow>
          (case tm_due x of None \<Rightarrow> False | Some due \<Rightarrow> due \<le> now))
      | _ \<Rightarrow> True)"

inductive daemon_run :: "config \<Rightarrow> vk \<Rightarrow> 'e outcome \<Rightarrow> daemon \<Rightarrow> bool" for cfg v where
  start: "daemon_run cfg v Running (new_daemon v)"
| step: "daemon_run cfg v Running d \<Longrightarrow> enabled ev d \<Longrightarrow> daemon_step cfg ev d = Some (res, d') \<Longrightarrow>
    daemon_run cfg v res d'"

section \<open>The invariant\<close>

definition timer_ok :: "daemon \<Rightarrow> bool" where
  "timer_ok d \<longleftrightarrow> (d_channel d \<longleftrightarrow> engine_deadline (d_engine d) \<noteq> None) \<and>
     (\<forall>x. d_timer d = Some x \<longrightarrow> tm_due x = None \<or> tm_value x = None) \<and>
     (\<forall>deadline. engine_deadline (d_engine d) = Some deadline \<longrightarrow> (\<exists>x t. d_timer d = Some x \<and> deadline \<le> t \<and>
        (tm_due x = Some t \<or> tm_value x = Some t)))"

definition keys_ok :: "config \<Rightarrow> daemon \<Rightarrow> bool" where
  "keys_ok cfg d \<longleftrightarrow> engine_inv cfg (d_engine d) \<and> drained (d_engine d) \<and>
     shown (d_engine d) (device_keys (d_forwarder d)) \<and>
     fw_synced vk_log (d_forwarder d) \<and> vk_aligned (fw_output (d_forwarder d))"

lemma keys_ok_cong:
  "d_engine d' = d_engine d \<Longrightarrow> d_forwarder d' = d_forwarder d \<Longrightarrow> keys_ok cfg d' = keys_ok cfg d"
  by (simp add: keys_ok_def)

lemma timer_ok_cong:
  "d_engine d' = d_engine d \<Longrightarrow> d_timer d' = d_timer d \<Longrightarrow> d_channel d' = d_channel d \<Longrightarrow> timer_ok d' = timer_ok d"
  by (simp add: timer_ok_def)

text \<open>Applying an output that was written has the effect \<open>consume\<close> promises.\<close>

lemma apply_output_effect:
  assumes "apply_output out d = (Inr u, d')" "fw_synced vk_log (d_forwarder d)" "vk_aligned (fw_output (d_forwarder d))"
  shows "fw_synced vk_log (d_forwarder d')" "vk_aligned (fw_output (d_forwarder d'))"
    "device_keys (d_forwarder d') = consume out (device_keys (d_forwarder d))"
    "d_engine d' = d_engine d" "d_timer d' = d_timer d" "d_channel d' = d_channel d"
proof -
  have "fw_synced vk_log (d_forwarder d') \<and> vk_aligned (fw_output (d_forwarder d')) \<and>
    device_keys (d_forwarder d') = consume out (device_keys (d_forwarder d)) \<and>
    d_engine d' = d_engine d \<and> d_timer d' = d_timer d \<and> d_channel d' = d_channel d"
  proof (cases out)
    case (ForwardFrame fr)
    then obtain f where "fw_step vk_write (OpFrame fr) (d_forwarder d) = (Inr u, f)" "d' = d\<lparr>d_forwarder := f\<rparr>"
      using assms(1) by (auto simp: apply_output_def split: prod.splits)
    with vk.step_synced[OF this(1) assms(3,2)] show ?thesis by (simp add: ForwardFrame keys_step_def)
  next
    case (ReconcileDevice dv m)
    then obtain f where "fw_step vk_write (OpResync dv m) (d_forwarder d) = (Inr u, f)" "d' = d\<lparr>d_forwarder := f\<rparr>"
      using assms(1) by (auto simp: apply_output_def split: prod.splits)
    with vk.step_synced[OF this(1) assms(3,2)] show ?thesis by (simp add: ReconcileDevice keys_step_def)
  next
    case (EmitAction act)
    then show ?thesis using assms by (auto simp: apply_output_def)
  qed
  then show "fw_synced vk_log (d_forwarder d')" "vk_aligned (fw_output (d_forwarder d'))"
    "device_keys (d_forwarder d') = consume out (device_keys (d_forwarder d))"
    "d_engine d' = d_engine d" "d_timer d' = d_timer d" "d_channel d' = d_channel d" by simp_all
qed

lemma apply_outputs_effect:
  "apply_outputs outs d = (Inr u, d') \<Longrightarrow> fw_synced vk_log (d_forwarder d) \<Longrightarrow>
   vk_aligned (fw_output (d_forwarder d)) \<Longrightarrow>
   fw_synced vk_log (d_forwarder d') \<and> vk_aligned (fw_output (d_forwarder d')) \<and>
   device_keys (d_forwarder d') = fold consume outs (device_keys (d_forwarder d)) \<and>
   d_engine d' = d_engine d \<and> d_timer d' = d_timer d \<and> d_channel d' = d_channel d"
proof (induction outs arbitrary: d)
  case (Cons out outs)
  obtain r d1 where 1: "apply_output out d = (Inr r, d1)" "apply_outputs outs d1 = (Inr u, d')"
    using Cons.prems(1) by (auto split: prod.splits sum.splits)
  note one = apply_output_effect[OF 1(1) Cons.prems(2,3)]
  from Cons.IH[OF 1(2) one(1,2)] one(3-6) show ?case by simp
qed simp

lemma reset_timer_fields [simp]:
  "d_engine (reset_timer now d) = d_engine d" "d_forwarder (reset_timer now d) = d_forwarder d"
  "d_published (reset_timer now d) = d_published d" "d_notified (reset_timer now d) = d_notified d"
  "d_server_wait (reset_timer now d) = d_server_wait d" "d_manager_wait (reset_timer now d) = d_manager_wait d"
  by (simp_all add: reset_timer_def split: option.split)

text \<open>Whatever the timer held, afterwards it is due at the deadline, or at once when that is past.\<close>

lemma reset_timer_ok: "timer_ok (reset_timer now d)"
proof (cases "engine_deadline (d_engine d)")
  case None
  then show ?thesis by (auto simp: timer_ok_def reset_timer_def stop_timer_def)
next
  case (Some deadline)
  have "arm_timer now deadline (d_timer d) = \<lparr>tm_due = Some (max now deadline), tm_value = None\<rparr>"
    by (auto simp: arm_timer_def stop_timer_def drain_timer_def Let_def max_def split: option.split)
  then show ?thesis using Some by (auto simp: timer_ok_def reset_timer_def)
qed

lemma apply_result_ok:
  assumes "keys_ok cfg d" "real_input i" "apply_result wrap now (engine_step cfg i (d_engine d)) d = Some (Inr u, d')"
  shows "keys_ok cfg d'" "timer_ok d'"
proof -
  obtain outs s d1 where 1: "engine_step cfg i (d_engine d) = Some (outs, s)"
    "apply_outputs outs (d\<lparr>d_engine := s\<rparr>) = (Inr (), d1)" "d' = reset_timer now d1"
    using assms(3) by (auto simp: apply_result_def split: Option.bind_splits prod.splits sum.splits)
  have k: "engine_inv cfg (d_engine d)" "shown (d_engine d) (device_keys (d_forwarder d))"
    "fw_synced vk_log (d_forwarder d)" "vk_aligned (fw_output (d_forwarder d))"
    using assms(1) by (simp_all add: keys_ok_def)
  have "fw_synced vk_log (d_forwarder (d\<lparr>d_engine := s\<rparr>))" "vk_aligned (fw_output (d_forwarder (d\<lparr>d_engine := s\<rparr>)))"
    using k by simp_all
  note eff = apply_outputs_effect[OF 1(2) this]
  have "shown s (fold consume outs (device_keys (d_forwarder d)))"
    by (rule engine_step_shown[OF k(1,2) assms(2) 1(1)])
  then show "keys_ok cfg d'" using eff engine_step_inv[OF k(1) 1(1)] by (simp add: keys_ok_def 1(3))
  show "timer_ok d'" unfolding 1(3) by (rule reset_timer_ok)
qed

lemma apply_result_defined:
  assumes "keys_ok cfg d"
  shows "apply_result wrap now (engine_step cfg i (d_engine d)) d \<noteq> None"
proof -
  have "safe cfg (d_engine d)" using assms by (simp add: keys_ok_def engine_inv_def)
  from engine_step_safe[OF this, of i] show ?thesis by (auto simp: apply_result_def split: prod.split)
qed

definition daemon_ok :: "config \<Rightarrow> daemon \<Rightarrow> bool" where
  "daemon_ok cfg d \<longleftrightarrow> keys_ok cfg d \<and> timer_ok d"

lemma daemon_ok_new: "vk_taken v = [] \<Longrightarrow> daemon_ok cfg (new_daemon v)"
  using vk.new_synced[of v] vk_fresh[of v] engine_inv_new[of cfg] shown_new
  by (simp add: daemon_ok_def keys_ok_def timer_ok_def new_daemon_def engine_deadline_def)
    (simp add: new_engine_def new_forwarder_def)

definition apply_good :: "config \<Rightarrow> (('e daemon_error + unit) \<times> daemon) option \<Rightarrow> bool" where
  "apply_good cfg x \<longleftrightarrow> (\<exists>r d. x = Some (r, d) \<and> (\<forall>u. r = Inr u \<longrightarrow> daemon_ok cfg d))"

lemma apply_good_step:
  assumes "daemon_ok cfg d" "real_input i"
  shows "apply_good cfg (apply_result wrap now (engine_step cfg i (d_engine d)) d)"
proof -
  have k: "keys_ok cfg d" using assms(1) by (simp add: daemon_ok_def)
  obtain r d' where 1: "apply_result wrap now (engine_step cfg i (d_engine d)) d = Some (r, d')"
    using apply_result_defined[OF k] by fastforce
  show ?thesis
    using apply_result_ok[OF k assms(2), of wrap now _ d'] 1 by (auto simp: apply_good_def daemon_ok_def)
qed

lemma apply_good_skip: "daemon_ok cfg d \<Longrightarrow> apply_good cfg (Some (Inr u, d))"
  by (simp add: apply_good_def)

lemma apply_good_and:
  "apply_good cfg x \<Longrightarrow> (\<And>d. daemon_ok cfg d \<Longrightarrow> apply_good cfg (f d)) \<Longrightarrow> apply_good cfg (and_apply x f)"
  by (fastforce simp: apply_good_def and_apply_def split: sum.split)

lemma handle_message_good:
  assumes "daemon_ok cfg d" "real_message m"
  shows "apply_good cfg (handle_message cfg m now d)"
proof -
  have "apply_good cfg (message_frame cfg m now d)" if "daemon_ok cfg d" for d
    using apply_good_step[OF that, of "FrameIn (the (msg_frame m)) now"] apply_good_skip[OF that] assms(2)
    by (auto simp: message_frame_def real_message_def real_input_def split: option.split)
  moreover have "apply_good cfg (message_resync m now d)" if "daemon_ok cfg d" for d
    using apply_good_step[OF that, of "ReconcileIn (rs_device (the (msg_resync m))) (rs_pressed (the (msg_resync m)))"]
      apply_good_skip[OF that] assms(2)
    by (auto simp: message_resync_def real_message_def real_input_def split: option.split)
  moreover have "apply_good cfg (message_removed m now d)" if "daemon_ok cfg d" for d
    using apply_good_step[OF that, of "ReconcileIn (msg_removed m) []"] apply_good_skip[OF that] assms(2)
    by (auto simp: message_removed_def real_message_def real_input_def)
  moreover have "apply_good cfg (Some (Inl e, d))" for e :: "'a daemon_error" and d by (simp add: apply_good_def)
  ultimately show ?thesis
    using assms(1) by (auto simp: handle_message_def intro!: apply_good_and split: option.split)
qed

lemma take_value_ok: "keys_ok cfg (take_value d) = keys_ok cfg d"
  by (rule keys_ok_cong) (simp_all add: take_value_def)

lemma close_daemon_defined:
  assumes "daemon_ok cfg d"
  shows "\<exists>(r :: 'e daemon_error option) d'. close_daemon now d = Some (Returned r, d')"
proof -
  have "keys_ok cfg d" using assms by (simp add: daemon_ok_def)
  then obtain r :: "'e daemon_error + unit" and d' where
    "apply_result ForwardClose now (close_engine (d_engine d)) d = Some (r, d')"
    using apply_result_defined[of cfg d ForwardClose now CloseIn] by fastforce
  then have "close_daemon now d = Some (ending (r, d'))" by (simp add: close_daemon_def)
  then show ?thesis by (cases r) (simp_all add: ending_def)
qed

text \<open>Every event that can happen is handled without a panic, and the loop goes on in a good state.\<close>

lemma daemon_step_ok:
  fixes ev :: "'e daemon_event"
  assumes "daemon_ok cfg d" "enabled ev d"
  shows "\<exists>res d'. daemon_step cfg ev d = Some (res, d') \<and> (res = Running \<longrightarrow> daemon_ok cfg d')"
proof (cases ev)
  case (CtxDone now)
  then show ?thesis using close_daemon_defined[OF assms(1), of now] by (auto simp: daemon_step_def)
next
  case (ManagerReady answer)
  have "daemon_ok cfg (d\<lparr>d_manager_wait := False\<rparr>)" "daemon_ok cfg (d\<lparr>d_manager_wait := False, d_notified := True\<rparr>)"
    using assms(1) by (simp_all add: daemon_ok_def keys_ok_def timer_ok_def)
  then show ?thesis using ManagerReady by (auto simp: daemon_step_def notify_ready_def split: option.split)
next
  case (ServerReady answer)
  have "daemon_ok cfg (d\<lparr>d_server_wait := False\<rparr>)" "daemon_ok cfg (d\<lparr>d_server_wait := False, d_notified := True\<rparr>)"
    using assms(1) by (simp_all add: daemon_ok_def keys_ok_def timer_ok_def)
  then show ?thesis using ServerReady by (auto simp: daemon_step_def notify_ready_def split: option.split)
next
  case (ServerStopped err now)
  then show ?thesis using close_daemon_defined[OF assms(1), of now]
    by (auto simp: daemon_step_def split: option.split)
next
  case (TimerChannel now)
  then obtain fired where fired: "timer_value d = Some fired" using assms(2) by (auto simp: enabled_def)
  have k: "keys_ok cfg (take_value d)" using assms(1) by (simp add: take_value_ok daemon_ok_def)
  have e: "d_engine (take_value d) = d_engine d" by (simp add: take_value_def)
  obtain r :: "'e daemon_error + unit" and d' where 1:
    "apply_result ForwardTimeout now (handle_timeout fired (d_engine d)) (take_value d) = Some (r, d')"
    using apply_result_defined[OF k, of ForwardTimeout now "TimeoutIn fired"] by (fastforce simp: e)
  have "daemon_ok cfg d'" if "r = Inr u" for u
    using apply_result_ok[OF k, of "TimeoutIn fired" "ForwardTimeout :: _ \<Rightarrow> 'e daemon_error" now u d'] 1 that
    by (simp add: e daemon_ok_def real_input_def)
  then show ?thesis using TimerChannel 1 fired
    by (auto simp: daemon_step_def continuing_def split: sum.split)
next
  case (MessageIn m now)
  then have "apply_good cfg (handle_message cfg m now d)"
    using handle_message_good[OF assms(1)] assms(2) by (simp add: enabled_def)
  then obtain r d' where "handle_message cfg m now d = Some (r, d')" "\<forall>u. r = Inr u \<longrightarrow> daemon_ok cfg d'"
    by (auto simp: apply_good_def)
  then show ?thesis using MessageIn by (cases r) (simp_all add: daemon_step_def continuing_def)
next
  case (MessagesClosed cancelled now)
  then show ?thesis using close_daemon_defined[OF assms(1), of now] by (auto simp: daemon_step_def)
next
  case (TimerExpires now)
  then obtain x due where x: "d_timer d = Some x" "tm_due x = Some due" "due \<le> now"
    using assms(2) by (auto simp: enabled_def split: option.splits)
  have v: "tm_value x = None" using assms(1) x by (auto simp: daemon_ok_def timer_ok_def)
  have "timer_ok (d\<lparr>d_timer := Some (expire_timer now x)\<rparr>)"
    using assms(1) x v by (fastforce simp: daemon_ok_def timer_ok_def expire_timer_def)
  moreover have "keys_ok cfg (d\<lparr>d_timer := Some (expire_timer now x)\<rparr>)"
    using assms(1) by (simp add: daemon_ok_def keys_ok_def)
  ultimately show ?thesis using TimerExpires x by (simp add: daemon_step_def daemon_ok_def)
qed

lemma daemon_run_ok: "daemon_run cfg v res d \<Longrightarrow> vk_taken v = [] \<Longrightarrow> res = Running \<Longrightarrow> daemon_ok cfg d"
proof (induction rule: daemon_run.induct)
  case start
  then show ?case by (simp add: daemon_ok_new)
next
  case (step d ev res d')
  then have "daemon_ok cfg d" by simp
  from daemon_step_ok[OF this step.hyps(2)] step.hyps(3) step.prems(2) show ?case by auto
qed

end
