(* ===== verification/Engine_Received.thy ===== *)
theory Engine_Received
  imports Engine_Output Forwarder
begin

text \<open>
  What the engine holds against what it was told.  \<open>received\<close> says which keys are down on which device
  from the inputs alone: a frame applies its key events to its device, a resynchronisation replaces
  the keys of a device, a shutdown lets go of all.  The physical state has exactly these keys after
  every run.  The second part says what a shutdown sends for each held output, the third that a
  binding candidate keeps its match.
\<close>

section \<open>The keys received\<close>

type_synonym keys_down = "device \<Rightarrow> u16 set"

fun received :: "engine_input \<Rightarrow> keys_down \<Rightarrow> keys_down" where
  "received (FrameIn fr now) H = H(fr_device fr := fold apply_key (fr_events fr) (H (fr_device fr)))"
| "received (TimeoutIn now) H = H"
| "received (ReconcileIn d pressed) H = H(d := {c. gm_true pressed c})"
| "received CloseIn H = (\<lambda>_. {})"

definition keys_of :: "engine \<Rightarrow> keys_down" where
  "keys_of s d = {c. phys s d c \<noteq> None}"

lemma keys_same: "e_physical s' = e_physical s \<Longrightarrow> keys_of s' = keys_of s"
  by (simp add: keys_of_def phys_def phys_dev_def fun_eq_iff)

lemma keys_follow: "follows s s' \<Longrightarrow> keys_of s' = keys_of s"
  by (rule keys_same) (simp add: follows_def)

lemma keys_ingest:
  assumes "phys_ok s" "ingest d ev s = (p, tr, s')"
  shows "keys_of s' = (keys_of s)(d := apply_key ev (keys_of s d))"
proof (cases "ev_type ev = EVKey")
  case False
  then have "s' = s" using assms(2) by (simp add: ingest_def)
  then show ?thesis using False by (simp add: apply_key_def)
next
  case key: True
  have dn: "down_ok s" using assms(1) by (simp add: phys_ok_def)
  consider "ev_value ev = 1" | "ev_value ev = 0" | "ev_value ev \<noteq> 0" "ev_value ev \<noteq> 1" by blast
  then show ?thesis
  proof cases
    case 1
    then have "s' = (if phys s d (ev_code ev) = None then snd (new_press d (ev_code ev) s) else s)"
      using assms(2) key by (auto simp: ingest_def split_beta split: option.splits)
    then show ?thesis using key 1
      by (auto simp: keys_of_def apply_key_def fun_eq_iff phys_new_press)
  next
    case 2
    then have s': "s' = (case phys s d (ev_code ev) of None \<Rightarrow> s | Some q \<Rightarrow> release q s)"
      using assms(2) key by (auto simp: ingest_def Let_def split: option.splits)
    have "p_down (pr s q)" "p_device (pr s q) = d" "p_code (pr s q) = ev_code ev"
      if "phys s d (ev_code ev) = Some q" for q using that dn by (simp_all add: down_ok_def)
    then show ?thesis using key 2 s'
      by (auto simp: keys_of_def apply_key_def fun_eq_iff phys_release[OF dn] split: option.splits if_splits)
  next
    case 3
    then have "s' = s" using assms(2) key by (auto simp: ingest_def Let_def split: if_splits option.splits)
    then show ?thesis using key 3 by (simp add: apply_key_def)
  qed
qed

lemma keys_held_outputs:
  assumes "loop_ok cfg L" "held_outputs tr L = Some L'"
  shows "keys_of (l_eng L') = keys_of (l_eng L)"
proof (cases tr)
  case None
  then show ?thesis using assms(2) by (simp add: held_outputs_def)
next
  case (Some t)
  obtain outs s2 where act: "activation_events t (l_eng L) = (outs, s2)" by (metis surj_pair)
  have ok: "loop_ok cfg (L\<lparr>l_eng := s2\<rparr>)"
    using assms(1) safe_activation_events[OF _ act] activation_events_frame(3)[OF act] by (simp add: loop_ok_def)
  have "keys_of s2 = keys_of (l_eng L)" by (rule keys_same) (rule activation_events_frame(1)[OF act])
  moreover have "keys_of (failed s2) = keys_of s2" by (rule keys_same) simp
  ultimately show ?thesis using assms(2) Some act fail_loop_ok[OF ok]
    by (auto simp: held_outputs_def split: if_splits)
qed

lemma keys_frame_event:
  assumes "loop_inv cfg L" "frame_event cfg d now ev L = Some L'"
  shows "keys_of (l_eng L') = (keys_of (l_eng L))(d := apply_key ev (keys_of (l_eng L) d))"
proof -
  obtain p tr s1 where ing: "ingest d ev (l_eng L) = (p, tr, s1)" by (metis surj_pair)
  let ?ch = "hidden_chatter ev p (tr \<noteq> None) s1"
  let ?L2 = "record_event ev p tr ?ch (L\<lparr>l_eng := s1\<rparr>)"
  have ok: "loop_ok cfg L" "phys_ok (l_eng L)" using assms(1) by (simp_all add: loop_inv_def)
  obtain L3 where L3: "held_outputs tr ?L2 = Some L3" "loop_ok cfg L3" "new_to L3 tr"
    by (rule frame_event_stages[OF ok(1) ing])
  have "loop_ok cfg ?L2" using record_event_inv[OF assms(1) ing, of ?ch] by (simp add: loop_inv_def)
  from keys_held_outputs[OF this L3(1)] keys_ingest[OF ok(2) ing]
  have keys: "keys_of (l_eng L3) = (keys_of (l_eng L))(d := apply_key ev (keys_of (l_eng L) d))" by simp
  have "keys_of (l_eng L') = keys_of (l_eng L3)" if "tr = Some t" "frame_match cfg t now L3 = Some L'" for t
    using frame_match_safe[OF L3(2), of t now] L3(3) that by (auto simp: new_to_def keys_follow)
  moreover have "keys_of (failed (l_eng L3)) = keys_of (l_eng L3)" by (rule keys_same) simp
  ultimately show ?thesis
    using assms(2) L3(1) keys fail_loop_ok[OF L3(2)]
    by (auto simp: frame_event_def ing split: if_splits option.splits)
qed

lemma keys_frame_events:
  "loop_inv cfg L \<Longrightarrow> frame_events cfg d now evs L = Some L' \<Longrightarrow>
   keys_of (l_eng L') = (keys_of (l_eng L))(d := fold apply_key evs (keys_of (l_eng L) d))"
proof (induction evs arbitrary: L)
  case (Cons ev evs)
  then obtain L1 where 1: "frame_event cfg d now ev L = Some L1" "frame_events cfg d now evs L1 = Some L'"
    by (auto split: Option.bind_splits)
  from Cons.IH[OF frame_event_inv[OF Cons.prems(1) 1(1)] 1(2)] keys_frame_event[OF Cons.prems(1) 1(1)]
  show ?case by (simp add: fun_eq_iff)
qed simp

lemma keys_finish_frame:
  assumes "loop_inv cfg L" "finish_frame cfg now L = Some s'"
  shows "keys_of s' = keys_of (l_eng L)"
proof -
  have ok: "loop_ok cfg L" using assms(1) by (simp add: loop_inv_def)
  let ?reserved = "e_mode (l_eng L) = ModeReserved \<and>
    list_ex (escapes_reservation (l_eng L)) (j_events (l_frame L))"
  have "keys_of (failed (l_eng L)) = keys_of (l_eng L)" by (rule keys_same) simp
  then obtain L1 where L1: "(if ?reserved then fail_loop L else Some L) = Some L1" "loop_ok cfg L1"
    "keys_of (l_eng L1) = keys_of (l_eng L)"
    using fail_loop_ok[OF ok] loop_ok_failed[OF ok] ok by (cases ?reserved) simp_all
  define s1 where "s1 = (l_eng L1)\<lparr>e_journal := e_journal (l_eng L1) @ [l_frame L1]\<rparr>"
  have "safe cfg s1" using L1(2) by (simp add: s1_def loop_ok_def)
  then obtain s2 where s2: "(if l_failed L1 then Some s1 else complete cfg now s1) = Some s2" "follows s1 s2"
    using complete_safe[of cfg s1 now] by (cases "l_failed L1") auto
  have "keys_of s1 = keys_of (l_eng L1)" by (rule keys_same) (simp add: s1_def)
  moreover have "keys_of (forward_fresh (l_fresh L1) s2) = keys_of s1"
    using keys_follow[OF follows_forward_fresh] keys_follow[OF s2(2)] by simp
  moreover have "keys_of (t\<lparr>e_journal := js\<rparr>) = keys_of t" for t js by (rule keys_same) simp
  ultimately show ?thesis
    using assms(2) L1(3) unfolding finish_frame_def Let_def L1(1) Option.bind.bind_lunit s1_def[symmetric] s2(1)
    by (auto split: if_splits)
qed

lemma keys_drain: "drain s = (outs, s') \<Longrightarrow> keys_of s' = keys_of s"
  using drain_state[of s] by (intro keys_same) simp

lemma keys_timeout:
  assumes "engine_inv cfg s" "handle_timeout now s = Some (outs, s')"
  shows "keys_of s' = keys_of s"
proof -
  have "safe cfg s" using assms(1) by (simp add: engine_inv_def)
  then have "drain (if expired now s then failed s else s) = (outs, s')"
    using assms(2) fail_failed[of cfg s] by (cases "expired now s") (simp_all add: handle_timeout_def)
  from keys_drain[OF this] have "keys_of s' = keys_of (if expired now s then failed s else s)" .
  moreover have "keys_of (failed s) = keys_of s" by (rule keys_same) simp
  ultimately show ?thesis by (simp split: if_splits)
qed

lemma keys_frame:
  assumes "engine_inv cfg s" "handle_frame cfg fr now s = Some (outs, s')"
  shows "keys_of s' = received (FrameIn fr now) (keys_of s)"
proof -
  from assms(2) obtain outs1 s1 L s2 outs2 where 1: "handle_timeout now s = Some (outs1, s1)"
    "frame_events cfg (fr_device fr) now (fr_events fr) (new_loop (fr_device fr) s1) = Some L"
    "finish_frame cfg now L = Some s2" "drain s2 = (outs2, s')"
    by (auto simp: handle_frame_def split: Option.bind_splits prod.splits)
  have new: "loop_inv cfg (new_loop (fr_device fr) s1)"
    using handle_timeout_inv[OF assms(1) 1(1)] loop_inv_new by simp
  have "l_eng (new_loop (fr_device fr) s1) = s1" by (simp add: new_loop_def)
  with keys_timeout[OF assms(1) 1(1)] keys_frame_events[OF new 1(2)]
    keys_finish_frame[OF frame_events_inv[OF new 1(2)] 1(3)] keys_drain[OF 1(4)]
  show ?thesis by simp
qed

lemma keys_step:
  assumes "engine_inv cfg s" "engine_step cfg i s = Some (outs, s')"
  shows "keys_of s' = received i (keys_of s)"
proof (cases i)
  case (FrameIn fr now)
  then show ?thesis using keys_frame[OF assms(1)] assms(2) by simp
next
  case (TimeoutIn now)
  then show ?thesis using keys_timeout[OF assms(1)] assms(2) by simp
next
  case (ReconcileIn d pressed)
  then have "reconcile d pressed s = Some (outs, s')" using assms(2) by simp
  from reconcile_result[OF assms(1) this] ReconcileIn show ?thesis by (auto simp: keys_of_def fun_eq_iff)
next
  case CloseIn
  then have "close_engine s = Some (outs, s')" using assms(2) by simp
  from close_result[OF assms(1) this] CloseIn show ?thesis by (auto simp: keys_of_def fun_eq_iff)
qed

lemma keys_run:
  "engine_inv cfg s \<Longrightarrow> run_steps (engine_step cfg) ins s = Some (outs, s') \<Longrightarrow>
   keys_of s' = fold received ins (keys_of s)"
proof (induction ins arbitrary: s outs)
  case (Cons i ins)
  then obtain o1 s1 o2 where 1: "engine_step cfg i s = Some (o1, s1)"
    "run_steps (engine_step cfg) ins s1 = Some (o2, s')"
    by (auto split: Option.bind_splits prod.splits)
  from Cons.IH[OF _ 1(2)] engine_step_inv[OF Cons.prems(1) 1(1)] keys_step[OF Cons.prems(1) 1(1)]
  show ?case by simp
qed simp

lemma keys_engine_run:
  assumes "engine_run cfg ins = Some (outs, s)"
  shows "keys_of s = fold received ins (\<lambda>_. {})"
proof -
  have "keys_of new_engine = (\<lambda>_. {})" by (simp add: keys_of_def phys_def phys_dev_def new_engine_def fun_eq_iff)
  then show ?thesis using keys_run[of cfg new_engine ins outs s] engine_inv_new assms by (simp add: engine_run_def)
qed

section \<open>What a shutdown sends\<close>

text \<open>The end of a held output in a journal and in what was sent: its release, then its clean-up.\<close>

definition end_queued :: "device \<Rightarrow> u16 \<Rightarrow> journal_frame list \<Rightarrow> bool" where
  "end_queued d k js \<longleftrightarrow> (\<exists>js1 f1 f2 js2. js = js1 @ [f1, f2] @ js2 \<and>
     j_events f1 = [recorded_output (key_output d k 0) None] \<and>
     j_events f2 = [recorded_output (ReconcileDevice d []) None])"

definition end_sent :: "device \<Rightarrow> u16 \<Rightarrow> engine_output list \<Rightarrow> bool" where
  "end_sent d k outs \<longleftrightarrow> (\<exists>xs ys. outs = xs @ [key_output d k 0, ReconcileDevice d []] @ ys)"

lemma end_queued_append: "end_queued d k js \<Longrightarrow> end_queued d k (js @ fs)"
  unfolding end_queued_def by (metis append.assoc)

lemma end_queued_appends: "end_queued d k (e_journal s) \<Longrightarrow> appends s s' \<Longrightarrow> end_queued d k (e_journal s')"
  by (auto simp: appends_def intro: end_queued_append)

lemma stop_queues_end: "end_queued (a_device (e_acts s a)) (a_target (e_acts s a)) (e_journal (stop_activation a s))"
  unfolding end_queued_def
  by (rule exI[of _ "e_journal s"]) (auto simp: stop_activation_def Let_def queue_output_def)

lemma stop_keeps_names:
  "a_device (e_acts (stop_activation b s) a) = a_device (e_acts s a)"
  "a_target (e_acts (stop_activation b s) a) = a_target (e_acts s a)"
  by (simp_all add: stop_activation_def Let_def queue_output_def)

lemma appends_fold: "(\<And>x s. appends s (f x s)) \<Longrightarrow> appends s (fold f xs s)"
proof (induction xs arbitrary: s)
  case (Cons x xs)
  then show ?case using appends_trans by fastforce
qed (simp add: appends_same)

lemma stop_all_queues_ends:
  "a \<in> set as \<Longrightarrow> end_queued (a_device (e_acts s a)) (a_target (e_acts s a)) (e_journal (fold stop_activation as s))"
proof (induction as arbitrary: s)
  case (Cons b as)
  show ?case
  proof (cases "a = b")
    case True
    have "appends (stop_activation a s) (fold stop_activation as (stop_activation a s))"
      by (rule appends_fold) (rule appends_stop_activation)
    from end_queued_appends[OF stop_queues_end this] show ?thesis using True by simp
  next
    case False
    then show ?thesis using Cons.IH[of "stop_activation b s"] Cons.prems by (simp add: stop_keeps_names)
  qed
qed simp

lemma appends_close_device: "appends s (close_device d s)"
proof -
  have "appends s (fold (\<lambda>(c, p). release p) (phys_dev s d) s)"
    by (rule appends_fold) (simp add: appends_same split_beta)
  then show ?thesis unfolding close_device_def by (blast intro: appends_trans appends_queue_output)
qed

lemma queued_end_sent: "end_queued d k js \<Longrightarrow> end_sent d k (concat (map (frame_outputs s) js))"
proof -
  assume "end_queued d k js"
  then obtain js1 f1 f2 js2 where 1: "js = js1 @ [f1, f2] @ js2"
    "frame_outputs s f1 = [key_output d k 0]" "frame_outputs s f2 = [ReconcileDevice d []]"
    by (auto simp: end_queued_def frame_outputs_generated)
  show ?thesis unfolding end_sent_def
    by (rule exI[of _ "concat (map (frame_outputs s) js1)"], rule exI[of _ "concat (map (frame_outputs s) js2)"])
      (simp add: 1)
qed

lemma close_ends_outputs:
  assumes "engine_inv cfg s" "close_engine s = Some (outs, s')" "a \<in> set (e_active s)"
  shows "end_sent (a_device (e_acts s a)) (a_target (e_acts s a)) outs"
proof -
  let ?d = "a_device (e_acts s a)" and ?k = "a_target (e_acts s a)"
  define s1 where "s1 = fold stop_activation (e_active s) (drop_presses (failed s))"
  define s2 where "s2 = s1\<lparr>e_active := []\<rparr>"
  define s3 where "s3 = fold close_device (sort (gm_keys (e_physical s2))) s2"
  have inv1: "engine_inv cfg s1"
    unfolding s1_def by (rule fold_invariant) (simp_all add: inv_stop_activation inv_drop_presses inv_failed assms(1))
  have "journal_ok s1" "safe cfg s1" using inv1 by (simp_all add: engine_inv_def)
  moreover from this have "journal_ok s2" using journal_ok_mono[of s1 s2] by (simp add: s2_def)
  ultimately have inv2: "engine_inv cfg s2" by (intro inv_cong[OF inv1]) (simp_all add: s2_def)
  have inv3: "engine_inv cfg s3" "e_seq s3 = None"
    using close_devices_result[OF inv2, of "sort (gm_keys (e_physical s2))", folded s3_def]
    by (simp_all add: s2_def s1_def fold_stop_frame drop_presses_def)
  have "safe cfg s" using assms(1) by (simp add: engine_inv_def)
  then have "drain s3 = (outs, s')"
    using assms(2) fail_failed[of cfg s] by (simp add: close_engine_def s1_def s2_def s3_def)
  then have outs: "outs = concat (map (frame_outputs s3) (e_journal s3))" using drain_all[OF inv3] by simp
  have acts: "e_acts (drop_presses (failed s)) = e_acts s" by (simp add: drop_presses_def)
  have "end_queued ?d ?k (e_journal s1)"
    using stop_all_queues_ends[OF assms(3), of "drop_presses (failed s)"] unfolding s1_def acts .
  then have "end_queued ?d ?k (e_journal s2)" by (simp add: s2_def)
  moreover have "appends s2 s3" unfolding s3_def by (rule appends_fold) (rule appends_close_device)
  ultimately have "end_queued ?d ?k (e_journal s3)" by (rule end_queued_appends)
  then show ?thesis unfolding outs by (rule queued_end_sent)
qed

text \<open>Without a candidate every press that was ever made is decided.\<close>

lemma all_decided:
  assumes "engine_inv cfg s" "e_seq s = None" "0 < p" "p \<le> e_next_id s"
  shows "p_route (pr s p) \<noteq> Undecided"
  using no_undecided[OF assms(1,2)] assms(3,4) by (auto simp: undecided_def known_def)

section \<open>The match of a binding candidate\<close>

text \<open>
  In binding mode the indices of a candidate range over the bindings of the active prefix.  A press
  keeps the bindings that contain its key, and the first of them that is complete becomes the match.
\<close>

definition next_possible :: "source \<Rightarrow> logical \<Rightarrow> candidate \<Rightarrow> nat list" where
  "next_possible src k x = filter (\<lambda>i. k \<in> set (b_keys (src_bindings src ! i))) (c_possible x)"

definition next_match :: "source \<Rightarrow> pid \<Rightarrow> logical \<Rightarrow> candidate \<Rightarrow> nat option" where
  "next_match src p k x =
     (case find (\<lambda>i. list_all (key_held (add_member p k x)) (b_keys (src_bindings src ! i))) (next_possible src k x) of
        None \<Rightarrow> c_matched x
      | Some i \<Rightarrow> Some i)"

lemma chord_binding:
  "e_mode s = ModeBindingCandidate \<Longrightarrow> prefix_at cfg (e_active_prefix s) = Some src \<Longrightarrow>
   i < length (src_bindings src) \<Longrightarrow> chord cfg s i = Some (b_keys (src_bindings src ! i))"
  by (simp add: chord_def slice_at_def)

lemma keep_possible_binding:
  assumes "e_mode s = ModeBindingCandidate" "prefix_at cfg (e_active_prefix s) = Some src"
    "\<forall>i\<in>set is. i < length (src_bindings src)"
  shows "keep_possible cfg s k is = Some (filter (\<lambda>i. k \<in> set (b_keys (src_bindings src ! i))) is)"
  using assms(3) by (induction "is") (simp_all add: chord_binding[OF assms(1,2)])

lemma first_complete_binding:
  assumes "e_mode s = ModeBindingCandidate" "prefix_at cfg (e_active_prefix s) = Some src"
    "\<forall>i\<in>set is. i < length (src_bindings src)"
  shows "first_complete cfg s x is = Some (map_option (\<lambda>i. (i, b_keys (src_bindings src ! i)))
    (find (\<lambda>i. list_all (key_held x) (b_keys (src_bindings src ! i))) is))"
  using assms(3) by (induction "is") (simp_all add: chord_binding[OF assms(1,2)])

lemma key_held_possible [simp]: "key_held (x\<lparr>c_possible := is\<rparr>) = key_held x"
  by (simp add: key_held_def fun_eq_iff split: option.split)

lemma binding_press:
  assumes "safe cfg s" "e_mode s = ModeBindingCandidate" "e_seq s = Some c"
    "prefix_at cfg (e_active_prefix s) = Some src" "x = e_cands s c" "k = p_logical (pr s p)"
    "p \<notin> set (owned_of s)" "p \<le> e_next_id s" "p_route (pr s p) = Undecided"
  shows "if next_possible src k x = []
    then \<exists>s2. advance_press cfg p now c s = Some (False, s2) \<and> e_mode s2 = ModeIdle \<and> e_seq s2 = None
    else \<exists>s2. advance_press cfg p now c s = Some (True, s2) \<and> e_mode s2 = ModeBindingCandidate \<and> e_seq s2 = Some c \<and>
      c_possible (e_cands s2 c) = next_possible src k x \<and> c_matched (e_cands s2 c) = next_match src p k x"
proof -
  let ?s1 = "upd_cand c (add_member p k) s"
  let ?s2 = "upd_cand c (\<lambda>x. x\<lparr>c_possible := next_possible src k (e_cands s c)\<rparr>) ?s1"
  have pos: "\<forall>i\<in>set (c_possible x). i < length (src_bindings src)"
    using assms(1-5) by (auto simp: safe_def indices_ok_def chord_count_def)
  then have pos': "\<forall>i\<in>set (next_possible src k x). i < length (src_bindings src)"
    by (simp add: next_possible_def)
  have keep: "keep_possible cfg ?s1 k (c_possible (e_cands ?s1 c)) = Some (next_possible src k (e_cands s c))"
    using keep_possible_binding[of ?s1 cfg src "c_possible x" k] assms(2,4,5) pos
    by (simp add: next_possible_def)
  show ?thesis
  proof (cases "next_possible src k x = []")
    case True
    have "advance_press cfg p now c s = do { s' \<leftarrow> fail ?s2; Some (False, s') }"
      using True assms(5) unfolding advance_press_def Let_def assms(6)[symmetric] keep by simp
    moreover have "advance_press cfg p now c s \<noteq> None"
      using advance_press_safe[OF assms(1,3,7,8,9), of now] by (auto simp: advances_def)
    ultimately obtain s2 where "fail ?s2 = Some s2" "advance_press cfg p now c s = Some (False, s2)"
      by (auto split: Option.bind_splits)
    then show ?thesis using True by (auto simp: fail_def idle_def split: Option.bind_splits)
  next
    case False
    have first: "first_complete cfg ?s2 (e_cands ?s2 c) (next_possible src k (e_cands s c)) =
        Some (map_option (\<lambda>i. (i, b_keys (src_bindings src ! i)))
          (find (\<lambda>i. list_all (key_held (add_member p k x)) (b_keys (src_bindings src ! i))) (next_possible src k x)))"
      using first_complete_binding[of ?s2 cfg src "next_possible src k x" "e_cands ?s2 c"] assms(2,4,5) pos'
      by simp
    then show ?thesis
      using False assms(2,3,5) unfolding advance_press_def Let_def assms(6)[symmetric] keep
      by (auto simp: next_match_def split: option.splits)
  qed
qed

lemma advance_binding:
  assumes "engine_inv cfg s" "e_mode s = ModeBindingCandidate" "e_seq s = Some c"
    "prefix_at cfg (e_active_prefix s) = Some src" "ingest d (key_event code 1) s = (Some p, Some t, s1)"
    "t_count_after t = 1" "x = e_cands s c" "k = canonical code"
  shows "if next_possible src k x = []
    then \<exists>s2. advance cfg t now s1 = Some (False, s2) \<and> e_mode s2 = ModeIdle \<and> e_seq s2 = None
    else \<exists>s2. advance cfg t now s1 = Some (True, s2) \<and> e_mode s2 = ModeBindingCandidate \<and> e_seq s2 = Some c \<and>
      c_possible (e_cands s2 c) = next_possible src k x \<and> c_matched (e_cands s2 c) = next_match src p k x"
proof -
  have saf: "safe cfg s" using assms(1) by (simp add: engine_inv_def)
  have val: "t_value t = 1" "t_press t = p" using ingest_transition(1,2)[OF assms(5)] by simp_all
  have new: "p = Suc (e_next_id s)" "s1 = snd (new_press d code s)"
    using ingest_transition(4)[OF assms(5) val(1)] val(2) by simp_all
  have own: "owned_of s1 = owned_of s" by (rule ingest_owned[OF assms(5)])
  have st: "safe cfg s1" "e_mode s1 = ModeBindingCandidate" "e_seq s1 = Some c"
    "prefix_at cfg (e_active_prefix s1) = Some src" "x = e_cands s1 c" "k = p_logical (pr s1 p)"
    "p \<notin> set (owned_of s1)" "p \<le> e_next_id s1" "p_route (pr s1 p) = Undecided"
    using safe_ingest[OF saf assms(5)] assms(2-4,7,8) new own saf
    by (auto simp: safe_def owned_ok_def)
  have "advance cfg t now s1 = advance_press cfg p now c s1"
    using st assms(6) val by (simp add: advance_def Let_def)
  then show ?thesis using binding_press[OF st, of now] by simp
qed

lemma binding_complete:
  assumes "safe cfg s" "e_mode s = ModeBindingCandidate" "e_seq s = Some c" "c_matched (e_cands s c) = Some m"
    "prefix_at cfg (e_active_prefix s) = Some src"
    "\<not> list_ex (\<lambda>(k, p). gm_true (c_held (e_cands s c)) p) (c_members (e_cands s c))"
  shows "\<exists>s'. complete cfg now s = Some s' \<and> e_mode s' = ModeIdle \<and> e_seq s' = None \<and>
    e_journal s' = e_journal (queue_output (EmitAction (b_action (src_bindings src ! m))) s) \<and>
    (\<forall>p\<in>set (owned_of s). p_route (pr s' p) = Consumed)"
proof -
  have "m < length (src_bindings src)" using assms(1-5) by (auto simp: safe_def indices_ok_def chord_count_def)
  moreover have "resolve Consumed s = Some (resolved Consumed s)" using assms(1) by (simp add: resolve_ok safe_def)
  ultimately show ?thesis
    using assms by (auto simp: complete_def slice_at_def queue_output_def resolved_presses)
qed

end
