(* ===== verification/Engine_Properties.thy ===== *)
theory Engine_Properties
  imports Engine_Received
begin

text \<open>
  The properties of the engine over runs from \<open>New\<close>, with their instances on a small configuration:
  the action prefix CTRL+T with the bindings A and A+B+C, and SHIFT+SPACE held as F11.
\<close>

section \<open>A configuration and some inputs\<close>

definition example_config :: config where
  "example_config = \<lparr>cfg_candidate_timeout = 750, cfg_sequence_timeout = 750,
     cfg_socket_path = ''/run/eak/eakd.sock'', cfg_allowed_uids = [1000], cfg_allowed_devices = [],
     cfg_prefixes = [
       \<lparr>src_keys = [LogicalCtrl, 20], src_bindings = [
          \<lparr>b_keys = [30], b_action = ''one''\<rparr>, \<lparr>b_keys = [30, 48, 46], b_action = ''three''\<rparr>],
        src_mode = Action, src_target = 0\<rparr>,
       \<lparr>src_keys = [LogicalShift, 57], src_bindings = [], src_mode = Hold, src_target = 87\<rparr>],
     cfg_reserved_modifiers = []\<rparr>"

definition press_frame :: "u16 \<Rightarrow> i32 \<Rightarrow> time \<Rightarrow> engine_input" where
  "press_frame c v t = FrameIn \<lparr>fr_device = ''kbd'', fr_events = [key_event c v, syn_event]\<rparr> t"

text \<open>The outputs of a run and something about its last state.\<close>

definition run_view :: "(engine \<Rightarrow> 'a) \<Rightarrow> engine_input list \<Rightarrow> (engine_output list \<times> 'a) option" where
  "run_view f ins = map_option (\<lambda>(outs, s). (outs, f s)) (engine_run example_config ins)"

lemma run_viewE:
  assumes "run_view f ins = Some (os, v)"
  obtains s where "engine_run example_config ins = Some (os, s)" "f s = v"
  using assms by (auto simp: run_view_def)

lemma example_run: obtains os s where "engine_run example_config ins = Some (os, s)"
  using em.run_returns[OF safe_new] unfolding engine_run_def by blast

section \<open>Presses\<close>



text \<open>
  C18. The physical state is exact.  After every run the keys in \<open>physical\<close> are those the inputs say
  are down: of each device, the ones pressed and not released since by the frames received, as
  replaced by a resynchronisation and cleared by a shutdown.  \<open>physical\<close> maps a device and a key code
  to a press exactly when that press is down and is that key of that device, and \<open>logicalCount\<close> of a
  logical key is the number of presses of it that are down, with an entry only when there is one.
\<close>

theorem physical_state_exact:
  assumes "engine_run cfg ins = Some (os, s)"
  shows "(phys s d c \<noteq> None \<longleftrightarrow> c \<in> fold received ins (\<lambda>_. {}) d) \<and>
    (phys s d c = Some p \<longleftrightarrow> p_down (pr s p) \<and> p_device (pr s p) = d \<and> p_code (pr s p) = c) \<and>
    gm_get (e_count s) k = (let n = card {q. p_down (pr s q) \<and> canonical (p_code (pr s q)) = k}
      in if n = 0 then None else Some (int n))"
proof -
  have "phys_ok s" using engine_run_inv[OF assms] by (simp add: engine_inv_def)
  then have dn: "down_ok s" and cnt: "counts_ok s" by (simp_all add: phys_ok_def)
  have "down_of s k = {q. p_down (pr s q) \<and> canonical (p_code (pr s q)) = k}"
    using dn by (auto simp: down_of_def down_ok_def)
  moreover have "phys s d c \<noteq> None \<longleftrightarrow> c \<in> fold received ins (\<lambda>_. {}) d"
    using keys_engine_run[OF assms] by (auto simp: keys_of_def fun_eq_iff)
  ultimately show ?thesis
    using dn cnt finite_down[OF dn, of k] by (auto simp: down_ok_def counts_ok_def Let_def)
qed

theorem physical_state_exact_witness:
  "\<exists>os s. engine_run example_config [press_frame 30 1 0, press_frame 48 1 1, press_frame 30 0 2] = Some (os, s) \<and>
     phys s ''kbd'' 30 = None \<and> phys s ''kbd'' 48 \<noteq> None"
proof -
  let ?ins = "[press_frame 30 1 0, press_frame 48 1 1, press_frame 30 0 2]"
  obtain os s where 1: "engine_run example_config ?ins = Some (os, s)" by (rule example_run)
  have "fold received ?ins (\<lambda>_. {}) ''kbd'' = {48}" by (auto simp: press_frame_def apply_key_def)
  with physical_state_exact[OF 1, of "''kbd''" 30 0 0] physical_state_exact[OF 1, of "''kbd''" 48 0 0] 1
  show ?thesis by auto
qed

section \<open>Nothing is withheld for ever\<close>

lemma run_idle_journal:
  assumes "engine_run cfg ins = Some (os, s)" "e_mode s = ModeIdle \<or> e_mode s = ModeAwaitBinding"
  shows "e_journal s = []"
proof -
  have inv: "engine_inv cfg s" "drained s" using engine_run_inv[OF assms(1)] by auto
  then have "e_seq s = None"
    using assms(2) by (auto simp: engine_inv_def safe_def indices_ok_def split: option.splits)
  with inv show ?thesis by (rule idle_journal_empty)
qed

lemma run_decided:
  assumes "engine_run cfg ins = Some (os, s)" "e_mode s = ModeIdle \<or> e_mode s = ModeAwaitBinding" "0 < p" "p \<le> e_next_id s"
  shows "p_route (pr s p) \<noteq> Undecided"
proof -
  have inv: "engine_inv cfg s" using engine_run_inv[OF assms(1)] by simp
  then have "e_seq s = None"
    using assms(2) by (auto simp: engine_inv_def safe_def indices_ok_def split: option.splits)
  with inv show ?thesis using assms(3,4) by (rule all_decided)
qed

text \<open>
  C19. Input is withheld only for a candidate.  In every reachable state without one (mode idle, or
  waiting for a binding) the journal is empty and every press made so far is forwarded or consumed.
\<close>

theorem nothing_stuck:
  assumes "engine_run cfg ins = Some (os, s)" "e_mode s = ModeIdle \<or> e_mode s = ModeAwaitBinding"
  shows "e_journal s = [] \<and> (\<forall>p. 0 < p \<and> p \<le> e_next_id s \<longrightarrow> p_route (pr s p) \<noteq> Undecided)"
  using run_idle_journal[OF assms] run_decided[OF assms] by simp

theorem nothing_stuck_witness:
  "\<exists>os s. engine_run example_config [press_frame 29 1 0, press_frame 20 1 0, press_frame 20 0 0] = Some (os, s) \<and>
     e_mode s = ModeAwaitBinding \<and> e_journal s = [] \<and> p_route (pr s 1) \<noteq> Undecided \<and> p_route (pr s 2) \<noteq> Undecided"
proof -
  have "run_view (\<lambda>s. (e_mode s, e_next_id s)) [press_frame 29 1 0, press_frame 20 1 0, press_frame 20 0 0] =
      Some ([], ModeAwaitBinding, 2)"
    by code_simp
  then obtain s where 1: "engine_run example_config
      [press_frame 29 1 0, press_frame 20 1 0, press_frame 20 0 0] = Some ([], s)"
    "(e_mode s, e_next_id s) = (ModeAwaitBinding, 2)"
    by (rule run_viewE)
  from nothing_stuck[OF 1(1)] 1 show ?thesis by auto
qed

text \<open>
  C13. What is withheld is released at the deadline at the latest.  When a reachable state withholds
  frames, it is in the reserved wait (which ends with the reserved modifier) or a deadline is pending;
  a timeout at or after it sends every withheld frame, in order, and the engine is idle again.
\<close>

theorem withheld_until_deadline:
  assumes "engine_run cfg ins = Some (os, s)" "e_journal s \<noteq> []" "e_mode s \<noteq> ModeReserved"
  shows "\<exists>t. engine_deadline s = Some t \<and> (\<forall>now. t \<le> now \<longrightarrow>
    (\<exists>s'. handle_timeout now s = Some (concat (map (frame_outputs (failed s)) (e_journal s)), s') \<and>
       e_journal s' = [] \<and> e_mode s' = ModeIdle))"
proof -
  have inv: "engine_inv cfg s" using engine_run_inv[OF assms(1)] by simp
  then have saf: "safe cfg s" by (simp add: engine_inv_def)
  have "e_mode s \<noteq> ModeIdle" using run_idle_journal[OF assms(1)] assms(2) by auto
  with saf assms(3) obtain t where t: "e_deadline s = Some t"
    by (auto simp: safe_def deadline_ok_def)
  have "drain (failed s) = (concat (map (frame_outputs (failed s)) (e_journal s)), (failed s)\<lparr>e_journal := []\<rparr>)"
    using drain_all[OF inv_failed[OF inv]] by simp
  then show ?thesis
    using t fail_failed[OF saf]
    by (auto simp: engine_deadline_def handle_timeout_def expired_def)
qed

theorem withheld_until_deadline_witness:
  "\<exists>os s. engine_run example_config [press_frame 29 1 0] = Some (os, s) \<and> engine_deadline s = Some 750 \<and>
     (\<exists>s'. handle_timeout 800 s = Some (concat (map (frame_outputs (failed s)) (e_journal s)), s') \<and>
        e_journal s' = [] \<and> e_mode s' = ModeIdle)"
proof -
  have "run_view (\<lambda>s. (length (e_journal s), e_mode s, engine_deadline s)) [press_frame 29 1 0] =
      Some ([], 1, ModePrefixCandidate, Some 750)" by code_simp
  then obtain s where 1: "engine_run example_config [press_frame 29 1 0] = Some ([], s)"
    "(length (e_journal s), e_mode s, engine_deadline s) = (1, ModePrefixCandidate, Some 750)"
    by (rule run_viewE)
  then have "e_journal s \<noteq> []" "e_mode s \<noteq> ModeReserved" "engine_deadline s = Some 750" by auto
  then have "\<forall>now\<ge>750. \<exists>s'. handle_timeout now s =
      Some (concat (map (frame_outputs (failed s)) (e_journal s)), s') \<and> e_journal s' = [] \<and> e_mode s' = ModeIdle"
    using withheld_until_deadline[OF 1(1)] by auto
  then have "\<exists>s'. handle_timeout 800 s =
      Some (concat (map (frame_outputs (failed s)) (e_journal s)), s') \<and> e_journal s' = [] \<and> e_mode s' = ModeIdle"
    by simp
  then obtain s' where
    "handle_timeout 800 s = Some (concat (map (frame_outputs (failed s)) (e_journal s)), s')"
    "e_journal s' = []" "e_mode s' = ModeIdle" by blast
  with 1(1) \<open>engine_deadline s = Some 750\<close> show ?thesis by blast
qed

section \<open>Transparency\<close>

text \<open>
  C23. Keys that are in no source chord pass the engine unchanged while nothing of the device is hidden.
  When the engine is idle, no held output is active and every key held on the device was forwarded
  (a consumed one would hide scan codes), a frame whose new presses are in no configured chord is
  sent at once, in one frame with the same events, and the three conditions hold afterwards.
\<close>

theorem unconfigured_frame_passes:
  assumes "engine_run cfg ins = Some (os, s)" "e_mode s = ModeIdle" "e_active s = []"
    "\<And>c p. phys s d c = Some p \<Longrightarrow> p_route (pr s p) = Forwarded"
    "\<And>ev src. ev \<in> set evs \<Longrightarrow> ev_type ev = EVKey \<Longrightarrow> ev_value ev = 1 \<Longrightarrow>
       src \<in> set (cfg_prefixes cfg) \<Longrightarrow> canonical (ev_code ev) \<notin> set (src_keys src)"
  shows "\<exists>s'. handle_frame cfg \<lparr>fr_device = d, fr_events = evs\<rparr> now s =
      Some (flush_events d (filter (\<lambda>ev. ev_type ev \<noteq> EVSyn) evs), s') \<and>
    e_mode s' = ModeIdle \<and> e_active s' = [] \<and> e_journal s' = [] \<and>
    (\<forall>c p. phys s' d c = Some p \<longrightarrow> p_route (pr s' p) = Forwarded)"
  using engine_run_inv[OF assms(1)] assms(2-5)
  by (intro pass_through) (auto simp: unconfigured_def)

theorem unconfigured_frame_passes_witness:
  "\<exists>s'. handle_frame example_config
      \<lparr>fr_device = ''kbd'', fr_events = [\<lparr>ev_type = EVMsc, ev_code = 4, ev_value = 30\<rparr>, key_event 31 1, syn_event]\<rparr> 5
      new_engine =
    Some ([ForwardFrame \<lparr>fr_device = ''kbd'', fr_events =
      [\<lparr>ev_type = EVMsc, ev_code = 4, ev_value = 30\<rparr>, key_event 31 1, syn_event]\<rparr>], s')"
proof -
  let ?evs = "[\<lparr>ev_type = EVMsc, ev_code = 4, ev_value = 30\<rparr>, key_event 31 1, syn_event]"
  have run: "engine_run example_config [] = Some ([], new_engine)" by (simp add: engine_run_def)
  have idle: "e_mode new_engine = ModeIdle" "e_active new_engine = []" by (simp_all add: new_engine_def)
  have none: "phys new_engine ''kbd'' c = None" for c by (simp add: phys_def phys_dev_def new_engine_def)
  have keys: "list_all (\<lambda>ev. ev_type ev = EVKey \<and> ev_value ev = 1 \<longrightarrow>
      list_all (\<lambda>src. canonical (ev_code ev) \<notin> set (src_keys src)) (cfg_prefixes example_config)) ?evs"
    by code_simp
  have "\<exists>s'. handle_frame example_config \<lparr>fr_device = ''kbd'', fr_events = ?evs\<rparr> 5 new_engine =
      Some (flush_events ''kbd'' (filter (\<lambda>ev. ev_type ev \<noteq> EVSyn) ?evs), s') \<and>
    e_mode s' = ModeIdle \<and> e_active s' = [] \<and> e_journal s' = [] \<and>
    (\<forall>c p. phys s' ''kbd'' c = Some p \<longrightarrow> p_route (pr s' p) = Forwarded)"
    by (rule unconfigured_frame_passes[OF run idle]) (use none keys in \<open>auto simp: list_all_iff\<close>)
  moreover have "flush_events ''kbd'' (filter (\<lambda>ev. ev_type ev \<noteq> EVSyn) ?evs) =
      [ForwardFrame \<lparr>fr_device = ''kbd'', fr_events = ?evs\<rparr>]" by code_simp
  ultimately show ?thesis by auto
qed

text \<open>
  A drained journal frame sends exactly its kept events.  What the outputs of a frame carry to the
  frame's device is the sequence of its recorded events, in order and without repetition, less the
  reports, the events of consumed presses, and the scan codes that go with them.
\<close>

theorem frame_sends_kept_events:
  assumes "\<And>r fr. r \<in> set (j_events f) \<Longrightarrow> r_output r = Some (ForwardFrame fr) \<Longrightarrow> fr_device fr \<noteq> j_device f"
  shows "sent (j_device f) (frame_outputs s f) =
    map r_event (filter (\<lambda>r. r_output r = None \<and> ev_type (r_event r) \<noteq> EVSyn \<and>
      press_route s (r_press r) \<noteq> Some Consumed \<and>
      \<not> (ev_type (r_event r) = EVMsc \<and> drop_misc s f)) (j_events f))"
  using frame_outputs_sent[of f s] assms
  by (auto simp: foreign_outputs_def kept_def[abs_def])

theorem frame_sends_kept_events_witness:
  "sent ''kbd'' (frame_outputs new_engine \<lparr>j_device = ''kbd'', j_events =
      [recorded_input (key_event 30 0) None, recorded_output (key_output ''eakd-remap'' 87 1) None,
       recorded_input syn_event None], j_drop_scan = False, j_candidate = None\<rparr>) = [key_event 30 0]"
proof -
  let ?f = "\<lparr>j_device = ''kbd'', j_events =
      [recorded_input (key_event 30 0) None, recorded_output (key_output ''eakd-remap'' 87 1) None,
       recorded_input syn_event None], j_drop_scan = False, j_candidate = None\<rparr>"
  have "fr_device fr \<noteq> j_device ?f" if "r \<in> set (j_events ?f)" "r_output r = Some (ForwardFrame fr)" for r fr
    using that by (auto simp: key_output_def)
  from frame_sends_kept_events[OF this, where s = new_engine] show ?thesis
    by (simp add: press_route_def recorded_input_def recorded_output_def)
qed

section \<open>Recovery and shutdown\<close>

text \<open>
  C22. A resynchronisation adopts the snapshot.  After \<open>Reconcile\<close> the engine is idle with an empty
  journal, exactly the keys of the snapshot are held on the device, the other devices are untouched,
  and the last output tells the consumer the keys it may see: the held ones that were not consumed.
\<close>

theorem reconcile_adopts_snapshot:
  assumes "engine_run cfg ins = Some (os, s)"
  shows "\<exists>outs visible s'. reconcile d pressed s = Some (outs @ [ReconcileDevice d visible], s') \<and>
    e_mode s' = ModeIdle \<and> e_journal s' = [] \<and>
    (\<forall>c. phys s' d c \<noteq> None \<longleftrightarrow> gm_true pressed c) \<and>
    (\<forall>d' c. d' \<noteq> d \<longrightarrow> phys s' d' c = phys s d' c) \<and>
    (\<forall>c. gm_true visible c \<longleftrightarrow> (\<exists>p. phys s' d c = Some p \<and> p_route (pr s' p) = Forwarded))"
proof -
  have inv: "engine_inv cfg s" using engine_run_inv[OF assms] by simp
  then have saf: "safe cfg s" by (simp add: engine_inv_def)
  then obtain outs s' where "reconcile d pressed s = Some (outs, s')"
    using engine_step_safe[of cfg s "ReconcileIn d pressed"] by auto
  with reconcile_result[OF inv this] show ?thesis by blast
qed

theorem reconcile_adopts_snapshot_witness:
  "\<exists>os s outs visible s'. engine_run example_config [press_frame 29 1 0] = Some (os, s) \<and>
     reconcile ''kbd'' [(29, True), (31, False)] s = Some (outs @ [ReconcileDevice ''kbd'' visible], s') \<and>
     phys s' ''kbd'' 29 \<noteq> None \<and> phys s' ''kbd'' 31 = None"
proof -
  obtain os s where 1: "engine_run example_config [press_frame 29 1 0] = Some (os, s)" by (rule example_run)
  obtain outs visible s' where 2:
    "reconcile ''kbd'' [(29, True), (31, False)] s = Some (outs @ [ReconcileDevice ''kbd'' visible], s')"
    "\<forall>c. phys s' ''kbd'' c \<noteq> None \<longleftrightarrow> gm_true [(29, True), (31, False)] c"
    using reconcile_adopts_snapshot[OF 1, of "''kbd''" "[(29, True), (31, False)]"] by (elim exE conjE) (rule that)
  have "phys s' ''kbd'' 29 \<noteq> None" "phys s' ''kbd'' 31 = None"
    using 2(2)[rule_format, of 29] 2(2)[rule_format, of 31] by (simp_all add: gm_true_def gm_get_def)
  with 1 2(1) show ?thesis by blast
qed

text \<open>
  C20. \<open>Close\<close> lets go of everything.  It leaves no key down, no held output, no candidate and no
  journal, and every press ever made is decided.  For each held output that was active it sends the
  release of its target and then the clean-up of its device, and for every device on which a key was
  held it tells the consumer that no key is.
\<close>

theorem close_releases_everything:
  assumes "engine_run cfg ins = Some (os, s)"
  shows "\<exists>outs s'. close_engine s = Some (outs, s') \<and> e_mode s' = ModeIdle \<and> e_seq s' = None \<and>
    e_journal s' = [] \<and> e_active s' = [] \<and> (\<forall>d c. phys s' d c = None) \<and>
    (\<forall>p. 0 < p \<and> p \<le> e_next_id s' \<longrightarrow> p_route (pr s' p) \<noteq> Undecided) \<and>
    (\<forall>a\<in>set (e_active s). \<exists>xs ys. outs =
       xs @ [key_output (a_device (e_acts s a)) (a_target (e_acts s a)) 0, ReconcileDevice (a_device (e_acts s a)) []] @ ys) \<and>
    (\<forall>d c. phys s d c \<noteq> None \<longrightarrow> ReconcileDevice d [] \<in> set outs)"
proof -
  have inv: "engine_inv cfg s" using engine_run_inv[OF assms] by simp
  then have saf: "safe cfg s" by (simp add: engine_inv_def)
  then obtain outs s' where 1: "close_engine s = Some (outs, s')"
    using engine_step_safe[of cfg s CloseIn] by auto
  have "\<exists>xs ys. outs =
      xs @ [key_output (a_device (e_acts s a)) (a_target (e_acts s a)) 0, ReconcileDevice (a_device (e_acts s a)) []] @ ys"
    if "a \<in> set (e_active s)" for a
    using close_ends_outputs[OF inv 1 that] unfolding end_sent_def .
  moreover have "\<forall>p. 0 < p \<and> p \<le> e_next_id s' \<longrightarrow> p_route (pr s' p) \<noteq> Undecided"
    using close_result[OF inv 1] all_decided by blast
  ultimately show ?thesis using close_result[OF inv 1] 1 by blast
qed

theorem close_releases_everything_witness:
  "\<exists>os s outs s'. engine_run example_config [press_frame 42 1 0, press_frame 57 1 1] = Some (os, s) \<and>
     close_engine s = Some (outs, s') \<and> ReconcileDevice ''kbd'' [] \<in> set outs \<and> e_active s' = [] \<and>
     (\<exists>xs ys. outs = xs @ [key_output (a_device (e_acts s 1)) 87 0, ReconcileDevice (a_device (e_acts s 1)) []] @ ys)"
proof -
  let ?ins = "[press_frame 42 1 0, press_frame 57 1 1]"
  have "map_option snd (run_view (\<lambda>s. (phys s ''kbd'' 42, e_active s, a_target (e_acts s 1))) ?ins) = Some (Some 1, [1], 87)"
    by code_simp
  then obtain os s where 1: "engine_run example_config ?ins = Some (os, s)"
    "(phys s ''kbd'' 42, e_active s, a_target (e_acts s 1)) = (Some 1, [1], 87)"
    by (auto simp: run_view_def)
  obtain outs s' where 2: "close_engine s = Some (outs, s')" "e_active s' = []"
    "\<forall>a\<in>set (e_active s). \<exists>xs ys. outs =
       xs @ [key_output (a_device (e_acts s a)) (a_target (e_acts s a)) 0, ReconcileDevice (a_device (e_acts s a)) []] @ ys"
    "\<forall>d c. phys s d c \<noteq> None \<longrightarrow> ReconcileDevice d [] \<in> set outs"
    using close_releases_everything[OF 1(1)] by (elim exE conjE) (rule that)
  have "ReconcileDevice ''kbd'' [] \<in> set outs" using 2(4)[rule_format, of "''kbd''" 42] 1(2) by simp
  moreover have "\<exists>xs ys. outs = xs @ [key_output (a_device (e_acts s 1)) 87 0, ReconcileDevice (a_device (e_acts s 1)) []] @ ys"
    using 2(3)[rule_format, of 1] 1(2) by simp
  ultimately show ?thesis using 1(1) 2(1,2) by blast
qed

section \<open>The match of a binding candidate\<close>


text \<open>The stale match at work: with the bindings A and A+B+C, pressing A and B publishes the action of A.\<close>

lemma stale_match_published:
  "run_view e_mode [press_frame 29 1 0, press_frame 20 1 1, press_frame 20 0 2, press_frame 29 0 3,
     press_frame 30 1 4, press_frame 48 1 5, press_frame 48 0 6, press_frame 30 0 7] =
   Some ([EmitAction ''one''], ModeIdle)"
  by code_simp


end
