(* ===== verification/Daemon_Properties.thy ===== *)
theory Daemon_Properties
  imports Daemon Engine_Properties
begin

text \<open>
  The properties of the daemon's main loop over runs from its start, with their instances on the
  configuration of \<open>Engine_Properties\<close>.
\<close>

section \<open>Runs on given events\<close>

fun daemon_events :: "config \<Rightarrow> 'e daemon_event list \<Rightarrow> daemon \<Rightarrow> ('e outcome \<times> daemon) option" where
  "daemon_events cfg [] d = Some (Running, d)"
| "daemon_events cfg (ev # evs) d =
     (if \<not> enabled ev d then None
      else do {
        (res, d') \<leftarrow> daemon_step cfg ev d;
        case res of
          Running \<Rightarrow> daemon_events cfg evs d'
        | Returned e \<Rightarrow> (if evs = [] then Some (Returned e, d') else None) })"

lemma daemon_events_run:
  fixes res :: "'e outcome"
  shows "daemon_run cfg v (Running :: 'e outcome) d \<Longrightarrow> daemon_events cfg evs d = Some (res, d') \<Longrightarrow>
    daemon_run cfg v res d'"
proof (induction evs arbitrary: d)
  case (Cons ev evs)
  then obtain r :: "'e outcome" and d1 where 1: "enabled ev d" "daemon_step cfg ev d = Some (r, d1)"
    by (auto split: if_splits Option.bind_splits)
  note run1 = daemon_run.step[OF Cons.prems(1) 1]
  show ?case
  proof (cases r)
    case Running
    then show ?thesis using Cons.IH[of d1] Cons.prems(2) run1 1 by simp
  next
    case (Returned e)
    then show ?thesis using Cons.prems(2) run1 1 by (auto split: if_splits)
  qed
qed simp

definition example_device :: device where "example_device = ''/dev/input/event3''"

definition example_vk :: vk where
  "example_vk = \<lparr>vk_fd = 5, vk_name = [], vk_taken = [], vk_script = replicate 8 (Wrote 24)\<rparr>"

definition key_message :: "u16 \<Rightarrow> i32 \<Rightarrow> time \<Rightarrow> unit daemon_event" where
  "key_message c v t = MessageIn (frame_message \<lparr>fr_device = example_device, fr_events = [key_event c v, syn_event]\<rparr>) t"

text \<open>What a run ends with and something about its last state.\<close>

definition daemon_view :: "(daemon \<Rightarrow> 'a) \<Rightarrow> unit daemon_event list \<Rightarrow> (unit outcome \<times> 'a) option" where
  "daemon_view f evs = map_option (\<lambda>(res, d). (res, f d)) (daemon_events example_config evs (new_daemon example_vk))"

lemma daemon_viewE:
  assumes "daemon_view f evs = Some (res, x)"
  obtains d where "daemon_run example_config example_vk res d" "f d = x"
  using assms daemon_events_run[OF daemon_run.start, of example_config evs example_vk] by (auto simp: daemon_view_def)

lemma example_vk_fresh: "vk_taken example_vk = []"
  by (simp add: example_vk_def)

section \<open>The keys the compositor sees\<close>

text \<open>
  C1. While nothing is withheld, the compositor sees exactly the keys that are held.  In every state the
  daemon reaches with no frame withheld, the keys down on the virtual keyboard are the keys that are
  down on some keyboard and were forwarded, and the targets of the live held remaps, and no others;
  every key event it was sent was a real change or a repeat.
\<close>

theorem compositor_sees_held_keys:
  assumes "daemon_run cfg v Running d" "vk_taken v = []" "e_journal (d_engine d) = []"
  shows "visible (vk_log (fw_output (d_forwarder d))) =
      {c. \<exists>dv p. phys (d_engine d) dv c = Some p \<and> p_route (pr (d_engine d) p) = Forwarded} \<union>
      {a_target (e_acts (d_engine d) a) | a. a \<in> set (e_active (d_engine d)) \<and> a_live (e_acts (d_engine d) a)} \<and>
    stream_ok {} (vk_log (fw_output (d_forwarder d)))"
proof -
  let ?s = "d_engine d"
  have ok: "shown ?s (device_keys (d_forwarder d))" "fw_synced vk_log (d_forwarder d)"
    using daemon_run_ok[OF assms(1,2)] by (simp_all add: daemon_ok_def keys_ok_def)
  define \<rho> where "\<rho> = (\<lambda>p. if p_route (pr ?s p) = Undecided then Consumed else p_route (pr ?s p))"
  have \<rho>: "\<rho> p = Forwarded \<longleftrightarrow> p_route (pr ?s p) = Forwarded" for p by (simp add: \<rho>_def)
  have "completes \<rho> ?s" by (simp add: completes_def \<rho>_def)
  with ok(1) assms(3) have "device_keys (d_forwarder d) = want \<rho> ?s" by (simp add: shown_def)
  then have "visible (vk_log (fw_output (d_forwarder d))) = (\<Union>dv. want \<rho> ?s dv)"
    using ok(2) by (simp add: fw_synced_def held_keys_devices)
  also have "\<dots> = {c. \<exists>dv p. phys ?s dv c = Some p \<and> p_route (pr ?s p) = Forwarded} \<union>
      {a_target (e_acts ?s a) | a. a \<in> set (e_active ?s) \<and> a_live (e_acts ?s a)}"
    by (auto simp: want_def held_targets_def \<rho>)
  finally show ?thesis using ok(2) by (simp add: fw_synced_def)
qed

theorem compositor_sees_held_keys_witness:
  "\<exists>d. daemon_run example_config example_vk (Running :: unit outcome) d \<and>
     vk_log (fw_output (d_forwarder d)) = [key_event 87 1, syn_event] \<and>
     {c. \<exists>dv p. phys (d_engine d) dv c = Some p \<and> p_route (pr (d_engine d) p) = Forwarded} \<union>
     {a_target (e_acts (d_engine d) a) | a. a \<in> set (e_active (d_engine d)) \<and> a_live (e_acts (d_engine d) a)} = {87}"
proof -
  have "daemon_view (\<lambda>d. (e_journal (d_engine d), vk_log (fw_output (d_forwarder d))))
    [key_message 42 1 0, key_message 57 1 1] = Some (Running, [], [key_event 87 1, syn_event])" by code_simp
  then obtain d where 1: "daemon_run example_config example_vk (Running :: unit outcome) d"
    "(e_journal (d_engine d), vk_log (fw_output (d_forwarder d))) = ([], [key_event 87 1, syn_event])"
    by (rule daemon_viewE)
  from compositor_sees_held_keys[OF 1(1) example_vk_fresh] 1 show ?thesis
    by (auto simp: visible_def apply_key_def intro!: exI[of _ d])
qed

section \<open>Stopping\<close>

lemma continuing_returns_errors [simp]: "continuing rd \<noteq> (Returned None, d')"
  by (cases "fst rd") (simp_all add: continuing_def)

lemma ending_returns [simp]: "ending rd \<noteq> (Running, d')"
  by (cases "fst rd") (simp_all add: ending_def)



lemma close_shows_nothing:
  assumes "daemon_ok cfg d" "close_daemon now d = Some (Returned None, d')"
  shows "device_keys (d_forwarder d') = (\<lambda>_. {}) \<and> fw_synced vk_log (d_forwarder d')"
proof -
  have k: "engine_inv cfg (d_engine d)" "shown (d_engine d) (device_keys (d_forwarder d))"
    "fw_synced vk_log (d_forwarder d)" "vk_aligned (fw_output (d_forwarder d))"
    using assms(1) by (simp_all add: daemon_ok_def keys_ok_def)
  obtain outs s d1 where 1: "close_engine (d_engine d) = Some (outs, s)"
    "apply_outputs outs (d\<lparr>d_engine := s\<rparr>) = (Inr (), d1)" "d' = reset_timer now d1"
    using assms(2)
    by (auto simp: close_daemon_def apply_result_def ending_def split: Option.bind_splits prod.splits sum.splits)
  have "fw_synced vk_log (d_forwarder (d\<lparr>d_engine := s\<rparr>))" "vk_aligned (fw_output (d_forwarder (d\<lparr>d_engine := s\<rparr>)))"
    using k by simp_all
  from apply_outputs_effect[OF 1(2) this] close_shown(2)[OF k(1,2) 1(1)] show ?thesis by (simp add: 1(3))
qed

text \<open>
  C2. A stop leaves no key down.  When the daemon returns without an error, because it was cancelled,
  the server ended or the manager ended after a cancellation, every key the virtual keyboard ever
  showed is released, held remaps and withheld frames included.
\<close>

theorem stop_releases_every_key:
  assumes "daemon_run cfg v (Running :: 'e outcome) d" "vk_taken v = []" "enabled ev d"
    "daemon_step cfg ev d = Some (Returned None :: 'e outcome, d')"
  shows "visible (vk_log (fw_output (d_forwarder d'))) = {} \<and> (\<forall>c. gm_get (fw_counts (d_forwarder d')) c = None)"
proof -
  have ok: "daemon_ok cfg d" using daemon_run_ok[OF assms(1,2)] by simp
  have "\<exists>now. close_daemon now d = Some (Returned None :: 'e outcome, d')"
    using assms(4)
    by (auto simp: daemon_step_def notify_ready_def split: daemon_event.splits option.splits if_splits)
  then obtain now where "close_daemon now d = Some (Returned None :: 'e outcome, d')" ..
  from close_shows_nothing[OF ok this]
  have none: "held_by (d_forwarder d') c = {}" "fw_ok (d_forwarder d')"
    "visible (vk_log (fw_output (d_forwarder d'))) = {}" for c
    by (simp_all add: held_by_devices fw_synced_def held_keys_devices)
  then show ?thesis by (simp add: fw_ok_def)
qed

theorem stop_releases_every_key_witness:
  "\<exists>d'. daemon_run example_config example_vk (Returned None :: unit outcome) d' \<and>
     vk_log (fw_output (d_forwarder d')) = [key_event 87 1, syn_event, key_event 87 0, syn_event] \<and>
     (\<forall>c. gm_get (fw_counts (d_forwarder d')) c = None)"
proof -
  let ?evs = "[key_message 42 1 0, key_message 57 1 1]"
  have "daemon_view (\<lambda>d. map_option (\<lambda>(r, d'). (r, vk_log (fw_output (d_forwarder d')))) (daemon_step example_config (CtxDone 2 :: unit daemon_event) d))
    ?evs = Some (Running, Some (Returned None, [key_event 87 1, syn_event, key_event 87 0, syn_event]))" by code_simp
  then obtain d where 1: "daemon_run example_config example_vk (Running :: unit outcome) d"
    "map_option (\<lambda>(r, d'). (r, vk_log (fw_output (d_forwarder d')))) (daemon_step example_config (CtxDone 2 :: unit daemon_event) d) =
      Some (Returned None, [key_event 87 1, syn_event, key_event 87 0, syn_event])" by (rule daemon_viewE)
  then obtain d' where 2: "daemon_step example_config (CtxDone 2 :: unit daemon_event) d = Some (Returned None, d')"
    "vk_log (fw_output (d_forwarder d')) = [key_event 87 1, syn_event, key_event 87 0, syn_event]" by auto
  have en: "enabled (CtxDone 2 :: unit daemon_event) d" by (simp add: enabled_def)
  from stop_releases_every_key[OF 1(1) example_vk_fresh en 2(1)] daemon_run.step[OF 1(1) en 2(1)] 2(2)
  show ?thesis by blast
qed

section \<open>The timer\<close>

















section \<open>Readiness\<close>

definition ready_flags :: "daemon \<Rightarrow> bool \<times> bool \<times> bool" where
  "ready_flags d = (d_server_wait d, d_manager_wait d, d_notified d)"

lemma apply_outputs_flags: "ready_flags (snd (apply_outputs outs d)) = ready_flags d"
proof (induction outs arbitrary: d)
  case (Cons out outs)
  have "ready_flags (snd (apply_output out d)) = ready_flags d"
    by (simp add: apply_output_def ready_flags_def split: engine_output.split prod.split)
  then show ?case using Cons by (auto split: prod.split sum.split)
qed simp

lemma apply_result_flags: "apply_result wrap now r d = Some (x, d') \<Longrightarrow> ready_flags d' = ready_flags d"
proof -
  assume "apply_result wrap now r d = Some (x, d')"
  then obtain outs s y d1 where "apply_outputs outs (d\<lparr>d_engine := s\<rparr>) = (y, d1)" "d' = d1 \<or> d' = reset_timer now d1"
    by (auto simp: apply_result_def split: Option.bind_splits prod.splits sum.splits)
  with apply_outputs_flags[of outs "d\<lparr>d_engine := s\<rparr>"] show "ready_flags d' = ready_flags d"
    by (auto simp: ready_flags_def)
qed

lemma and_apply_flags:
  assumes "and_apply x f = Some (r, d')" "\<And>r d1. x = Some (r, d1) \<Longrightarrow> ready_flags d1 = ready_flags d"
    "\<And>d1 r d2. f d1 = Some (r, d2) \<Longrightarrow> ready_flags d2 = ready_flags d1"
  shows "ready_flags d' = ready_flags d"
  using assms by (fastforce simp: and_apply_def split: Option.bind_splits sum.splits)

lemma handle_message_flags:
  assumes "handle_message cfg m now d = Some (r, d')"
  shows "ready_flags d' = ready_flags d"
proof -
  have "ready_flags d2 = ready_flags d1" if "message_frame cfg m now d1 = Some (r, d2)" for r d1 d2
    using that by (auto simp: message_frame_def split: option.splits dest: apply_result_flags)
  moreover have "ready_flags d2 = ready_flags d1" if "message_resync m now d1 = Some (r, d2)" for r d1 d2
    using that by (auto simp: message_resync_def split: option.splits dest: apply_result_flags)
  moreover have "ready_flags d2 = ready_flags d1" if "message_removed m now d1 = Some (r, d2)" for r d1 d2
    using that by (auto simp: message_removed_def split: if_splits dest: apply_result_flags)
  ultimately show ?thesis
    using assms by (auto simp: handle_message_def split: option.splits elim!: and_apply_flags)
qed

lemma step_keeps_flags:
  assumes "daemon_step cfg ev d = Some (Running, d')" "\<And>a. ev \<noteq> ManagerReady a" "\<And>a. ev \<noteq> ServerReady a"
  shows "ready_flags d' = ready_flags d"
proof (cases ev)
  case (TimerChannel now)
  have "ready_flags (take_value d) = ready_flags d" by (simp add: ready_flags_def take_value_def)
  then show ?thesis using assms(1) TimerChannel
    by (auto simp: daemon_step_def continuing_def split: option.splits dest: apply_result_flags)
next
  case (MessageIn m now)
  then show ?thesis using assms(1) by (auto simp: daemon_step_def continuing_def dest: handle_message_flags)
next
  case (TimerExpires now)
  then show ?thesis using assms(1) by (auto simp: daemon_step_def ready_flags_def)
qed (use assms in \<open>auto simp: daemon_step_def close_daemon_def split: option.splits if_splits\<close>)

text \<open>
  C12. systemd is told once, and only when everything is up: the daemon has sent its notification exactly
  when both the action server and the device manager have reported ready, and after that neither
  report can come again.
\<close>

theorem ready_notified_once:
  assumes "daemon_run cfg v (Running :: 'e outcome) d"
  shows "(d_notified d \<longleftrightarrow> \<not> d_server_wait d \<and> \<not> d_manager_wait d) \<and>
    (d_notified d \<longrightarrow> \<not> enabled (ManagerReady a :: 'e daemon_event) d \<and> \<not> enabled (ServerReady a :: 'e daemon_event) d)"
proof -
  have "res = Running \<longrightarrow> (d_notified d \<longleftrightarrow> \<not> d_server_wait d \<and> \<not> d_manager_wait d)"
    if "daemon_run cfg v (res :: 'e outcome) d" for res
    using that
  proof (induction rule: daemon_run.induct)
    case start
    then show ?case by (simp add: new_daemon_def)
  next
    case (step d ev res d')
    consider (manager) a where "ev = ManagerReady a" | (server) a where "ev = ServerReady a"
      | (other) "\<And>a. ev \<noteq> ManagerReady a" "\<And>a. ev \<noteq> ServerReady a" by blast
    then show ?case
    proof cases
      case manager
      then show ?thesis using step by (auto simp: daemon_step_def enabled_def notify_ready_def split: option.splits if_splits)
    next
      case server
      then show ?thesis using step by (auto simp: daemon_step_def enabled_def notify_ready_def split: option.splits if_splits)
    next
      case other
      then show ?thesis using step.hyps(3) step.IH step_keeps_flags[OF _ other, of cfg d d'] by (auto simp: ready_flags_def)
    qed
  qed
  with assms show ?thesis by (auto simp: enabled_def)
qed

theorem ready_notified_once_witness:
  "\<exists>d. daemon_run example_config example_vk (Running :: unit outcome) d \<and> \<not> d_server_wait d \<and> \<not> d_manager_wait d \<and> d_notified d"
proof -
  have "daemon_view (\<lambda>d. (d_server_wait d, d_manager_wait d)) [ServerReady None, ManagerReady (systemd_ready [] (\<lambda>_ _. Some ()))] =
    Some (Running, False, False)" by code_simp
  then obtain d where "daemon_run example_config example_vk (Running :: unit outcome) d"
    "(d_server_wait d, d_manager_wait d) = (False, False)" by (rule daemon_viewE)
  with ready_notified_once[OF this(1)] show ?thesis by auto
qed

end
