(* ===== verification/Step_Machine.thy ===== *)
theory Step_Machine
  imports Eak_Prelude
begin

text \<open>
  Concurrent parts of the program as labelled machines: a label is a step of one goroutine or of the
  environment, \<open>enabled\<close> tells when it can be taken and \<open>step\<close> takes it; \<open>None\<close> is a panic.
  The locale \<open>guarded_machine\<close> is the contract of such a machine with its invariant.
\<close>

inductive reachable :: "('l \<Rightarrow> 's \<Rightarrow> bool) \<Rightarrow> ('l \<Rightarrow> 's \<Rightarrow> 's option) \<Rightarrow> 's \<Rightarrow> 's \<Rightarrow> bool"
  for enabled step init where
  start: "reachable enabled step init init"
| more_steps: "reachable enabled step init s \<Longrightarrow> enabled l s \<Longrightarrow> step l s = Some s' \<Longrightarrow> reachable enabled step init s'"

text \<open>A run on given labels; \<open>None\<close> also when one of them is not enabled.\<close>

fun run_labels :: "('l \<Rightarrow> 's \<Rightarrow> bool) \<Rightarrow> ('l \<Rightarrow> 's \<Rightarrow> 's option) \<Rightarrow> 'l list \<Rightarrow> 's \<Rightarrow> 's option" where
  "run_labels enabled step [] s = Some s"
| "run_labels enabled step (l # ls) s =
     (if enabled l s then do { s' \<leftarrow> step l s; run_labels enabled step ls s' } else None)"

lemma run_labels_reachable:
  "reachable enabled step init s \<Longrightarrow> run_labels enabled step ls s = Some s' \<Longrightarrow> reachable enabled step init s'"
  by (induction ls arbitrary: s) (auto split: if_splits Option.bind_splits intro: reachable.more_steps)

text \<open>The states of such a run, seen through a function: how the examples find a reachable state.\<close>

lemma run_view_reachable:
  assumes "map_option f (run_labels enabled step ls init) = Some x"
  obtains s where "reachable enabled step init s" "f s = x"
proof -
  obtain s where run: "run_labels enabled step ls init = Some s" and view: "f s = x" using assms by auto
  show ?thesis by (rule that[OF run_labels_reachable[OF reachable.start run] view])
qed

locale guarded_machine =
  fixes enabled :: "'l \<Rightarrow> 's \<Rightarrow> bool" and step :: "'l \<Rightarrow> 's \<Rightarrow> 's option" and init :: 's and inv :: "'s \<Rightarrow> bool"
  assumes inv_init: "inv init"
    and inv_step: "inv s \<Longrightarrow> enabled l s \<Longrightarrow> \<exists>s'. step l s = Some s' \<and> inv s'"
begin

lemma reachable_inv: "reachable enabled step init s \<Longrightarrow> inv s"
proof (induction rule: reachable.induct)
  case start
  show ?case by (rule inv_init)
next
  case (more_steps s l s')
  from inv_step[OF more_steps.IH more_steps.hyps(2)] more_steps.hyps(3) show ?case by auto
qed

lemma never_panics: "reachable enabled step init s \<Longrightarrow> enabled l s \<Longrightarrow> \<exists>s'. step l s = Some s'"
  by (drule reachable_inv) (drule (1) inv_step, auto)

end

text \<open>Machines whose steps are blocked, never panic: enabled is having a successor.\<close>

lemma guarded_machineI:
  assumes "P init" "\<And>s l s'. P s \<Longrightarrow> step l s = Some s' \<Longrightarrow> P s'"
  shows "guarded_machine (\<lambda>l s. step l s \<noteq> None) step init P"
proof
  show "P init" by (rule assms(1))
  show "\<exists>s'. step l s = Some s' \<and> P s'" if s: "P s" and stepped: "step l s \<noteq> None" for s l
  proof -
    obtain s' where step: "step l s = Some s'" using stepped by auto
    from step assms(2)[OF s step] show ?thesis by auto
  qed
qed

text \<open>A measure that the machine's own steps decrease bounds their number, and they reach their end when
  they are never stuck before it.\<close>

locale progress_machine =
  fixes step :: "'l \<Rightarrow> 's \<Rightarrow> 's option" and own :: "'l \<Rightarrow> bool" and pending :: "'s \<Rightarrow> bool"
    and finished :: "'s \<Rightarrow> bool" and work :: "'s \<Rightarrow> nat"
  assumes decreases: "own l \<Longrightarrow> step l s = Some s' \<Longrightarrow> work s' < work s"
    and keeps_pending: "own l \<Longrightarrow> step l s = Some s' \<Longrightarrow> pending s \<Longrightarrow> pending s'"
    and never_stuck: "pending s \<Longrightarrow> \<not> finished s \<Longrightarrow> \<exists>l s'. own l \<and> step l s = Some s'"
begin

abbreviation run_own :: "'l list \<Rightarrow> 's \<Rightarrow> 's option" where
  "run_own ls s \<equiv> run_labels (\<lambda>_ _. True) step ls s"

lemma own_steps_bounded: "run_own ls s = Some s' \<Longrightarrow> list_all own ls \<Longrightarrow> length ls + work s' \<le> work s"
proof (induction ls arbitrary: s)
  case (Cons l ls)
  then obtain s1 where 1: "step l s = Some s1" "run_own ls s1 = Some s'" by (auto split: Option.bind_splits)
  with decreases[of l s s1] Cons.IH[OF 1(2)] Cons.prems(2) show ?case by simp
qed simp

lemma own_steps_pending: "run_own ls s = Some s' \<Longrightarrow> list_all own ls \<Longrightarrow> pending s \<Longrightarrow> pending s'"
  by (induction ls arbitrary: s) (auto split: Option.bind_splits dest: keeps_pending)

lemma own_steps_finish: "pending s \<Longrightarrow> \<exists>ls s'. list_all own ls \<and> run_own ls s = Some s' \<and> finished s'"
proof (induction "work s" arbitrary: s rule: less_induct)
  case less
  show ?case
  proof (cases "finished s")
    case True
    then show ?thesis by (intro exI[of _ "[]"] exI[of _ s]) simp
  next
    case False
    then obtain l s1 where 1: "own l" "step l s = Some s1" using never_stuck[OF less.prems] by blast
    obtain ls s' where "list_all own ls" "run_own ls s1 = Some s'" "finished s'"
      using less.hyps[OF decreases[OF 1]] keeps_pending[OF 1 less.prems] by auto
    with 1 show ?thesis by (intro exI[of _ "l # ls"] exI[of _ s']) simp
  qed
qed

lemma ends:
  assumes "pending s"
  shows "(\<exists>ls s'. list_all own ls \<and> run_own ls s = Some s' \<and> finished s') \<and>
    (\<forall>ls s'. list_all own ls \<and> run_own ls s = Some s' \<longrightarrow> length ls \<le> work s \<and>
       (finished s' \<or> (\<exists>l s''. own l \<and> step l s' = Some s'')))"
proof (intro conjI[OF own_steps_finish[OF assms]] allI impI)
  fix ls s' assume run: "list_all own ls \<and> run_own ls s = Some s'"
  then have "length ls \<le> work s" using own_steps_bounded[of ls s s'] by simp
  moreover have "pending s'" using run own_steps_pending[of ls s s'] assms by simp
  then have "finished s' \<or> (\<exists>l s''. own l \<and> step l s' = Some s'')" using never_stuck by blast
  ultimately show "length ls \<le> work s \<and> (finished s' \<or> (\<exists>l s''. own l \<and> step l s' = Some s''))" ..
qed

end

end
