(* ===== verification/Action_Server.thy ===== *)
theory Action_Server
  imports Action_Protocol Input_Event Step_Machine "HOL-Library.Sublist"
begin

text \<open>
  \<open>internal/action/server_linux.go\<close>: the daemon broadcasts action identifiers to its clients.  The Go
  code shares \<open>*client\<close> pointers between the map of clients and the two goroutines of a connection;
  here a connection has a number and its object is in the store \<open>sv_conns\<close>.  The critical sections
  of the mutex and the steps of the goroutines between them are the labels of \<open>server_step\<close>.

  A close of a closed channel and a send on one panic: the operations return \<open>None\<close> then.
  \<open>json.Marshal\<close> is the parameter \<open>encode\<close>; the answers of the kernel come with the labels.
\<close>

section \<open>State\<close>

type_synonym conn_id = nat

datatype writer = WReading | WWriting string | WRemoving | WDone
datatype watcher = RReading | RRemoving | RDone

record conn =
  cn_uid :: u32
  cn_queue :: "string list"
  cn_queue_closed :: bool
  cn_closes :: nat                 \<comment> \<open>calls of \<open>connection.Close\<close>\<close>
  cn_writer :: writer
  cn_watcher :: watcher
  cn_written :: "string list"      \<comment> \<open>history: what was written, what was put in the queue\<close>
  cn_queued :: "string list"

record server =
  sv_clients :: "(u32, conn_id) gomap"
  sv_conns :: "conn_id \<Rightarrow> conn"
  sv_next :: conn_id

definition new_conn :: "u32 \<Rightarrow> conn" where
  "new_conn uid = \<lparr>cn_uid = uid, cn_queue = [], cn_queue_closed = False, cn_closes = 0, cn_writer = WReading,
     cn_watcher = RReading, cn_written = [], cn_queued = []\<rparr>"

definition new_server :: server where
  "new_server = \<lparr>sv_clients = [], sv_conns = (\<lambda>_. new_conn 0), sv_next = 0\<rparr>"

definition queue_size :: nat where "queue_size = 16"

abbreviation cn :: "server \<Rightarrow> conn_id \<Rightarrow> conn" where "cn s c \<equiv> sv_conns s c"

definition upd_conn :: "conn_id \<Rightarrow> (conn \<Rightarrow> conn) \<Rightarrow> server \<Rightarrow> server" where
  "upd_conn c f s = s\<lparr>sv_conns := (sv_conns s)(c := f (sv_conns s c))\<rparr>"

section \<open>Operations\<close>

definition close_queue :: "conn_id \<Rightarrow> server \<Rightarrow> server option" where
  "close_queue c s =
     (if cn_queue_closed (cn s c) then None else Some (upd_conn c (\<lambda>x. x\<lparr>cn_queue_closed := True\<rparr>) s))"

definition close_connection :: "conn_id \<Rightarrow> server \<Rightarrow> server" where
  "close_connection c s = upd_conn c (\<lambda>x. x\<lparr>cn_closes := Suc (cn_closes x)\<rparr>) s"

text \<open>What \<open>Publish\<close>, \<open>removeClient\<close> and \<open>closeClients\<close> do to end a client.\<close>

definition drop_client :: "u32 \<Rightarrow> conn_id \<Rightarrow> server \<Rightarrow> server option" where
  "drop_client uid c s = do {
     s1 \<leftarrow> close_queue c (s\<lparr>sv_clients := gm_del uid (sv_clients s)\<rparr>);
     Some (close_connection c s1) }"

definition add_client :: "conn_id \<Rightarrow> server \<Rightarrow> bool \<times> server" where
  "add_client c s =
     (let uid = cn_uid (cn s c) in
      if gm_get (sv_clients s) uid \<noteq> None then (False, s)
      else (True, s\<lparr>sv_clients := gm_put uid c (sv_clients s)\<rparr>))"

definition enqueue :: "conn_id \<Rightarrow> string \<Rightarrow> server \<Rightarrow> server" where
  "enqueue c data s = upd_conn c (\<lambda>x. x\<lparr>cn_queue := cn_queue x @ [data], cn_queued := cn_queued x @ [data]\<rparr>) s"

text \<open>The loop of \<open>Publish\<close> over the clients, in the order \<open>uids\<close> of the range; a select with a send on
  a closed channel panics.\<close>

fun publish_to :: "string \<Rightarrow> u32 list \<Rightarrow> server \<Rightarrow> server option" where
  "publish_to data [] s = Some s"
| "publish_to data (uid # uids) s =
     (case gm_get (sv_clients s) uid of
        None \<Rightarrow> publish_to data uids s
      | Some c \<Rightarrow> do {
          s1 \<leftarrow> (if cn_queue_closed (cn s c) then None
                 else if length (cn_queue (cn s c)) < queue_size then Some (enqueue c data s)
                 else drop_client uid c s);
          publish_to data uids s1 })"

definition publish :: "(string \<Rightarrow> string) \<Rightarrow> string \<Rightarrow> u32 list \<Rightarrow> server \<Rightarrow> server option" where
  "publish encode act uids s = publish_to (encode act @ [CHR 0x0A]) uids s"

definition remove_client :: "conn_id \<Rightarrow> server \<Rightarrow> server option" where
  "remove_client c s =
     (let uid = cn_uid (cn s c) in
      if gm_get (sv_clients s) uid = Some c then drop_client uid c s else Some s)"

fun close_clients :: "u32 list \<Rightarrow> server \<Rightarrow> server option" where
  "close_clients [] s = Some s"
| "close_clients (uid # uids) s =
     (case gm_get (sv_clients s) uid of
        None \<Rightarrow> close_clients uids s
      | Some c \<Rightarrow> do { s1 \<leftarrow> drop_client uid c s; close_clients uids s1 })"

text \<open>\<open>peerUID\<close>: the raw connection, the control call and \<open>SO_PEERCRED\<close> can fail.\<close>

definition peer_uid :: "nat option \<Rightarrow> nat option \<Rightarrow> nat + u32 \<Rightarrow> nat + u32" where
  "peer_uid raw_error control_error credential =
     (case raw_error of
        Some e \<Rightarrow> Inl e
      | None \<Rightarrow> (case control_error of Some e \<Rightarrow> Inl e | None \<Rightarrow> credential))"

text \<open>The body of the accept loop: \<open>cred\<close> is the answer of \<open>peerUID\<close>.  A connection that is not
  accepted is closed at once; its goroutines are never started.\<close>

definition accept_client :: "u32 list \<Rightarrow> nat + u32 \<Rightarrow> server \<Rightarrow> server" where
  "accept_client allowed cred s =
     (let c = sv_next s;
          reject = (\<lambda>uid s. upd_conn c (\<lambda>_. (new_conn uid)\<lparr>cn_queue_closed := True, cn_closes := 1,
             cn_writer := WDone, cn_watcher := RDone\<rparr>) (s\<lparr>sv_next := Suc c\<rparr>))
      in case cred of
           Inl e \<Rightarrow> reject 0 s
         | Inr uid \<Rightarrow>
             if uid \<notin> set allowed then reject uid s
             else
               let s1 = upd_conn c (\<lambda>_. new_conn uid) (s\<lparr>sv_next := Suc c\<rparr>);
                   (added, s2) = add_client c s1
               in if added then s2 else reject uid s)"

section \<open>The goroutines\<close>

datatype server_label =
    AcceptConn "nat + u32"
  | PublishAction string "u32 list"
  | WriterTakes conn_id             \<comment> \<open>one iteration of the range over the queue, or its end\<close>
  | WriterWrote conn_id bool        \<comment> \<open>with whether the write succeeded\<close>
  | WriterRemoves conn_id
  | WatcherReads conn_id            \<comment> \<open>\<open>Read\<close> returns, whatever it returns\<close>
  | WatcherRemoves conn_id
  | CloseAll "u32 list"

definition writer_takes :: "conn_id \<Rightarrow> server \<Rightarrow> server" where
  "writer_takes c s =
     (case cn_queue (cn s c) of
        [] \<Rightarrow> upd_conn c (\<lambda>x. x\<lparr>cn_writer := WRemoving\<rparr>) s
      | data # rest \<Rightarrow> upd_conn c (\<lambda>x. x\<lparr>cn_queue := rest, cn_writer := WWriting data\<rparr>) s)"

definition writer_wrote :: "conn_id \<Rightarrow> bool \<Rightarrow> server \<Rightarrow> server" where
  "writer_wrote c ok s =
     (case cn_writer (cn s c) of
        WWriting data \<Rightarrow>
          (if ok then upd_conn c (\<lambda>x. x\<lparr>cn_writer := WReading, cn_written := cn_written x @ [data]\<rparr>) s
           else upd_conn c (\<lambda>x. x\<lparr>cn_writer := WRemoving\<rparr>) s)
      | _ \<Rightarrow> s)"

definition server_step :: "u32 list \<Rightarrow> (string \<Rightarrow> string) \<Rightarrow> server_label \<Rightarrow> server \<Rightarrow> server option" where
  "server_step allowed encode l s =
     (case l of
        AcceptConn cred \<Rightarrow> Some (accept_client allowed cred s)
      | PublishAction act uids \<Rightarrow> publish encode act uids s
      | WriterTakes c \<Rightarrow> Some (writer_takes c s)
      | WriterWrote c ok \<Rightarrow> Some (writer_wrote c ok s)
      | WriterRemoves c \<Rightarrow> map_option (upd_conn c (\<lambda>x. x\<lparr>cn_writer := WDone\<rparr>)) (remove_client c s)
      | WatcherReads c \<Rightarrow> Some (upd_conn c (\<lambda>x. x\<lparr>cn_watcher := RRemoving\<rparr>) s)
      | WatcherRemoves c \<Rightarrow> map_option (upd_conn c (\<lambda>x. x\<lparr>cn_watcher := RDone\<rparr>)) (remove_client c s)
      | CloseAll uids \<Rightarrow> close_clients uids s)"

text \<open>When a step can be taken: the goroutine is at that point, a receive has something to receive or a
  closed channel, a write to a closed connection fails, and a range visits every client once.\<close>

definition server_enabled :: "server_label \<Rightarrow> server \<Rightarrow> bool" where
  "server_enabled l s =
     (case l of
        AcceptConn _ \<Rightarrow> True
      | PublishAction _ uids \<Rightarrow> distinct uids \<and> set uids = set (gm_keys (sv_clients s))
      | WriterTakes c \<Rightarrow> c < sv_next s \<and> cn_writer (cn s c) = WReading \<and>
          (cn_queue (cn s c) \<noteq> [] \<or> cn_queue_closed (cn s c))
      | WriterWrote c ok \<Rightarrow> c < sv_next s \<and> (case cn_writer (cn s c) of WWriting _ \<Rightarrow> True | _ \<Rightarrow> False) \<and>
          (ok \<longrightarrow> cn_closes (cn s c) = 0)
      | WriterRemoves c \<Rightarrow> c < sv_next s \<and> cn_writer (cn s c) = WRemoving
      | WatcherReads c \<Rightarrow> c < sv_next s \<and> cn_watcher (cn s c) = RReading
      | WatcherRemoves c \<Rightarrow> c < sv_next s \<and> cn_watcher (cn s c) = RRemoving
      | CloseAll uids \<Rightarrow> distinct uids \<and> set uids = set (gm_keys (sv_clients s)))"

definition server_run :: "u32 list \<Rightarrow> (string \<Rightarrow> string) \<Rightarrow> server \<Rightarrow> bool" where
  "server_run allowed encode s = reachable server_enabled (server_step allowed encode) new_server s"

section \<open>The listening socket\<close>

datatype lstat_answer = NoEntry | LstatErrno nat | Entry bool    \<comment> \<open>whether it is a socket\<close>
datatype probe_answer = ProbeConnected | ProbeRefused | ProbeErrno nat

datatype socket_op = Lstat | ProbeDial | ProbeClose | RemovePath | Listen | Chmod | CloseReady | CloseListener | CloseClients

datatype serve_error =
    NoUsers | InspectFailed nat | NotASocket | AlreadyRunning | ProbeFailed nat | RemoveFailed nat
  | ListenFailed nat | ChmodFailed nat | AcceptFailed nat

definition remove_socket :: "lstat_answer \<Rightarrow> probe_answer \<Rightarrow> nat option \<Rightarrow> (serve_error + unit) \<times> socket_op list" where
  "remove_socket lstat probe removed =
     (case lstat of
        NoEntry \<Rightarrow> (Inr (), [Lstat])
      | LstatErrno e \<Rightarrow> (Inl (InspectFailed e), [Lstat])
      | Entry is_socket \<Rightarrow>
          if \<not> is_socket then (Inl NotASocket, [Lstat])
          else (case probe of
                  ProbeConnected \<Rightarrow> (Inl AlreadyRunning, [Lstat, ProbeDial, ProbeClose])
                | ProbeErrno e \<Rightarrow> (Inl (ProbeFailed e), [Lstat, ProbeDial])
                | ProbeRefused \<Rightarrow>
                    (case removed of
                       Some e \<Rightarrow> (Inl (RemoveFailed e), [Lstat, ProbeDial, RemovePath])
                     | None \<Rightarrow> (Inr (), [Lstat, ProbeDial, RemovePath]))))"

text \<open>The deferred cleanup of \<open>Serve\<close>, and \<open>Serve\<close> up to its accept loop.\<close>

definition serve_cleanup :: "socket_op list" where
  "serve_cleanup = [CloseListener, RemovePath, CloseClients]"

definition serve_setup :: "u32 list \<Rightarrow> lstat_answer \<Rightarrow> probe_answer \<Rightarrow> nat option \<Rightarrow> nat option \<Rightarrow> nat option \<Rightarrow>
    (serve_error + unit) \<times> socket_op list" where
  "serve_setup allowed lstat probe removed listen chmod =
     (if allowed = [] then (Inl NoUsers, [])
      else
        (case remove_socket lstat probe removed of
           (Inl e, ops) \<Rightarrow> (Inl e, ops)
         | (Inr _, ops) \<Rightarrow>
             (case listen of
                Some e \<Rightarrow> (Inl (ListenFailed e), ops @ [Listen])
              | None \<Rightarrow>
                  (case chmod of
                     Some e \<Rightarrow> (Inl (ChmodFailed e), ops @ [Listen, Chmod] @ serve_cleanup)
                   | None \<Rightarrow> (Inr (), ops @ [Listen, Chmod, CloseReady])))))"

text \<open>The end of the accept loop: the listener is closed when the context is cancelled.\<close>

definition serve_end :: "bool \<Rightarrow> nat \<Rightarrow> serve_error option \<times> socket_op list" where
  "serve_end cancelled e = (if cancelled then None else Some (AcceptFailed e), serve_cleanup)"

section \<open>The invariant\<close>

definition registered :: "server \<Rightarrow> conn_id \<Rightarrow> bool" where
  "registered s c \<longleftrightarrow> gm_get (sv_clients s) (cn_uid (cn s c)) = Some c"

definition in_flight :: "conn \<Rightarrow> string list" where
  "in_flight x = (case cn_writer x of WWriting data \<Rightarrow> [data] | _ \<Rightarrow> [])"

definition data_ok :: "conn \<Rightarrow> bool" where
  "data_ok x \<longleftrightarrow> prefix (cn_written x) (cn_queued x) \<and>
     (cn_writer x = WReading \<or> in_flight x \<noteq> [] \<longrightarrow> cn_queued x = cn_written x @ in_flight x @ cn_queue x)"

definition conn_ok :: "bool \<Rightarrow> conn \<Rightarrow> bool" where
  "conn_ok reg x \<longleftrightarrow> cn_queue_closed x = (\<not> reg) \<and> cn_closes x = (if reg then 0 else 1) \<and>
     (reg \<longrightarrow> length (cn_queue x) \<le> queue_size) \<and> data_ok x"

definition server_inv :: "u32 list \<Rightarrow> server \<Rightarrow> bool" where
  "server_inv allowed s \<longleftrightarrow>
     (\<forall>uid c. gm_get (sv_clients s) uid = Some c \<longrightarrow> c < sv_next s \<and> cn_uid (cn s c) = uid \<and> uid \<in> set allowed) \<and>
     (\<forall>c < sv_next s. conn_ok (registered s c) (cn s c))"

lemma server_inv_new: "server_inv allowed new_server"
  by (simp add: server_inv_def new_server_def)

lemma server_client:
  assumes "server_inv allowed s" "gm_get (sv_clients s) uid = Some c"
  shows "c < sv_next s" "cn_uid (cn s c) = uid" "registered s c" "conn_ok True (cn s c)"
proof -
  show 1: "c < sv_next s" "cn_uid (cn s c) = uid" using assms by (simp_all add: server_inv_def)
  then show 2: "registered s c" using assms(2) by (simp add: registered_def)
  then show "conn_ok True (cn s c)" using assms(1) 1(1) by (auto simp: server_inv_def)
qed

lemma upd_conn_fields [simp]:
  "sv_clients (upd_conn c f s) = sv_clients s" "sv_next (upd_conn c f s) = sv_next s"
  "cn (upd_conn c f s) c' = (if c' = c then f (cn s c) else cn s c')"
  by (simp_all add: upd_conn_def)

text \<open>A change of one connection that keeps its owner and its bookkeeping.\<close>

lemma server_inv_upd:
  assumes "server_inv allowed s" "cn_uid (f (cn s c)) = cn_uid (cn s c)"
    "c < sv_next s \<Longrightarrow> conn_ok (registered s c) (cn s c) \<Longrightarrow> conn_ok (registered s c) (f (cn s c))"
  shows "server_inv allowed (upd_conn c f s)"
proof -
  have "registered (upd_conn c f s) c' = registered s c'" for c' using assms(2) by (simp add: registered_def)
  then show ?thesis using assms by (auto simp: server_inv_def)
qed

lemma drop_client_ok:
  assumes "server_inv allowed s" "gm_get (sv_clients s) uid = Some c"
  defines "x' \<equiv> (cn s c)\<lparr>cn_queue_closed := True, cn_closes := 1\<rparr>"
  shows "\<exists>s'. drop_client uid c s = Some s' \<and> server_inv allowed s' \<and> sv_next s' = sv_next s \<and>
    sv_clients s' = gm_del uid (sv_clients s) \<and> sv_conns s' = (sv_conns s)(c := x')"
proof -
  note cl = server_client[OF assms(1,2)]
  have op: "\<not> cn_queue_closed (cn s c)" "cn_closes (cn s c) = 0" using cl(4) by (simp_all add: conn_ok_def)
  let ?s = "s\<lparr>sv_clients := gm_del uid (sv_clients s), sv_conns := (sv_conns s)(c := x')\<rparr>"
  have drop: "drop_client uid c s = Some ?s"
    using op by (simp add: drop_client_def close_queue_def close_connection_def upd_conn_def x'_def)
  have reg: "registered ?s c' \<longleftrightarrow> registered s c' \<and> c' \<noteq> c" for c'
  proof (cases "c' = c")
    case False
    have "cn_uid (cn s c') \<noteq> uid" if "registered s c'" using that assms(2) False by (auto simp: registered_def)
    then show ?thesis using False by (auto simp: registered_def)
  qed (simp add: registered_def cl(2) x'_def)
  have "conn_ok (registered ?s c') (cn ?s c')" if "c' < sv_next s" for c'
    using assms(1) that cl(4) unfolding reg by (auto simp: server_inv_def conn_ok_def data_ok_def in_flight_def x'_def)
  moreover have "c' < sv_next s \<and> cn_uid (cn ?s c') = u \<and> u \<in> set allowed" if "gm_get (sv_clients ?s) u = Some c'" for u c'
    using assms(1) that cl(2) by (auto simp: server_inv_def x'_def split: if_splits)
  ultimately have "server_inv allowed ?s" by (simp add: server_inv_def)
  with drop show ?thesis by simp
qed

lemma enqueue_ok:
  assumes "server_inv allowed s" "gm_get (sv_clients s) uid = Some c" "length (cn_queue (cn s c)) < queue_size"
  shows "server_inv allowed (enqueue c data s)"
proof -
  have "data_ok (x\<lparr>cn_queue := cn_queue x @ [data], cn_queued := cn_queued x @ [data]\<rparr>)" if "data_ok x" for x
    using that by (cases "cn_writer x") (simp_all add: data_ok_def in_flight_def prefix_prefix)
  then show ?thesis
    unfolding enqueue_def using assms(3)
    by (intro server_inv_upd[OF assms(1)]) (simp_all add: conn_ok_def queue_size_def)
qed

lemma remove_client_ok:
  assumes "server_inv allowed s" "c < sv_next s"
  shows "\<exists>s'. remove_client c s = Some s' \<and> server_inv allowed s' \<and> sv_next s' = sv_next s \<and>
    \<not> registered s' c \<and> cn_writer (cn s' c) = cn_writer (cn s c)"
proof (cases "gm_get (sv_clients s) (cn_uid (cn s c)) = Some c")
  case True
  from drop_client_ok[OF assms(1) True] True show ?thesis by (auto simp: remove_client_def registered_def)
next
  case False
  then show ?thesis using assms(1) by (simp add: remove_client_def registered_def)
qed

text \<open>A new connection, registered or not.\<close>

lemma server_inv_new_conn:
  assumes "server_inv allowed s" "sv_next t = Suc (sv_next s)" "\<forall>c < sv_next s. cn t c = cn s c"
    "sv_clients t = sv_clients s \<and> conn_ok False (cn t (sv_next s)) \<or>
     (\<exists>uid. sv_clients t = gm_put uid (sv_next s) (sv_clients s) \<and> gm_get (sv_clients s) uid = None \<and>
       uid \<in> set allowed \<and> cn_uid (cn t (sv_next s)) = uid \<and> conn_ok True (cn t (sv_next s)))"
  shows "server_inv allowed t"
proof -
  have old: "c < sv_next s" "cn_uid (cn s c) = uid" "uid \<in> set allowed" if "gm_get (sv_clients s) uid = Some c" for uid c
    using assms(1) that by (simp_all add: server_inv_def)
  then have fresh: "gm_get (sv_clients s) uid \<noteq> Some (sv_next s)" for uid by blast
  have same: "registered t c = registered s c" if "c < sv_next s" for c
    using assms(3,4) that by (auto simp: registered_def split: if_splits)
  have "conn_ok (registered t (sv_next s)) (cn t (sv_next s))"
    using assms(4) fresh by (auto simp: registered_def)
  then have "conn_ok (registered t c) (cn t c)" if "c < sv_next t" for c
    using that same[of c] assms(1-3) by (cases "c = sv_next s") (simp_all add: server_inv_def less_Suc_eq)
  moreover have "c < sv_next t \<and> cn_uid (cn t c) = uid \<and> uid \<in> set allowed" if "gm_get (sv_clients t) uid = Some c" for uid c
  proof (cases "c = sv_next s")
    case True
    then show ?thesis using assms(2,4) that fresh by (auto split: if_splits)
  next
    case False
    then have "gm_get (sv_clients s) uid = Some c" using assms(4) that by (auto split: if_splits)
    from old[OF this] show ?thesis using assms(2,3) by simp
  qed
  ultimately show ?thesis by (simp add: server_inv_def)
qed

lemma accept_client_ok:
  assumes "server_inv allowed s"
  shows "server_inv allowed (accept_client allowed cred s)"
proof (rule server_inv_new_conn[OF assms])
  have ok: "conn_ok False ((new_conn uid)\<lparr>cn_queue_closed := True, cn_closes := 1, cn_writer := WDone, cn_watcher := RDone\<rparr>)"
    "conn_ok True (new_conn uid)" "cn_uid (new_conn uid) = uid" for uid
    by (simp_all add: conn_ok_def data_ok_def in_flight_def new_conn_def)
  show "sv_next (accept_client allowed cred s) = Suc (sv_next s)"
    by (simp add: accept_client_def add_client_def Let_def split: sum.split)
  show "\<forall>c < sv_next s. cn (accept_client allowed cred s) c = cn s c"
    by (simp add: accept_client_def add_client_def Let_def upd_conn_def split: sum.split)
  show "sv_clients (accept_client allowed cred s) = sv_clients s \<and> conn_ok False (cn (accept_client allowed cred s) (sv_next s)) \<or>
     (\<exists>uid. sv_clients (accept_client allowed cred s) = gm_put uid (sv_next s) (sv_clients s) \<and> gm_get (sv_clients s) uid = None \<and>
       uid \<in> set allowed \<and> cn_uid (cn (accept_client allowed cred s) (sv_next s)) = uid \<and>
       conn_ok True (cn (accept_client allowed cred s) (sv_next s)))"
    using ok by (cases cred) (auto simp: accept_client_def add_client_def Let_def upd_conn_def)
qed

lemma publish_to_ok:
  "server_inv allowed s \<Longrightarrow> \<exists>s'. publish_to data uids s = Some s' \<and> server_inv allowed s' \<and> sv_next s' = sv_next s"
proof (induction uids arbitrary: s)
  case (Cons uid uids)
  show ?case
  proof (cases "gm_get (sv_clients s) uid")
    case None
    then show ?thesis using Cons by simp
  next
    case (Some c)
    have op: "\<not> cn_queue_closed (cn s c)" using server_client(4)[OF Cons.prems Some] by (simp add: conn_ok_def)
    obtain s1 where "(if length (cn_queue (cn s c)) < queue_size then Some (enqueue c data s) else drop_client uid c s) = Some s1"
      "server_inv allowed s1" "sv_next s1 = sv_next s"
      using enqueue_ok[OF Cons.prems Some, of data] drop_client_ok[OF Cons.prems Some]
      by (cases "length (cn_queue (cn s c)) < queue_size") (auto simp: enqueue_def)
    with Cons.IH[of s1] op Some show ?thesis by auto
  qed
qed simp

lemma close_clients_ok:
  "server_inv allowed s \<Longrightarrow> \<exists>s'. close_clients uids s = Some s' \<and> server_inv allowed s' \<and>
     sv_next s' = sv_next s \<and> (\<forall>uid. gm_get (sv_clients s') uid = (if uid \<in> set uids then None else gm_get (sv_clients s) uid))"
proof (induction uids arbitrary: s)
  case (Cons uid uids)
  show ?case
  proof (cases "gm_get (sv_clients s) uid")
    case None
    then show ?thesis using Cons.IH[OF Cons.prems] by auto
  next
    case (Some c)
    from drop_client_ok[OF Cons.prems Some] obtain s1 where s1: "drop_client uid c s = Some s1" "server_inv allowed s1"
      "sv_next s1 = sv_next s" "sv_clients s1 = gm_del uid (sv_clients s)" by blast
    obtain s2 where "close_clients uids s1 = Some s2" "server_inv allowed s2" "sv_next s2 = sv_next s1"
      "\<forall>u. gm_get (sv_clients s2) u = (if u \<in> set uids then None else gm_get (sv_clients s1) u)"
      using Cons.IH[OF s1(2)] by blast
    then show ?thesis using s1 Some by auto
  qed
qed simp

text \<open>Every enabled step is taken without a panic and keeps the invariant.\<close>

lemma server_step_ok:
  assumes "server_inv allowed s" "server_enabled l s"
  shows "\<exists>s'. server_step allowed encode l s = Some s' \<and> server_inv allowed s'"
proof (cases l)
  case (AcceptConn cred)
  then show ?thesis using accept_client_ok[OF assms(1)] by (simp add: server_step_def)
next
  case (PublishAction act uids)
  then show ?thesis using publish_to_ok[OF assms(1)] unfolding server_step_def publish_def by fastforce
next
  case (WriterTakes c)
  have "server_inv allowed (writer_takes c s)"
  proof (cases "cn_queue (cn s c)")
    case Nil
    then show ?thesis unfolding writer_takes_def
      by (auto intro!: server_inv_upd[OF assms(1)] simp: conn_ok_def data_ok_def in_flight_def)
  next
    case (Cons data rest)
    then show ?thesis using assms(2) WriterTakes unfolding writer_takes_def
      by (auto intro!: server_inv_upd[OF assms(1)] simp: conn_ok_def data_ok_def in_flight_def server_enabled_def)
  qed
  then show ?thesis using WriterTakes by (simp add: server_step_def)
next
  case (WriterWrote c ok)
  then obtain data where d: "cn_writer (cn s c) = WWriting data"
    using assms(2) by (auto simp: server_enabled_def split: writer.splits)
  have "server_inv allowed (writer_wrote c ok s)"
    unfolding writer_wrote_def d using d
    by (auto intro!: server_inv_upd[OF assms(1)] simp: conn_ok_def data_ok_def in_flight_def)
  then show ?thesis using WriterWrote by (simp add: server_step_def)
next
  case (WriterRemoves c)
  then have c: "c < sv_next s" "cn_writer (cn s c) = WRemoving" using assms(2) by (simp_all add: server_enabled_def)
  from remove_client_ok[OF assms(1) c(1)] obtain s1 where s1: "remove_client c s = Some s1" "server_inv allowed s1"
    "cn_writer (cn s1 c) = WRemoving" using c(2) by auto
  have "server_inv allowed (upd_conn c (\<lambda>x. x\<lparr>cn_writer := WDone\<rparr>) s1)"
    by (rule server_inv_upd[OF s1(2)]) (use s1(3) in \<open>auto simp: conn_ok_def data_ok_def in_flight_def\<close>)
  then show ?thesis using s1 WriterRemoves by (simp add: server_step_def)
next
  case (WatcherReads c)
  have "server_inv allowed (upd_conn c (\<lambda>x. x\<lparr>cn_watcher := RRemoving\<rparr>) s)"
    by (rule server_inv_upd[OF assms(1)]) (auto simp: conn_ok_def data_ok_def in_flight_def)
  then show ?thesis using WatcherReads by (simp add: server_step_def)
next
  case (WatcherRemoves c)
  then have "c < sv_next s" using assms(2) by (simp add: server_enabled_def)
  from remove_client_ok[OF assms(1) this] obtain s1 where s1: "remove_client c s = Some s1" "server_inv allowed s1" by blast
  have "server_inv allowed (upd_conn c (\<lambda>x. x\<lparr>cn_watcher := RDone\<rparr>) s1)"
    by (rule server_inv_upd[OF s1(2)]) (auto simp: conn_ok_def data_ok_def in_flight_def)
  then show ?thesis using s1 WatcherRemoves by (simp add: server_step_def)
next
  case (CloseAll uids)
  then show ?thesis using close_clients_ok[OF assms(1), of uids] by (auto simp: server_step_def)
qed

interpretation sm: guarded_machine server_enabled "server_step allowed encode" new_server "server_inv allowed"
    for allowed encode
  by unfold_locales (rule server_inv_new, rule server_step_ok)

lemma server_run_inv: "server_run allowed encode s \<Longrightarrow> server_inv allowed s"
  unfolding server_run_def by (rule sm.reachable_inv)

section \<open>Properties\<close>

text \<open>Two users connect, one of them twice; one message is written to the first and its reader goes away.\<close>

definition example_server_labels :: "server_label list" where
  "example_server_labels = [AcceptConn (Inr 1000), AcceptConn (Inr 1000), AcceptConn (Inr 7), AcceptConn (Inr 1001),
     PublishAction ''one'' [1000, 1001], WriterTakes 0, WriterWrote 0 True, PublishAction ''two'' [1001, 1000], WatcherReads 0]"

definition server_view :: "(server \<Rightarrow> 'a) \<Rightarrow> server_label list \<Rightarrow> 'a option" where
  "server_view f ls = map_option f (run_labels server_enabled (server_step [1000, 1001] id) ls new_server)"

lemma server_viewE:
  assumes "server_view f ls = Some x"
  obtains s where "server_run [1000, 1001] id s" "f s = x"
  using run_view_reachable[OF assms[unfolded server_view_def]] unfolding server_run_def by blast

text \<open>
  C16. The server never panics: in every reachable state each step a goroutine can take, in any order,
  is taken without closing a closed channel and without sending on one.
\<close>

theorem server_never_panics:
  assumes "server_run allowed encode s" "server_enabled l s"
  shows "\<exists>s'. server_step allowed encode l s = Some s'"
  using assms unfolding server_run_def by (rule sm.never_panics)

theorem server_never_panics_witness:
  "\<exists>s s'. server_run [1000, 1001] id s \<and> server_enabled (WatcherRemoves 0) s \<and> server_step [1000, 1001] id (WatcherRemoves 0) s = Some s'"
proof -
  have "server_view (server_enabled (WatcherRemoves 0)) example_server_labels = Some True" by code_simp
  then obtain s where "server_run [1000, 1001] id s" "server_enabled (WatcherRemoves 0) s = True" by (rule server_viewE)
  with server_never_panics[OF this(1), of "WatcherRemoves 0"] show ?thesis by blast
qed

text \<open>
  C17. The connections of the server.  A client belongs to an allowed user, and a user has at most one.
  The connection of a client has never been closed and its queue holds at most 16 messages; every
  other connection that was accepted has been closed exactly once.  What was written to a connection is the
  beginning of what was queued for it, and while its writer works nothing queued is lost.
\<close>

theorem server_connections:
  assumes "server_run allowed encode s"
  shows "(\<forall>uid c. gm_get (sv_clients s) uid = Some c \<longrightarrow> uid \<in> set allowed \<and> cn_uid (cn s c) = uid \<and> c < sv_next s) \<and>
    (\<forall>c < sv_next s. cn_closes (cn s c) = (if registered s c then 0 else 1) \<and>
       (registered s c \<longrightarrow> \<not> cn_queue_closed (cn s c) \<and> length (cn_queue (cn s c)) \<le> 16) \<and>
       prefix (cn_written (cn s c)) (cn_queued (cn s c)) \<and>
       (cn_writer (cn s c) = WReading \<or> in_flight (cn s c) \<noteq> [] \<longrightarrow>
          cn_queued (cn s c) = cn_written (cn s c) @ in_flight (cn s c) @ cn_queue (cn s c)))"
  using server_run_inv[OF assms] by (auto simp: server_inv_def conn_ok_def data_ok_def queue_size_def)

theorem server_connections_witness:
  "\<exists>s. server_run [1000, 1001] id s \<and> map (\<lambda>c. cn_closes (cn s c)) [0, 1, 2, 3] = [0, 1, 1, 0] \<and> registered s 0 \<and>
     cn_queued (cn s 0) = cn_written (cn s 0) @ in_flight (cn s 0) @ cn_queue (cn s 0)"
proof -
  have "server_view (\<lambda>s. (sv_next s, map (registered s) [0, 1, 2, 3], cn_writer (cn s 0))) example_server_labels =
    Some (4, [True, False, False, True], WReading)" by code_simp
  then obtain s where "server_run [1000, 1001] id s"
    "(sv_next s, map (registered s) [0, 1, 2, 3], cn_writer (cn s 0)) = (4, [True, False, False, True], WReading)"
    by (rule server_viewE)
  with server_connections[OF this(1)] show ?thesis by (intro exI[of _ s]) simp
qed

lemma publish_to_spec:
  assumes "server_inv allowed s" "distinct uids" "publish_to data uids s = Some s'"
  shows "(\<forall>uid. uid \<notin> set uids \<longrightarrow> gm_get (sv_clients s') uid = gm_get (sv_clients s) uid) \<and>
    (\<forall>c. (\<forall>uid\<in>set uids. gm_get (sv_clients s) uid \<noteq> Some c) \<longrightarrow> cn s' c = cn s c) \<and>
    (\<forall>uid c. uid \<in> set uids \<longrightarrow> gm_get (sv_clients s) uid = Some c \<longrightarrow>
      (if length (cn_queue (cn s c)) < queue_size
       then gm_get (sv_clients s') uid = Some c \<and>
         cn s' c = (cn s c)\<lparr>cn_queue := cn_queue (cn s c) @ [data], cn_queued := cn_queued (cn s c) @ [data]\<rparr>
       else gm_get (sv_clients s') uid = None \<and> cn s' c = (cn s c)\<lparr>cn_queue_closed := True, cn_closes := 1\<rparr>))"
  using assms
proof (induction uids arbitrary: s)
  case (Cons u us)
  show ?case
  proof (cases "gm_get (sv_clients s) u")
    case None
    then show ?thesis using Cons.IH[of s] Cons.prems by auto
  next
    case (Some c)
    note cl = server_client[OF Cons.prems(1) Some]
    define x where "x = (if length (cn_queue (cn s c)) < queue_size
      then (cn s c)\<lparr>cn_queue := cn_queue (cn s c) @ [data], cn_queued := cn_queued (cn s c) @ [data]\<rparr>
      else (cn s c)\<lparr>cn_queue_closed := True, cn_closes := 1\<rparr>)"
    define m where "m = (if length (cn_queue (cn s c)) < queue_size then sv_clients s else gm_del u (sv_clients s))"
    have op: "\<not> cn_queue_closed (cn s c)" using cl(4) by (simp add: conn_ok_def)
    obtain s1 where s1: "(if length (cn_queue (cn s c)) < queue_size then Some (enqueue c data s) else drop_client u c s) = Some s1"
      "server_inv allowed s1" "sv_clients s1 = m" "sv_conns s1 = (sv_conns s)(c := x)"
      using enqueue_ok[OF Cons.prems(1) Some, of data] drop_client_ok[OF Cons.prems(1) Some]
      by (cases "length (cn_queue (cn s c)) < queue_size") (auto simp: enqueue_def upd_conn_def x_def m_def)
    have rest: "publish_to data us s1 = Some s'" using Cons.prems(3) Some op s1(1) by simp
    have u: "u \<notin> set us" "distinct us" using Cons.prems(2) by simp_all
    note IH = Cons.IH[OF s1(2) u(2) rest]
    have m: "gm_get m v = gm_get (sv_clients s) v" if "v \<noteq> u" for v using that by (simp add: m_def)
    have owner: "v = u" if "gm_get (sv_clients s) v = Some c" for v
      using server_client(2)[OF Cons.prems(1) that] cl(2) by simp
    have c': "cn s' c = x"
    proof -
      have "gm_get (sv_clients s1) v \<noteq> Some c" if "v \<in> set us" for v
        using that u(1) m[of v] owner[of v] s1(3) by metis
      then show ?thesis using IH s1(4) by simp
    qed
    have mu: "gm_get (sv_clients s') u = gm_get m u" using IH u(1) s1(3) by simp
    show ?thesis
    proof (intro conjI allI impI)
      fix v assume "v \<notin> set (u # us)"
      then show "gm_get (sv_clients s') v = gm_get (sv_clients s) v" using IH s1(3) m by simp
    next
      fix k assume k: "\<forall>v\<in>set (u # us). gm_get (sv_clients s) v \<noteq> Some k"
      then have "k \<noteq> c" using Some by auto
      moreover have "\<forall>v\<in>set us. gm_get (sv_clients s1) v \<noteq> Some k"
      proof
        fix v assume "v \<in> set us"
        then have "v \<noteq> u" "gm_get (sv_clients s) v \<noteq> Some k" using k u(1) by auto
        then show "gm_get (sv_clients s1) v \<noteq> Some k" by (simp add: s1(3) m)
      qed
      ultimately show "cn s' k = cn s k" using IH s1(4) by simp
    next
      fix v k assume vk: "v \<in> set (u # us)" "gm_get (sv_clients s) v = Some k"
      show "if length (cn_queue (cn s k)) < queue_size
         then gm_get (sv_clients s') v = Some k \<and>
           cn s' k = (cn s k)\<lparr>cn_queue := cn_queue (cn s k) @ [data], cn_queued := cn_queued (cn s k) @ [data]\<rparr>
         else gm_get (sv_clients s') v = None \<and> cn s' k = (cn s k)\<lparr>cn_queue_closed := True, cn_closes := 1\<rparr>"
      proof (cases "v = u")
        case True
        then show ?thesis using vk(2) Some c' mu by (simp add: x_def m_def)
      next
        case False
        then have v: "v \<in> set us" "gm_get (sv_clients s1) v = Some k" using vk m s1(3) by auto
        have "k \<noteq> c" using owner[of v] vk(2) False by auto
        then have "cn s1 k = cn s k" using s1(4) by simp
        then show ?thesis using IH v by auto
      qed
    qed
  qed
qed simp

text \<open>
  C25. \<open>Publish\<close> never waits for a client.  Each client with room for it gets the message at the end of
  its queue; a client whose 16 messages are not consumed is disconnected, its connection closed
  once; no other connection is touched, whatever the order of the clients.
\<close>

theorem publish_queues_or_drops:
  assumes "server_run allowed encode s" "server_enabled (PublishAction act uids) s"
  shows "\<exists>s'. publish encode act uids s = Some s' \<and>
    (\<forall>uid c. gm_get (sv_clients s) uid = Some c \<longrightarrow>
      (if length (cn_queue (cn s c)) < 16
       then gm_get (sv_clients s') uid = Some c \<and> cn_closes (cn s' c) = 0 \<and>
         cn_queue (cn s' c) = cn_queue (cn s c) @ [encode act @ [CHR 0x0A]]
       else gm_get (sv_clients s') uid = None \<and> cn_closes (cn s' c) = 1 \<and> cn_queue (cn s' c) = cn_queue (cn s c))) \<and>
    (\<forall>c. \<not> registered s c \<longrightarrow> cn s' c = cn s c)"
proof -
  have inv: "server_inv allowed s" using server_run_inv[OF assms(1)] .
  have uids: "distinct uids" "set uids = set (gm_keys (sv_clients s))" using assms(2) by (simp_all add: server_enabled_def)
  obtain s' where s': "publish_to (encode act @ [CHR 0x0A]) uids s = Some s'"
    using publish_to_ok[OF inv] by blast
  note spec = publish_to_spec[OF inv uids(1) s']
  have mem: "uid \<in> set uids" if "gm_get (sv_clients s) uid = Some c" for uid c using that uids(2) gm.keys_get by fastforce
  have "cn s' c = cn s c" if "\<not> registered s c" for c
  proof -
    have "gm_get (sv_clients s) uid \<noteq> Some c" for uid using that server_client(3)[OF inv, of uid c] by blast
    then show ?thesis using spec by blast
  qed
  moreover have "if length (cn_queue (cn s c)) < 16
       then gm_get (sv_clients s') uid = Some c \<and> cn_closes (cn s' c) = 0 \<and>
         cn_queue (cn s' c) = cn_queue (cn s c) @ [encode act @ [CHR 0x0A]]
       else gm_get (sv_clients s') uid = None \<and> cn_closes (cn s' c) = 1 \<and> cn_queue (cn s' c) = cn_queue (cn s c)"
    if c: "gm_get (sv_clients s) uid = Some c" for uid c
  proof -
    have "cn_closes (cn s c) = 0" using server_client(4)[OF inv c] by (simp add: conn_ok_def)
    then show ?thesis using spec mem[OF c] c by (auto simp: queue_size_def)
  qed
  ultimately show ?thesis using s' by (auto simp: publish_def)
qed

theorem publish_queues_or_drops_witness:
  "\<exists>s s'. server_run [1000, 1001] id s \<and> publish id ''three'' [1001, 1000] s = Some s' \<and>
     cn_queue (cn s' 3) = [''one'' @ [CHR 0x0A], ''two'' @ [CHR 0x0A], ''three'' @ [CHR 0x0A]]"
proof -
  have "server_view (\<lambda>s. (server_enabled (PublishAction ''three'' [1001, 1000]) s, gm_get (sv_clients s) 1001, cn_queue (cn s 3)))
    example_server_labels = Some (True, Some 3, [''one'' @ [CHR 0x0A], ''two'' @ [CHR 0x0A]])" by code_simp
  then obtain s where s: "server_run [1000, 1001] id s"
    "(server_enabled (PublishAction ''three'' [1001, 1000]) s, gm_get (sv_clients s) 1001, cn_queue (cn s 3)) =
      (True, Some 3, [''one'' @ [CHR 0x0A], ''two'' @ [CHR 0x0A]])" by (rule server_viewE)
  from s have client: "gm_get (sv_clients s) 1001 = Some 3" "length (cn_queue (cn s 3)) < 16"
    "server_enabled (PublishAction ''three'' [1001, 1000]) s" "cn_queue (cn s 3) = [''one'' @ [CHR 0x0A], ''two'' @ [CHR 0x0A]]"
    by simp_all
  from publish_queues_or_drops[OF s(1) client(3)] client(1,2) obtain s' where
    "publish id ''three'' [1001, 1000] s = Some s'" "cn_queue (cn s' 3) = cn_queue (cn s 3) @ [id ''three'' @ [CHR 0x0A]]"
    by fastforce
  with s(1) client(4) show ?thesis by (intro exI[of _ s] exI[of _ s']) simp
qed

text \<open>
  The server removes no file that is not its own.  Before it listens it removes the entry at its
  path only if that is a socket nobody answers on; it reports ready only when the socket exists with
  its final permissions, and when a later step of the set-up fails it removes what it created.
\<close>

theorem serve_setup_socket:
  assumes "serve_setup allowed lstat probe removed listen chmod = (r, ops)"
  shows "(RemovePath \<in> set (takeWhile (\<lambda>x. x \<noteq> Listen) ops) \<longrightarrow> lstat = Entry True \<and> probe = ProbeRefused) \<and>
    (r = Inr () \<longleftrightarrow> CloseReady \<in> set ops) \<and>
    (CloseReady \<in> set ops \<longrightarrow> listen = None \<and> chmod = None \<and> allowed \<noteq> [] \<and> lstat \<noteq> Entry False \<and>
       last ops = CloseReady \<and> CloseListener \<notin> set ops) \<and>
    (r \<noteq> Inr () \<longrightarrow> Listen \<in> set ops \<longrightarrow> listen = None \<longrightarrow>
       drop (length ops - 3) ops = [CloseListener, RemovePath, CloseClients])"
  using assms
  by (auto simp: serve_setup_def remove_socket_def serve_cleanup_def
      split: if_splits lstat_answer.splits probe_answer.splits option.splits)

theorem serve_setup_socket_witness:
  "serve_setup [1000] (Entry True) ProbeRefused None None (Some 1) =
     (Inl (ChmodFailed 1), [Lstat, ProbeDial, RemovePath, Listen, Chmod, CloseListener, RemovePath, CloseClients]) \<and>
   drop (length [Lstat, ProbeDial, RemovePath, Listen, Chmod, CloseListener, RemovePath, CloseClients] - 3)
     [Lstat, ProbeDial, RemovePath, Listen, Chmod, CloseListener, RemovePath, CloseClients] = [CloseListener, RemovePath, CloseClients]"
proof -
  have "serve_setup [1000] (Entry True) ProbeRefused None None (Some 1) =
     (Inl (ChmodFailed 1), [Lstat, ProbeDial, RemovePath, Listen, Chmod, CloseListener, RemovePath, CloseClients])" by code_simp
  from serve_setup_socket[OF this] this show ?thesis by simp
qed

end
