(* ===== verification/Action_Client.thy ===== *)
theory Action_Client
  imports Action_Server Go_Strings
begin

text \<open>
  \<open>internal/action/client_linux.go\<close>: the client keeps a connection to the daemon and passes on the
  action identifiers it reads.  \<open>bufio.Scanner\<close> is modelled with the line splitting and the size limit
  the code gives it; \<open>json.Unmarshal\<close> is the parameter \<open>decode\<close>.  Each round of the loop of \<open>Run\<close> is
  an \<open>attempt\<close>: what the network and the context did in it.
\<close>

section \<open>Reading lines\<close>

definition maximumMessageSize :: nat where "maximumMessageSize = 64 * 1024"

definition newline :: char where "newline = CHR 0x0A"

text \<open>\<open>ScanLines\<close> drops a carriage return before the newline.\<close>

definition drop_cr :: "string \<Rightarrow> string" where
  "drop_cr line = (if line \<noteq> [] \<and> last line = CHR 0x0D then butlast line else line)"

lemma cut_at_shorter: "cut_at c xs = Some (a, b) \<Longrightarrow> length b < length xs"
proof -
  assume cut: "cut_at c xs = Some (a, b)"
  then have "c \<in> set xs" by (simp add: cut_at_def split: if_splits)
  then obtain ys zs where "xs = ys @ c # zs" "c \<notin> set ys" by (meson split_list_first)
  with cut_at_append[of c ys zs] cut show ?thesis by simp
qed

text \<open>The tokens of a stream, and whether the scanner ends without an error of its own: a line must fit
  into the buffer together with its newline.\<close>

function scan_lines :: "string \<Rightarrow> string list \<times> bool" where
  "scan_lines data =
     (if data = [] then ([], True)
      else case cut_at newline data of
        None \<Rightarrow> (if length data \<ge> maximumMessageSize then ([], False) else ([drop_cr data], True))
      | Some (line, rest) \<Rightarrow>
          if length line \<ge> maximumMessageSize then ([], False)
          else let (tokens, ok) = scan_lines rest in (drop_cr line # tokens, ok))"
  by pat_completeness auto
termination by (relation "measure length") (auto dest: cut_at_shorter)

declare scan_lines.simps [simp del]

section \<open>Reading notifications\<close>

datatype read_end = ContextDone | DecodeFailed | EmptyAction | ReadFailed | SocketClosed

text \<open>\<open>done\<close> decides the select between sending an action and the context, from what was sent.\<close>

fun read_tokens :: "(string \<Rightarrow> notification option) \<Rightarrow> (string list \<Rightarrow> bool) \<Rightarrow> bool \<Rightarrow> string list \<Rightarrow> string list \<Rightarrow>
    read_end \<times> string list" where
  "read_tokens decode done failed [] sent = (if failed then ReadFailed else SocketClosed, sent)"
| "read_tokens decode done failed (line # lines) sent =
     (case decode line of
        None \<Rightarrow> (DecodeFailed, sent)
      | Some n \<Rightarrow>
          if nt_action n = [] then (EmptyAction, sent)
          else if done sent then (ContextDone, sent)
          else read_tokens decode done failed lines (sent @ [nt_action n]))"

definition read_notifications :: "(string \<Rightarrow> notification option) \<Rightarrow> (string list \<Rightarrow> bool) \<Rightarrow> string \<Rightarrow> bool \<Rightarrow>
    read_end \<times> string list" where
  "read_notifications decode done data read_error =
     (let (lines, ok) = scan_lines data in read_tokens decode done (\<not> ok \<or> read_error) lines [])"

section \<open>Reconnecting\<close>

text \<open>Delays are nanoseconds.\<close>

definition initialReconnectDelay :: int where "initialReconnectDelay = 100 * 1000000"
definition maximumReconnectDelay :: int where "maximumReconnectDelay = 5 * 1000000000"

text \<open>
  One round of \<open>Run\<close>: the dial fails, or there is a conversation (the bytes of the stream, whether it
  ends with an error, and \<open>done\<close>).  \<open>cancelled\<close> is \<open>ctx.Err() != nil\<close> after it and \<open>waited\<close> the
  answer of \<open>waitForRetry\<close>.
\<close>

datatype attempt =
    DialError bool bool
  | Conversation string bool "string list \<Rightarrow> bool" bool bool

datatype client_event = Dialled | Sent string | ClosedConnection | Waits int

text \<open>What the client does in a sequence of rounds, and whether \<open>Run\<close> has returned (always without an error).\<close>

fun client_run :: "(string \<Rightarrow> notification option) \<Rightarrow> attempt list \<Rightarrow> int \<Rightarrow> client_event list \<times> bool" where
  "client_run decode [] delay = ([], False)"
| "client_run decode (DialError cancelled waited # rounds) delay =
     (if cancelled then ([Dialled], True)
      else if \<not> waited then ([Dialled, Waits delay], True)
      else let (evs, returned) = client_run decode rounds (min (delay * 2) maximumReconnectDelay)
           in (Dialled # Waits delay # evs, returned))"
| "client_run decode (Conversation data read_error done cancelled waited # rounds) delay =
     (let talk = Dialled # map Sent (snd (read_notifications decode done data read_error)) @ [ClosedConnection]
      in if cancelled then (talk, True)
         else if \<not> waited then (talk @ [Waits initialReconnectDelay], True)
         else let (evs, returned) = client_run decode rounds initialReconnectDelay
              in (talk @ Waits initialReconnectDelay # evs, returned))"

section \<open>Reading what the server writes\<close>

lemma scan_line:
  assumes "newline \<notin> set line" "length line < maximumMessageSize"
  shows "scan_lines (line @ newline # rest) = (drop_cr line # fst (scan_lines rest), snd (scan_lines rest))"
proof -
  have "cut_at newline (line @ newline # rest) = Some (line, rest)" by (rule cut_at_append[OF assms(1)])
  then show ?thesis using assms(2) by (simp add: scan_lines.simps[of "line @ newline # rest"] case_prod_beta)
qed

lemma scan_written:
  assumes "\<forall>line\<in>set lines. newline \<notin> set line \<and> length line < maximumMessageSize \<and> drop_cr line = line"
  shows "scan_lines (concat (map (\<lambda>line. line @ [newline]) lines)) = (lines, True)"
  using assms
proof (induction lines)
  case Nil
  then show ?case by (simp add: scan_lines.simps)
next
  case (Cons line lines)
  then show ?case using scan_line[of line "concat (map (\<lambda>line. line @ [newline]) lines)"] by simp
qed

lemma read_all:
  assumes "\<forall>a\<in>set acts. decode (encode a) = Some \<lparr>nt_action = a\<rparr> \<and> a \<noteq> []" "\<forall>xs. \<not> done xs"
  shows "read_tokens decode done failed (map encode acts) sent = (if failed then ReadFailed else SocketClosed, sent @ acts)"
  using assms by (induction acts arbitrary: sent) auto

section \<open>Properties\<close>

text \<open>
  The client gets what the server sent.  For a JSON encoder and decoder as documented (decoding
  inverts encoding; the text has no newline, no carriage return at its end, and at most six bytes for one of
  the action and a fixed frame), the stream the server writes for a list of valid actions is read as
  exactly these actions in their order, up to the end of the stream.
\<close>

theorem client_reads_published:
  assumes "\<And>a. a \<in> set acts \<Longrightarrow> valid_action_id a"
    "\<And>a. a \<in> set acts \<Longrightarrow> decode (encode a) = Some \<lparr>nt_action = a\<rparr>"
    "\<And>a. a \<in> set acts \<Longrightarrow> CHR 0x0A \<notin> set (encode a) \<and> length (encode a) \<le> 6 * length a + 13 \<and>
       (encode a \<noteq> [] \<longrightarrow> last (encode a) \<noteq> CHR 0x0D)"
    "\<And>sent. \<not> done sent"
  shows "read_notifications decode done (concat (map (\<lambda>a. encode a @ [CHR 0x0A]) acts)) False = (SocketClosed, acts)"
proof -
  have nonempty: "a \<noteq> []" "length a \<le> 1024" if "a \<in> set acts" for a
    using assms(1)[OF that] valid_id_nonempty[of a] by (simp_all add: valid_action_id_def)
  have "length (encode a) < maximumMessageSize" if "a \<in> set acts" for a
    using assms(3)[OF that] nonempty(2)[OF that] by (simp add: maximumMessageSize_def)
  then have "\<forall>line\<in>set (map encode acts). newline \<notin> set line \<and> length line < maximumMessageSize \<and> drop_cr line = line"
    using assms(3) by (auto simp: newline_def drop_cr_def)
  from scan_written[OF this]
  have "scan_lines (concat (map (\<lambda>a. encode a @ [CHR 0x0A]) acts)) = (map encode acts, True)"
    by (simp add: newline_def comp_def)
  then show ?thesis
    using read_all[of acts decode encode "done" False "[]"] assms(2,4) nonempty(1)
    by (simp add: read_notifications_def)
qed

definition example_encode :: "string \<Rightarrow> string" where
  "example_encode a = CHR ''{'' # a @ [CHR ''}'']"

definition example_decode :: "string \<Rightarrow> notification option" where
  "example_decode t = (if length t < 2 then None else Some \<lparr>nt_action = butlast (tl t)\<rparr>)"

theorem client_reads_published_witness:
  "read_notifications example_decode (\<lambda>_. False) (concat (map (\<lambda>a. example_encode a @ [CHR 0x0A]) [''one'', ''two''])) False =
     (SocketClosed, [''one'', ''two''])"
proof (rule client_reads_published)
  show "valid_action_id a" if "a \<in> set [''one'', ''two'']" for a
  proof -
    have "list_all valid_action_id [''one'', ''two'']" by code_simp
    then show ?thesis using that unfolding list_all_iff by blast
  qed
  show "example_decode (example_encode a) = Some \<lparr>nt_action = a\<rparr>" for a
    by (simp add: example_decode_def example_encode_def butlast_append)
  show "CHR 0x0A \<notin> set (example_encode a) \<and> length (example_encode a) \<le> 6 * length a + 13 \<and>
      (example_encode a \<noteq> [] \<longrightarrow> last (example_encode a) \<noteq> CHR 0x0D)" if "a \<in> set [''one'', ''two'']" for a
    using that by (auto simp: example_encode_def)
qed simp

text \<open>The delay of the \<open>k\<close>-th of several failed rounds in a row.\<close>

definition backoff :: "nat \<Rightarrow> int" where
  "backoff k = min (initialReconnectDelay * 2 ^ k) maximumReconnectDelay"

lemma backoff_next: "min (backoff k * 2) maximumReconnectDelay = backoff (Suc k)"
  by (simp add: backoff_def initialReconnectDelay_def maximumReconnectDelay_def min_def)

lemma client_waits:
  assumes "client_run decode rounds (backoff k) = (evs, returned)" "Waits t \<in> set evs"
  shows "\<exists>j. t = backoff j"
  using assms
proof (induction rounds arbitrary: k evs returned)
  case (Cons r rounds)
  have b0: "initialReconnectDelay = backoff 0"
    by (simp add: backoff_def initialReconnectDelay_def maximumReconnectDelay_def)
  show ?case
  proof (cases r)
    case (DialError cancelled waited)
    then show ?thesis using Cons
      by (auto simp: backoff_next split: if_splits prod.splits)
  next
    case (Conversation data read_error "done" cancelled waited)
    then show ?thesis using Cons
      by (auto simp: b0 Let_def split: if_splits prod.splits)
  qed
qed simp

lemma client_dials:
  "client_run decode (replicate n (DialError False True) @ rounds) (backoff k) =
     (concat (map (\<lambda>j. [Dialled, Waits (backoff (k + j))]) [0..<n]) @ fst (client_run decode rounds (backoff (k + n))),
      snd (client_run decode rounds (backoff (k + n))))"
proof (induction n arbitrary: k)
  case (Suc n)
  have "[0..<Suc n] = 0 # map Suc [0..<n]" by (simp add: map_Suc_upt upt_conv_Cons del: upt_Suc)
  then show ?case by (simp add: backoff_next Suc comp_def case_prod_beta del: upt_Suc)
qed simp

text \<open>
  The client backs off, within bounds.  Every wait lasts between 100 ms and 5 s; after a connection
  it starts again at 100 ms, and in a row of failed dials the waits double up to 5 s.
\<close>

theorem client_backs_off:
  assumes "client_run decode rounds initialReconnectDelay = (evs, returned)"
  shows "(\<forall>t. Waits t \<in> set evs \<longrightarrow> 100 * 1000000 \<le> t \<and> t \<le> 5 * 1000000000) \<and>
    client_run decode (replicate n (DialError False True) @ [Conversation data read_error done False True] @ rounds) initialReconnectDelay =
      (concat (map (\<lambda>j. [Dialled, Waits (min (100 * 1000000 * 2 ^ j) (5 * 1000000000))]) [0..<n]) @
         Dialled # map Sent (snd (read_notifications decode done data read_error)) @
         [ClosedConnection, Waits (100 * 1000000)] @ evs, returned)"
proof (intro conjI allI impI)
  have b0: "initialReconnectDelay = backoff 0"
    by (simp add: backoff_def initialReconnectDelay_def maximumReconnectDelay_def)
  fix t assume "Waits t \<in> set evs"
  from client_waits[OF assms[unfolded b0] this] obtain j where t: "t = backoff j" ..
  have "(1::int) \<le> 2 ^ j" by simp
  then show "100 * 1000000 \<le> t" "t \<le> 5 * 1000000000"
    by (simp_all add: t backoff_def initialReconnectDelay_def maximumReconnectDelay_def)
  have bd: "backoff j = min (100 * 1000000 * 2 ^ j) (5 * 1000000000)" for j
    by (simp add: backoff_def initialReconnectDelay_def maximumReconnectDelay_def)
next
  have b0: "initialReconnectDelay = backoff 0"
    by (simp add: backoff_def initialReconnectDelay_def maximumReconnectDelay_def)
  have bd: "backoff j = min (100 * 1000000 * 2 ^ j) (5 * 1000000000)" for j
    by (simp add: backoff_def initialReconnectDelay_def maximumReconnectDelay_def)
  show "client_run decode (replicate n (DialError False True) @ [Conversation data read_error done False True] @ rounds) initialReconnectDelay =
      (concat (map (\<lambda>j. [Dialled, Waits (min (100 * 1000000 * 2 ^ j) (5 * 1000000000))]) [0..<n]) @
         Dialled # map Sent (snd (read_notifications decode done data read_error)) @
         [ClosedConnection, Waits (100 * 1000000)] @ evs, returned)"
    using client_dials[of decode n "[Conversation data read_error done False True] @ rounds" 0] assms
    by (simp add: b0[symmetric] bd[symmetric] Let_def) (simp add: bd initialReconnectDelay_def)
qed

theorem client_backs_off_witness:
  "client_run example_decode (replicate 7 (DialError False True) @ [Conversation [] False (\<lambda>_. False) False True]) initialReconnectDelay =
     (concat (map (\<lambda>j. [Dialled, Waits (min (100 * 1000000 * 2 ^ j) (5 * 1000000000))]) [0..<7]) @
       [Dialled, ClosedConnection, Waits (100 * 1000000)], False)"
proof -
  have "client_run example_decode [] initialReconnectDelay = ([], False)" by simp
  from client_backs_off[OF this, of 7 "[]" False "\<lambda>_. False"]
  show ?thesis by (simp add: read_notifications_def scan_lines.simps)
qed

end
