(* ===== verification/Config_Files.thy ===== *)
theory Config_Files
  imports Daemon_Config "HOL-Library.Word"
begin

unbundle bit_operations_syntax

text \<open>
  \<open>internal/configfile\<close> and \<open>Load\<close> of \<open>internal/config\<close>: a configuration is read from one descriptor that
  was checked after it was opened.  The kernel's answers and the JSON decoder are parameters; the
  functions record their calls.  Descriptors are natural numbers, errors of the kernel are errnos.
\<close>

section \<open>Opening\<close>

record file_info =
  fi_regular :: bool
  fi_unix :: bool     \<comment> \<open>\<open>Sys()\<close> is a \<open>Stat_t\<close>\<close>
  fi_uid :: u32
  fi_perm :: u32

record open_answers =
  oa_open :: "nat + nat"          \<comment> \<open>of \<open>os.Open\<close>\<close>
  oa_nofollow :: "nat + nat"      \<comment> \<open>of \<open>open\<close> with \<open>O_NOFOLLOW\<close> and \<open>O_NONBLOCK\<close>\<close>
  oa_newfile :: bool
  oa_stat :: "nat + file_info"

datatype file_call = FileOpen string bool | FileStat nat | FileDecode nat | FileClose nat

datatype open_error =
    OpenErrno nat | NoFile | StatErrno nat | NotRegular | NoOwner | WrongOwner u32 | WritableByOthers

text \<open>The checks on the opened descriptor, in the order of the code.\<close>

definition check_info :: "u32 \<Rightarrow> file_info \<Rightarrow> open_error + unit" where
  "check_info expected info =
     (if \<not> fi_regular info then Inl NotRegular
      else if \<not> fi_unix info then Inl NoOwner
      else if fi_uid info \<noteq> expected then Inl (WrongOwner expected)
      else if fi_perm info AND 0x12 \<noteq> 0 then Inl WritableByOthers
      else Inr ())"

definition open_config :: "open_answers \<Rightarrow> string \<Rightarrow> u32 \<Rightarrow> bool \<Rightarrow> (open_error + nat) \<times> file_call list" where
  "open_config A path expected insecure =
     (if insecure then (map_err OpenErrno (oa_open A), [FileOpen path True])
      else
        (case oa_nofollow A of
           Inl e \<Rightarrow> (Inl (OpenErrno e), [FileOpen path False])
         | Inr fd \<Rightarrow>
             if \<not> oa_newfile A then (Inl NoFile, [FileOpen path False, FileClose fd])
             else (case and_then (map_err StatErrno (oa_stat A)) (check_info expected) of
                     Inl e \<Rightarrow> (Inl e, [FileOpen path False, FileStat fd, FileClose fd])
                   | Inr _ \<Rightarrow> (Inr fd, [FileOpen path False, FileStat fd]))))"

section \<open>Decoding\<close>

text \<open>What the second call of the decoder finds: the end, another value or an error.\<close>

datatype 'j trailing = AtEnd | AnotherValue | TrailingError 'j

datatype 'j decode_failure = ParseError 'j | MultipleValues

definition decode_one :: "'j + 'v \<Rightarrow> 'j trailing \<Rightarrow> 'j decode_failure + 'v" where
  "decode_one first second =
     (case first of
        Inl e \<Rightarrow> Inl (ParseError e)
      | Inr v \<Rightarrow> (case second of
                   AtEnd \<Rightarrow> Inr v
                 | AnotherValue \<Rightarrow> Inl MultipleValues
                 | TrailingError e \<Rightarrow> Inl (ParseError e)))"

section \<open>Loading\<close>

datatype ('j, 'e) load_error = OpenFailure open_error | DecodeFailure "'j decode_failure" | Rejected 'e

text \<open>The common part of the two \<open>Load\<close> functions: open, decode, compile, and close on every path.\<close>

definition load_file ::
    "open_answers \<Rightarrow> string \<Rightarrow> u32 \<Rightarrow> bool \<Rightarrow> 'j + 'v \<Rightarrow> 'j trailing \<Rightarrow> ('v \<Rightarrow> 'e + 'c) \<Rightarrow>
     (('j, 'e) load_error + 'c) \<times> file_call list" where
  "load_file A path expected insecure first second compile =
     (case open_config A path expected insecure of
        (Inl e, calls) \<Rightarrow> (Inl (OpenFailure e), calls)
      | (Inr fd, calls) \<Rightarrow>
          (and_then (map_err DecodeFailure (decode_one first second)) (\<lambda>v. map_err Rejected (compile v)),
           calls @ [FileDecode fd, FileClose fd]))"

definition load_config ::
    "open_answers \<Rightarrow> string \<Rightarrow> bool \<Rightarrow> 'j + config_file \<Rightarrow> 'j trailing \<Rightarrow> (string \<Rightarrow> string + int) \<Rightarrow>
     (('j, config_error) load_error + config) \<times> file_call list" where
  "load_config A path insecure first second durations =
     load_file A path 0 insecure first second (compile_config durations)"

section \<open>What a load guarantees\<close>

definition opened_by :: "file_call list \<Rightarrow> open_answers \<Rightarrow> nat list" where
  "opened_by calls A =
     List.map_filter (\<lambda>c. case c of FileOpen _ plain \<Rightarrow>
       (case if plain then oa_open A else oa_nofollow A of Inl _ \<Rightarrow> None | Inr fd \<Rightarrow> Some fd) | _ \<Rightarrow> None) calls"

definition closed_by :: "file_call list \<Rightarrow> nat list" where
  "closed_by calls = List.map_filter (\<lambda>c. case c of FileClose fd \<Rightarrow> Some fd | _ \<Rightarrow> None) calls"

lemma check_info_ok:
  "check_info expected info = Inr () \<longleftrightarrow>
     fi_regular info \<and> fi_unix info \<and> fi_uid info = expected \<and> fi_perm info AND 0x12 = 0"
  by (simp add: check_info_def)

lemma open_config_balance:
  assumes "open_config A path expected insecure = (r, calls)"
  shows "opened_by calls A = closed_by calls @ (case r of Inl _ \<Rightarrow> [] | Inr fd \<Rightarrow> [fd])"
  using assms
  by (auto simp: open_config_def opened_by_def closed_by_def map_filter_simps map_err_def
      split: if_splits sum.splits)

lemma load_file_balance:
  assumes "load_file A path expected insecure first second compile = (r, calls)"
  shows "opened_by calls A = closed_by calls"
proof -
  obtain x calls1 where 1: "open_config A path expected insecure = (x, calls1)" by (metis surj_pair)
  from open_config_balance[OF this] 1 assms show ?thesis
    by (auto simp: load_file_def opened_by_def closed_by_def map_filter_def split: sum.splits)
qed

lemma load_file_trusted:
  assumes "load_file A path expected False first second compile = (Inr c, calls)"
  shows "\<exists>fd info v. calls = [FileOpen path False, FileStat fd, FileDecode fd, FileClose fd] \<and>
    oa_nofollow A = Inr fd \<and> oa_stat A = Inr info \<and> check_info expected info = Inr () \<and>
    first = Inr v \<and> second = AtEnd \<and> compile v = Inr c"
  using assms
  by (auto simp: load_file_def open_config_def decode_one_def split: if_splits sum.splits trailing.splits)

end
