(* ===== verification/Client_Config.thy ===== *)
theory Client_Config
  imports Config_Files Action_Protocol Go_Strings
begin

text \<open>
  \<open>internal/clientconfig\<close>: the configuration of the client.  \<open>compile\<close> ranges over the map of the
  actions; the order of a range loop is arbitrary, so it is the parameter \<open>ids\<close>, a permutation of the keys.
\<close>

section \<open>Data\<close>

record file_action =
  fa_type :: string
  fa_command :: "string list"
  fa_script :: string
  fa_directory :: string

record client_file =
  cl_socket_path :: string
  cl_max_parallel :: int
  cl_queue_size :: int
  cl_actions :: "(string, file_action) gomap"

record client_action =
  ca_command :: "string list"
  ca_directory :: string

record client_config =
  cc_socket_path :: string
  cc_max_parallel :: int
  cc_queue_size :: int
  cc_actions :: "(string, client_action) gomap"

datatype client_error =
    SocketNotAbsolute | ParallelRange | QueueRange | NoActions
  | BadID id_error | DirectoryNotAbsolute string | ExecNoCommand string | ExecWithScript string
  | ShellNoScript string | ShellWithCommand string | UnsupportedType string string

section \<open>Compilation\<close>

definition compile_command :: "string \<Rightarrow> file_action \<Rightarrow> client_error + string list" where
  "compile_command i raw =
     (if fa_type raw = ''exec'' then
        (if fa_command raw = [] \<or> hd (fa_command raw) = [] then Inl (ExecNoCommand i)
         else if fa_script raw \<noteq> [] then Inl (ExecWithScript i)
         else Inr (fa_command raw))
      else if fa_type raw = ''shell'' then
        (if fa_script raw = [] then Inl (ShellNoScript i)
         else if fa_command raw \<noteq> [] then Inl (ShellWithCommand i)
         else Inr [''/bin/sh'', ''-c'', fa_script raw])
      else Inl (UnsupportedType i (fa_type raw)))"

text \<open>The body of the loop, for one action.\<close>

definition compile_action :: "string \<Rightarrow> file_action \<Rightarrow> client_error + client_action" where
  "compile_action i raw =
     and_then (map_err BadID (validate_id i)) (\<lambda>_.
       if fa_directory raw \<noteq> [] \<and> \<not> is_abs (fa_directory raw) then Inl (DirectoryNotAbsolute i)
       else and_then (compile_command i raw) (\<lambda>command.
         Inr \<lparr>ca_command = command, ca_directory = fa_directory raw\<rparr>))"

fun compile_actions :: "(string, file_action) gomap \<Rightarrow> string list \<Rightarrow> (string, client_action) gomap \<Rightarrow>
    client_error + (string, client_action) gomap" where
  "compile_actions raws [] acc = Inr acc"
| "compile_actions raws (i # is) acc =
     (case gm_get raws i of
        None \<Rightarrow> compile_actions raws is acc
      | Some raw \<Rightarrow> and_then (compile_action i raw) (\<lambda>a. compile_actions raws is (gm_put i a acc)))"

definition compile_client :: "string list \<Rightarrow> client_file \<Rightarrow> client_error + client_config" where
  "compile_client ids raw =
     (let socket = (if cl_socket_path raw = [] then ''/run/eak/eakd.sock'' else cl_socket_path raw);
          parallel = (if cl_max_parallel raw = 0 then 4 else cl_max_parallel raw);
          queue = (if cl_queue_size raw = 0 then 64 else cl_queue_size raw)
      in if \<not> is_abs socket then Inl SocketNotAbsolute
         else if parallel < 1 \<or> parallel > 128 then Inl ParallelRange
         else if queue < 1 \<or> queue > 4096 then Inl QueueRange
         else if cl_actions raw = [] then Inl NoActions
         else and_then (compile_actions (cl_actions raw) ids []) (\<lambda>actions.
           Inr \<lparr>cc_socket_path = socket, cc_max_parallel = parallel, cc_queue_size = queue, cc_actions = actions\<rparr>))"

text \<open>\<open>DefaultPath\<close>, from the answer of \<open>os.UserConfigDir\<close>.\<close>

definition default_path :: "'e + string \<Rightarrow> 'e + string" where
  "default_path directory = and_then directory (\<lambda>d. Inr (path_join [d, ''eak'', ''eakc.json'']))"

definition load_client ::
    "open_answers \<Rightarrow> string \<Rightarrow> u32 \<Rightarrow> bool \<Rightarrow> 'j + client_file \<Rightarrow> 'j trailing \<Rightarrow> string list \<Rightarrow>
     (('j, client_error) load_error + client_config) \<times> file_call list" where
  "load_client A path euid insecure first second ids =
     load_file A path euid insecure first second (compile_client ids)"

section \<open>What an accepted configuration is\<close>

definition client_action_ok :: "client_action \<Rightarrow> bool" where
  "client_action_ok a \<longleftrightarrow> ca_command a \<noteq> [] \<and> hd (ca_command a) \<noteq> [] \<and>
     (ca_directory a = [] \<or> is_abs (ca_directory a))"

definition client_config_ok :: "client_config \<Rightarrow> bool" where
  "client_config_ok cfg \<longleftrightarrow> is_abs (cc_socket_path cfg) \<and> 1 \<le> cc_max_parallel cfg \<and> cc_max_parallel cfg \<le> 128 \<and>
     1 \<le> cc_queue_size cfg \<and> cc_queue_size cfg \<le> 4096 \<and> gm_keys (cc_actions cfg) \<noteq> [] \<and>
     (\<forall>i a. gm_get (cc_actions cfg) i = Some a \<longrightarrow> valid_action_id i \<and> client_action_ok a)"

lemma compile_action_ok:
  assumes "compile_action i raw = Inr a"
  shows "valid_action_id i" "client_action_ok a"
  using assms
  by (auto simp: compile_action_def compile_command_def client_action_ok_def validate_id_ok[symmetric] split: if_splits)

lemma compile_actions_accepts:
  "(\<exists>m. compile_actions raws is acc = Inr m) \<longleftrightarrow>
     (\<forall>i\<in>set is. \<forall>raw. gm_get raws i = Some raw \<longrightarrow> (\<exists>a. compile_action i raw = Inr a))"
proof (induction "is" arbitrary: acc)
  case (Cons i "is")
  then show ?case by (auto split: option.split)
qed simp

lemma compile_actions_result:
  "compile_actions raws is acc = Inr m \<Longrightarrow>
   gm_get m i = (case gm_get raws i of
     Some raw \<Rightarrow> if i \<in> set is then (case compile_action i raw of Inr a \<Rightarrow> Some a | Inl _ \<Rightarrow> None) else gm_get acc i
   | None \<Rightarrow> gm_get acc i)"
proof (induction "is" arbitrary: acc)
  case (Cons j "is")
  show ?case
  proof (cases "gm_get raws j")
    case None
    then show ?thesis using Cons by (auto split: option.split)
  next
    case (Some raw)
    then obtain a where a: "compile_action j raw = Inr a" "compile_actions raws is (gm_put j a acc) = Inr m"
      using Cons.prems by auto
    show ?thesis using Cons.IH[OF a(2)] Some a(1) by (auto split: option.split)
  qed
qed (simp split: option.split)

lemma compile_client_actions:
  assumes "compile_client ids raw = Inr cfg" "set ids = set (gm_keys (cl_actions raw))"
  shows "gm_get (cc_actions cfg) i = Some a \<longleftrightarrow> (\<exists>r. gm_get (cl_actions raw) i = Some r \<and> compile_action i r = Inr a)"
proof -
  obtain m where m: "compile_actions (cl_actions raw) ids [] = Inr m" "cc_actions cfg = m"
    using assms(1) by (auto simp: compile_client_def Let_def split: if_splits)
  have "i \<in> set ids \<longleftrightarrow> gm_get (cl_actions raw) i \<noteq> None" using assms(2) gm.keys_get by simp
  then show ?thesis using compile_actions_result[OF m(1), of i] m(2) by (auto split: option.splits sum.splits)
qed

text \<open>
  The documents that are well formed, and the configuration each of them stands for, without the code:
  a missing field has its default, and every action is of one of the two kinds.
\<close>

definition file_action_ok :: "string \<Rightarrow> file_action \<Rightarrow> bool" where
  "file_action_ok i r \<longleftrightarrow> valid_action_id i \<and> (fa_directory r = [] \<or> is_abs (fa_directory r)) \<and>
     (fa_type r = ''exec'' \<and> fa_command r \<noteq> [] \<and> hd (fa_command r) \<noteq> [] \<and> fa_script r = [] \<or>
      fa_type r = ''shell'' \<and> fa_script r \<noteq> [] \<and> fa_command r = [])"

definition client_file_ok :: "client_file \<Rightarrow> bool" where
  "client_file_ok raw \<longleftrightarrow> (cl_socket_path raw = [] \<or> is_abs (cl_socket_path raw)) \<and>
     0 \<le> cl_max_parallel raw \<and> cl_max_parallel raw \<le> 128 \<and> 0 \<le> cl_queue_size raw \<and> cl_queue_size raw \<le> 4096 \<and>
     cl_actions raw \<noteq> [] \<and> (\<forall>i r. gm_get (cl_actions raw) i = Some r \<longrightarrow> file_action_ok i r)"

definition action_meant :: "file_action \<Rightarrow> client_action" where
  "action_meant r = \<lparr>ca_command = (if fa_type r = ''exec'' then fa_command r else [''/bin/sh'', ''-c'', fa_script r]),
     ca_directory = fa_directory r\<rparr>"

definition client_meant :: "client_file \<Rightarrow> client_config \<Rightarrow> bool" where
  "client_meant raw cfg \<longleftrightarrow>
     cc_socket_path cfg = (if cl_socket_path raw = [] then ''/run/eak/eakd.sock'' else cl_socket_path raw) \<and>
     cc_max_parallel cfg = (if cl_max_parallel raw = 0 then 4 else cl_max_parallel raw) \<and>
     cc_queue_size cfg = (if cl_queue_size raw = 0 then 64 else cl_queue_size raw) \<and>
     (\<forall>i. gm_get (cc_actions cfg) i = map_option action_meant (gm_get (cl_actions raw) i))"

lemma compile_action_exact:
  "compile_action i r = Inr a \<longleftrightarrow> file_action_ok i r \<and> a = action_meant r"
proof -
  have "validate_id i = Inr u \<longleftrightarrow> valid_action_id i" for u using validate_id_ok[of i] by simp
  then show ?thesis
    by (cases "validate_id i") (auto simp: compile_action_def compile_command_def file_action_ok_def action_meant_def)
qed

lemma compile_client_accepts:
  assumes "set ids = set (gm_keys (cl_actions raw))"
  shows "(\<exists>cfg. compile_client ids raw = Inr cfg) \<longleftrightarrow> client_file_ok raw"
proof -
  have "i \<in> set ids" if "gm_get (cl_actions raw) i = Some r" for i r using that assms gm.keys_get by fastforce
  then have acts: "(\<exists>m. compile_actions (cl_actions raw) ids [] = Inr m) \<longleftrightarrow>
      (\<forall>i r. gm_get (cl_actions raw) i = Some r \<longrightarrow> file_action_ok i r)"
    unfolding compile_actions_accepts compile_action_exact by blast
  have abs: "is_abs ''/run/eak/eakd.sock''" by code_simp
  have "(\<exists>cfg. compile_client ids raw = Inr cfg) \<longleftrightarrow>
      (cl_socket_path raw = [] \<or> is_abs (cl_socket_path raw)) \<and> 0 \<le> cl_max_parallel raw \<and> cl_max_parallel raw \<le> 128 \<and>
      0 \<le> cl_queue_size raw \<and> cl_queue_size raw \<le> 4096 \<and> cl_actions raw \<noteq> [] \<and>
      (\<exists>m. compile_actions (cl_actions raw) ids [] = Inr m)"
    using abs by (auto simp: compile_client_def Let_def not_less split: if_splits)
  then show ?thesis by (simp add: acts client_file_ok_def)
qed

lemma compile_client_meant:
  assumes "compile_client ids raw = Inr cfg" "set ids = set (gm_keys (cl_actions raw))"
  shows "client_meant raw cfg"
proof -
  have ok: "client_file_ok raw" using compile_client_accepts[OF assms(2)] assms(1) by blast
  have "gm_get (cc_actions cfg) i = map_option action_meant (gm_get (cl_actions raw) i)" for i
    using compile_client_actions[OF assms, of i] ok unfolding compile_action_exact
    by (cases "gm_get (cl_actions raw) i"; cases "gm_get (cc_actions cfg) i") (auto simp: client_file_ok_def)
  then show ?thesis
    using assms(1) by (auto simp: client_meant_def compile_client_def Let_def split: if_splits)
qed

lemma compile_client_usable:
  assumes "compile_client ids raw = Inr cfg" "set ids = set (gm_keys (cl_actions raw))"
  shows "client_config_ok cfg"
proof -
  note acts = compile_client_actions[OF assms]
  have ne: "gm_keys (cl_actions raw) \<noteq> []" "is_abs (cc_socket_path cfg)" "1 \<le> cc_max_parallel cfg"
    "cc_max_parallel cfg \<le> 128" "1 \<le> cc_queue_size cfg" "cc_queue_size cfg \<le> 4096"
    using assms(1) by (auto simp: compile_client_def Let_def gm_keys_def split: if_splits)
  obtain j where j: "j \<in> set (gm_keys (cl_actions raw))" using ne(1) by (meson last_in_set)
  then obtain r where r: "gm_get (cl_actions raw) j = Some r" using gm.keys_get by fastforce
  have "\<exists>m. compile_actions (cl_actions raw) ids [] = Inr m"
    using assms(1) by (auto simp: compile_client_def Let_def split: if_splits)
  then obtain b where "compile_action j r = Inr b" using j r assms(2) compile_actions_accepts by blast
  then have "gm_get (cc_actions cfg) j = Some b" using acts r by blast
  then have "j \<in> set (gm_keys (cc_actions cfg))" by (simp add: gm.keys_get)
  then have "gm_keys (cc_actions cfg) \<noteq> []" by auto
  moreover have "valid_action_id k \<and> client_action_ok b" if "gm_get (cc_actions cfg) k = Some b" for k b
    using that acts compile_action_ok by blast
  ultimately show ?thesis using ne by (auto simp: client_config_ok_def)
qed

section \<open>Properties\<close>

definition example_answers_file :: open_answers where
  "example_answers_file = \<lparr>oa_open = Inr 3, oa_nofollow = Inr 4, oa_newfile = True,
     oa_stat = Inr \<lparr>fi_regular = True, fi_unix = True, fi_uid = 1000, fi_perm = 0x1A4\<rparr>\<rparr>"

definition example_client_file :: client_file where
  "example_client_file = \<lparr>cl_socket_path = [], cl_max_parallel = 2, cl_queue_size = 0, cl_actions =
     [(''one'', \<lparr>fa_type = ''exec'', fa_command = [''/bin/true''], fa_script = [], fa_directory = []\<rparr>),
      (''two'', \<lparr>fa_type = ''shell'', fa_command = [], fa_script = ''echo two'', fa_directory = ''/tmp''\<rparr>)]\<rparr>"

text \<open>
  C30. A configuration is trusted before it is read, and no descriptor leaks.  Every descriptor a load
  opens it closes, on every path.  A load that checks (not the development mode) succeeds only for
  a regular file of the expected owner that neither group nor others may write; the descriptor that
  was checked is the one decoded, and the file holds one JSON value.
\<close>

theorem load_checks_descriptor:
  assumes "load_file A path expected insecure first second compile = (r, calls)"
  shows "opened_by calls A = closed_by calls \<and>
    (\<not> insecure \<longrightarrow> r = Inr c \<longrightarrow>
      (\<exists>fd info v. calls = [FileOpen path False, FileStat fd, FileDecode fd, FileClose fd] \<and>
         oa_nofollow A = Inr fd \<and> oa_stat A = Inr info \<and>
         fi_regular info \<and> fi_uid info = expected \<and> fi_perm info AND 0x12 = 0 \<and>
         first = Inr v \<and> second = AtEnd \<and> compile v = Inr c))"
proof (intro conjI impI)
  show "opened_by calls A = closed_by calls" using assms by (rule load_file_balance)
  assume "\<not> insecure" "r = Inr c"
  with assms have "load_file A path expected False first second compile = (Inr c, calls)" by simp
  from load_file_trusted[OF this] show "\<exists>fd info v. calls = [FileOpen path False, FileStat fd, FileDecode fd, FileClose fd] \<and>
      oa_nofollow A = Inr fd \<and> oa_stat A = Inr info \<and>
      fi_regular info \<and> fi_uid info = expected \<and> fi_perm info AND 0x12 = 0 \<and>
      first = Inr v \<and> second = AtEnd \<and> compile v = Inr c"
    by (auto simp: check_info_ok)
qed

theorem load_checks_descriptor_witness:
  "(\<exists>c calls. load_client example_answers_file ''eakc.json'' 1000 False (Inr example_client_file :: string + client_file) AtEnd [''two'', ''one''] =
      (Inr c, calls) \<and> FileClose 4 \<in> set calls) \<and>
   (\<exists>fd. [FileOpen ''eakc.json'' False, FileStat fd, FileDecode fd, FileClose fd] =
      snd (load_client example_answers_file ''eakc.json'' 1000 False (Inr example_client_file :: string + client_file) AtEnd [''two'', ''one'']))"
proof -
  let ?l = "load_client example_answers_file ''eakc.json'' 1000 False (Inr example_client_file :: string + client_file) AtEnd [''two'', ''one'']"
  have "case fst ?l of Inl _ \<Rightarrow> False | Inr _ \<Rightarrow> True" by code_simp
  then obtain c where "?l = (Inr c, snd ?l)" by (cases ?l) (auto split: sum.splits)
  moreover from load_checks_descriptor[OF this[unfolded load_client_def], of c, folded load_client_def]
  obtain fd where "snd ?l = [FileOpen ''eakc.json'' False, FileStat fd, FileDecode fd, FileClose fd]"
    "oa_nofollow example_answers_file = Inr fd" by blast
  ultimately show ?thesis by (metis example_answers_file_def list.set_intros open_answers.select_convs(2) sum.inject(2))
qed

text \<open>
  C29. \<open>compile\<close> accepts exactly the well-formed documents: a socket path that is missing or absolute, at
  most 128 workers and a queue of at most 4096 (zero standing for the default), and at least one
  action, each with a valid identifier, a working directory that is empty or absolute, and either a
  command whose program is not empty or a script, by its type.  What it returns is the configuration
  the document stands for, defaults filled in, and it is usable: one worker, a place in the queue, an
  action and a program for each action at least.
\<close>

theorem client_config_accepted:
  assumes "set ids = set (gm_keys (cl_actions raw))"
  shows "((\<exists>cfg. compile_client ids raw = Inr cfg) \<longleftrightarrow> client_file_ok raw) \<and>
    (\<forall>cfg. compile_client ids raw = Inr cfg \<longrightarrow> client_meant raw cfg \<and> client_config_ok cfg)"
  using compile_client_accepts[OF assms] compile_client_meant[OF _ assms] compile_client_usable[OF _ assms] by blast

theorem client_config_accepted_witness:
  "\<exists>cfg. compile_client [''two'', ''one''] example_client_file = Inr cfg \<and> client_config_ok cfg \<and>
     client_meant example_client_file cfg \<and> client_file_ok example_client_file \<and> cc_queue_size cfg = 64"
proof -
  have "case compile_client [''two'', ''one''] example_client_file of Inl _ \<Rightarrow> False | Inr cfg \<Rightarrow> cc_queue_size cfg = 64" by code_simp
  then obtain cfg where 1: "compile_client [''two'', ''one''] example_client_file = Inr cfg" "cc_queue_size cfg = 64"
    by (auto split: sum.splits)
  have "set [''two'', ''one''] = set (gm_keys (cl_actions example_client_file))" by code_simp
  from client_config_accepted[OF this] 1 show ?thesis by blast
qed

text \<open>
  The order in which the loop visits the map of the actions does not matter: two loads of the same
  file accept it or reject it alike, and accept the same configuration.
\<close>

theorem client_config_order_free:
  assumes "set ids = set (gm_keys (cl_actions raw))" "set ids' = set (gm_keys (cl_actions raw))"
  shows "((\<exists>cfg. compile_client ids raw = Inr cfg) \<longleftrightarrow> (\<exists>cfg. compile_client ids' raw = Inr cfg)) \<and>
    (\<forall>cfg cfg'. compile_client ids raw = Inr cfg \<longrightarrow> compile_client ids' raw = Inr cfg' \<longrightarrow>
      cc_socket_path cfg' = cc_socket_path cfg \<and> cc_max_parallel cfg' = cc_max_parallel cfg \<and>
      cc_queue_size cfg' = cc_queue_size cfg \<and> gm_get (cc_actions cfg') = gm_get (cc_actions cfg))"
proof (intro conjI allI impI)
  have "(\<exists>m. compile_actions (cl_actions raw) ids [] = Inr m) \<longleftrightarrow> (\<exists>m. compile_actions (cl_actions raw) ids' [] = Inr m)"
    by (simp add: compile_actions_accepts assms)
  then show "(\<exists>cfg. compile_client ids raw = Inr cfg) \<longleftrightarrow> (\<exists>cfg. compile_client ids' raw = Inr cfg)"
    by (auto simp: compile_client_def Let_def)
  fix cfg cfg' assume c: "compile_client ids raw = Inr cfg" "compile_client ids' raw = Inr cfg'"
  then show "cc_socket_path cfg' = cc_socket_path cfg" "cc_max_parallel cfg' = cc_max_parallel cfg"
    "cc_queue_size cfg' = cc_queue_size cfg"
    by (auto simp: compile_client_def Let_def split: if_splits)
  show "gm_get (cc_actions cfg') = gm_get (cc_actions cfg)"
  proof
    fix i
    have "gm_get (cc_actions cfg') i = Some a \<longleftrightarrow> gm_get (cc_actions cfg) i = Some a" for a
      using compile_client_actions[OF c(1) assms(1)] compile_client_actions[OF c(2) assms(2)] by blast
    then show "gm_get (cc_actions cfg') i = gm_get (cc_actions cfg) i" by (metis not_Some_eq)
  qed
qed

theorem client_config_order_free_witness:
  "\<exists>cfg cfg'. compile_client [''two'', ''one''] example_client_file = Inr cfg \<and>
     compile_client [''one'', ''two''] example_client_file = Inr cfg' \<and> gm_get (cc_actions cfg') = gm_get (cc_actions cfg)"
proof -
  have sets: "set [''two'', ''one''] = set (gm_keys (cl_actions example_client_file))"
    "set [''one'', ''two''] = set (gm_keys (cl_actions example_client_file))" by code_simp+
  have "case compile_client [''two'', ''one''] example_client_file of Inl _ \<Rightarrow> False | Inr cfg \<Rightarrow> True" by code_simp
  then obtain cfg where "compile_client [''two'', ''one''] example_client_file = Inr cfg" by (auto split: sum.splits)
  with client_config_order_free[OF sets] show ?thesis by metis
qed

end
