(* ===== verification/Executor.thy ===== *)
theory Executor
  imports Client_Config Step_Machine "HOL-Library.Multiset" "HOL-Library.Sublist"
begin

text \<open>
  \<open>internal/executor\<close>: the client dispatches the actions it receives to a bounded pool of workers.
  The dispatcher and the workers are goroutines; \<open>exec_step\<close> does one step of one of them, or of
  their environment (the sender of the input channel and the context), for every label.
  The unbuffered channel \<open>jobs\<close> hands a job over when the dispatcher offers it and a worker is idle.
\<close>

section \<open>State and steps\<close>

type_synonym job = "string \<times> client_action"

datatype phase = Dispatching | Offering job | Draining | Finished

record executor =
  x_queue :: "string list"       \<comment> \<open>what the input channel holds\<close>
  x_closed :: bool
  x_cancelled :: bool
  x_phase :: phase               \<comment> \<open>of the dispatcher; \<open>Draining\<close> waits for the workers\<close>
  x_running :: "job list"        \<comment> \<open>the jobs of the busy workers\<close>
  x_sent :: "string list"        \<comment> \<open>history: all that was sent, received, started and completed\<close>
  x_received :: "string list"
  x_started :: "job list"
  x_completed :: "job list"

definition new_executor :: executor where
  "new_executor = \<lparr>x_queue = [], x_closed = False, x_cancelled = False, x_phase = Dispatching, x_running = [],
     x_sent = [], x_received = [], x_started = [], x_completed = []\<rparr>"

text \<open>The process \<open>executeCommand\<close> starts: program, arguments, directory; an empty command panics.\<close>

definition execute_command :: "client_action \<Rightarrow> (string \<times> string list \<times> string) option" where
  "execute_command a = (case ca_command a of [] \<Rightarrow> None | p # args \<Rightarrow> Some (p, args, ca_directory a))"

datatype label =
    Send string | CloseInput | Cancel                  \<comment> \<open>the environment\<close>
  | Receive | InputEnd | StopDispatch                  \<comment> \<open>the first select\<close>
  | HandOff | StopOffer                                \<comment> \<open>the second select\<close>
  | Complete nat                                       \<comment> \<open>a command ends, or fails: both are logged only\<close>
  | Return

definition own_step :: "label \<Rightarrow> bool" where
  "own_step l = (case l of Send _ \<Rightarrow> False | CloseInput \<Rightarrow> False | Cancel \<Rightarrow> False | _ \<Rightarrow> True)"

definition receive_id :: "(string, client_action) gomap \<Rightarrow> string \<Rightarrow> executor \<Rightarrow> executor" where
  "receive_id actions i s =
     s\<lparr>x_received := x_received s @ [i],
       x_phase := (case gm_get actions i of None \<Rightarrow> Dispatching | Some a \<Rightarrow> Offering (i, a))\<rparr>"

definition exec_step :: "(string, client_action) gomap \<Rightarrow> nat \<Rightarrow> label \<Rightarrow> executor \<Rightarrow> executor option" where
  "exec_step actions n l s =
     (case l of
        Send i \<Rightarrow> if x_closed s then None else Some (s\<lparr>x_queue := x_queue s @ [i], x_sent := x_sent s @ [i]\<rparr>)
      | CloseInput \<Rightarrow> Some (s\<lparr>x_closed := True\<rparr>)
      | Cancel \<Rightarrow> Some (s\<lparr>x_cancelled := True\<rparr>)
      | Receive \<Rightarrow>
          (case (x_phase s, x_queue s) of
             (Dispatching, i # q) \<Rightarrow> Some (receive_id actions i (s\<lparr>x_queue := q\<rparr>))
           | _ \<Rightarrow> None)
      | InputEnd \<Rightarrow>
          (if x_phase s = Dispatching \<and> x_queue s = [] \<and> x_closed s then Some (s\<lparr>x_phase := Draining\<rparr>) else None)
      | StopDispatch \<Rightarrow>
          (if x_phase s = Dispatching \<and> x_cancelled s then Some (s\<lparr>x_phase := Draining\<rparr>) else None)
      | HandOff \<Rightarrow>
          (case x_phase s of
             Offering j \<Rightarrow>
               (if length (x_running s) < n
                then Some (s\<lparr>x_phase := Dispatching, x_running := x_running s @ [j], x_started := x_started s @ [j]\<rparr>)
                else None)
           | _ \<Rightarrow> None)
      | StopOffer \<Rightarrow>
          (case x_phase s of
             Offering j \<Rightarrow> if x_cancelled s then Some (s\<lparr>x_phase := Draining\<rparr>) else None
           | _ \<Rightarrow> None)
      | Complete k \<Rightarrow>
          (if k < length (x_running s)
           then Some (s\<lparr>x_running := take k (x_running s) @ drop (Suc k) (x_running s),
                       x_completed := x_completed s @ [x_running s ! k]\<rparr>)
           else None)
      | Return \<Rightarrow>
          (if x_phase s = Draining \<and> x_running s = [] then Some (s\<lparr>x_phase := Finished\<rparr>) else None))"

text \<open>A step that is not possible in a state has no successor there; no step panics.\<close>

definition exec_run :: "(string, client_action) gomap \<Rightarrow> nat \<Rightarrow> executor \<Rightarrow> bool" where
  "exec_run actions n s = reachable (\<lambda>l s. exec_step actions n l s \<noteq> None) (exec_step actions n) new_executor s"

definition exec_steps :: "(string, client_action) gomap \<Rightarrow> nat \<Rightarrow> label list \<Rightarrow> executor \<Rightarrow> executor option" where
  "exec_steps actions n ls s = run_labels (\<lambda>_ _. True) (exec_step actions n) ls s"

section \<open>The invariant\<close>

definition jobs_of :: "(string, client_action) gomap \<Rightarrow> string list \<Rightarrow> job list" where
  "jobs_of actions ids = List.map_filter (\<lambda>i. map_option (Pair i) (gm_get actions i)) ids"

text \<open>The job received but not started: in a dispatcher that goes on, the one on offer.\<close>

definition exec_inv :: "(string, client_action) gomap \<Rightarrow> nat \<Rightarrow> executor \<Rightarrow> bool" where
  "exec_inv actions n s \<longleftrightarrow>
     length (x_running s) \<le> n \<and> x_sent s = x_received s @ x_queue s \<and>
     mset (x_started s) = mset (x_running s) + mset (x_completed s) \<and>
     (case x_phase s of
        Dispatching \<Rightarrow> jobs_of actions (x_received s) = x_started s
      | Offering j \<Rightarrow> jobs_of actions (x_received s) = x_started s @ [j]
      | _ \<Rightarrow> prefix (x_started s) (jobs_of actions (x_received s)) \<and>
          (\<not> x_cancelled s \<longrightarrow> jobs_of actions (x_received s) = x_started s \<and> x_queue s = [] \<and> x_closed s)) \<and>
     (x_phase s = Finished \<longrightarrow> x_running s = [])"

lemma jobs_of_snoc:
  "jobs_of actions (ids @ [i]) = jobs_of actions ids @ (case gm_get actions i of None \<Rightarrow> [] | Some a \<Rightarrow> [(i, a)])"
  by (simp add: jobs_of_def map_filter_def split: option.split)

lemma mset_take_drop:
  assumes "k < length xs"
  shows "mset xs = add_mset (xs ! k) (mset (take k xs @ drop (Suc k) xs))"
proof -
  have "mset xs = mset (take k xs @ xs ! k # drop (Suc k) xs)" using id_take_nth_drop[OF assms] by simp
  then show ?thesis by simp
qed

lemma exec_step_inv:
  assumes "exec_inv actions n s" "exec_step actions n l s = Some s'"
  shows "exec_inv actions n s'"
proof (cases l)
  case (Complete k)
  then have k: "k < length (x_running s)" "s' = s\<lparr>x_running := take k (x_running s) @ drop (Suc k) (x_running s),
      x_completed := x_completed s @ [x_running s ! k]\<rparr>"
    using assms(2) by (auto simp: exec_step_def split: if_splits)
  from mset_take_drop[OF k(1)] assms(1) k show ?thesis
    by (auto simp: exec_inv_def split: phase.splits)
next
  case Receive
  then obtain i q where i: "x_phase s = Dispatching" "x_queue s = i # q" "s' = receive_id actions i (s\<lparr>x_queue := q\<rparr>)"
    using assms(2) by (auto simp: exec_step_def split: phase.splits list.splits)
  then show ?thesis using assms(1)
    by (auto simp: exec_inv_def receive_id_def jobs_of_snoc split: option.split)
next
  case HandOff
  then show ?thesis using assms
    by (auto simp: exec_step_def exec_inv_def split: phase.splits if_splits)
next
  case StopOffer
  then show ?thesis using assms
    by (auto simp: exec_step_def exec_inv_def split: phase.splits if_splits)
qed ((cases "x_phase s"; use assms in \<open>auto simp: exec_step_def exec_inv_def split: if_splits\<close>)+)

interpretation xm: guarded_machine "\<lambda>l s. exec_step actions n l s \<noteq> None" "exec_step actions n" new_executor
    "exec_inv actions n" for actions n
proof (rule guarded_machineI)
  show "exec_inv actions n new_executor" by (simp add: exec_inv_def new_executor_def jobs_of_def)
qed (rule exec_step_inv)

lemma exec_run_inv: "exec_run actions n s \<Longrightarrow> exec_inv actions n s"
  unfolding exec_run_def by (rule xm.reachable_inv)

section \<open>Progress\<close>

definition phase_weight :: "phase \<Rightarrow> nat" where
  "phase_weight p = (case p of Finished \<Rightarrow> 0 | Draining \<Rightarrow> 1 | Dispatching \<Rightarrow> 2 | Offering _ \<Rightarrow> 4)"

definition exec_work :: "executor \<Rightarrow> nat" where
  "exec_work s = 4 * length (x_queue s) + phase_weight (x_phase s) + length (x_running s)"

lemma own_step_decreases:
  assumes "exec_step actions n l s = Some s'" "own_step l"
  shows "exec_work s' < exec_work s" "x_closed s' = x_closed s" "x_cancelled s' = x_cancelled s"
  using assms
  by (cases l; auto simp: exec_step_def own_step_def exec_work_def phase_weight_def receive_id_def
      split: phase.splits list.splits if_splits option.splits)+

lemma own_step_exists:
  assumes "0 < n" "x_closed s \<or> x_cancelled s" "x_phase s \<noteq> Finished"
  shows "\<exists>l s'. own_step l \<and> exec_step actions n l s = Some s'"
proof (cases "x_phase s")
  case Dispatching
  show ?thesis
  proof (cases "x_queue s")
    case Nil
    then have "exec_step actions n (if x_closed s then InputEnd else StopDispatch) s \<noteq> None"
      using assms(2) Dispatching by (auto simp: exec_step_def)
    moreover have "own_step (if x_closed s then InputEnd else StopDispatch)" by (simp add: own_step_def)
    ultimately show ?thesis by blast
  next
    case (Cons i q)
    then have "exec_step actions n Receive s \<noteq> None" using Dispatching by (simp add: exec_step_def)
    then show ?thesis by (intro exI[of _ Receive]) (auto simp: own_step_def)
  qed
next
  case (Offering j)
  have "exec_step actions n (if length (x_running s) < n then HandOff else Complete 0) s \<noteq> None"
    using assms(1) Offering by (auto simp: exec_step_def)
  then show ?thesis by (intro exI[of _ "if length (x_running s) < n then HandOff else Complete 0"]) (auto simp: own_step_def)
next
  case Draining
  have "exec_step actions n (if x_running s = [] then Return else Complete 0) s \<noteq> None"
    using Draining by (auto simp: exec_step_def)
  then show ?thesis by (intro exI[of _ "if x_running s = [] then Return else Complete 0"]) (auto simp: own_step_def)
qed (use assms(3) in simp)

text \<open>With at least one worker, the dispatcher and the workers make progress once the input is closed
  or the context cancelled.\<close>

interpretation xp: progress_machine "exec_step actions (Suc n)" own_step "\<lambda>s. x_closed s \<or> x_cancelled s"
    "\<lambda>s. x_phase s = Finished" exec_work for actions n
proof
  show "exec_work s' < exec_work s" if "own_step l" "exec_step actions (Suc n) l s = Some s'" for l s s'
    using own_step_decreases(1)[OF that(2,1)] .
  show "x_closed s' \<or> x_cancelled s'" if "own_step l" "exec_step actions (Suc n) l s = Some s'" "x_closed s \<or> x_cancelled s" for l s s'
    using own_step_decreases(2,3)[OF that(2,1)] that(3) by simp
  show "\<exists>l s'. own_step l \<and> exec_step actions (Suc n) l s = Some s'"
    if "x_closed s \<or> x_cancelled s" "x_phase s \<noteq> Finished" for s
    using own_step_exists[OF _ that, of "Suc n"] by simp
qed

section \<open>Properties\<close>

lemma jobs_of_append: "jobs_of actions (xs @ ys) = jobs_of actions xs @ jobs_of actions ys"
  by (simp add: jobs_of_def map_filter_def)

lemma jobs_sent:
  "exec_inv actions n s \<Longrightarrow> jobs_of actions (x_sent s) = jobs_of actions (x_received s) @ jobs_of actions (x_queue s)"
  by (simp add: exec_inv_def jobs_of_append)

lemma started_prefix: "exec_inv actions n s \<Longrightarrow> prefix (x_started s) (jobs_of actions (x_sent s))"
  by (simp only: jobs_sent) (auto simp: exec_inv_def prefix_def split: phase.splits)

lemma jobs_of_configured: "j \<in> set (jobs_of actions ids) \<Longrightarrow> gm_get actions (fst j) = Some (snd j)"
  by (auto simp: jobs_of_def map_filter_def)

definition example_actions :: "(string, client_action) gomap" where
  "example_actions = [(''one'', \<lparr>ca_command = [''/bin/true''], ca_directory = []\<rparr>),
     (''two'', \<lparr>ca_command = [''/bin/sh'', ''-c'', ''echo two''], ca_directory = ''/tmp''\<rparr>)]"

definition example_labels :: "label list" where
  "example_labels = [Send ''one'', Send ''three'', Send ''two'', Receive, HandOff, Receive, Receive, CloseInput]"

text \<open>
  C26. Actions run in order on a bounded pool.  At every moment at most \<open>n\<close> commands run; the jobs
  started are, in the order they were sent and each once, the first of the configured actions that
  were sent, and each runs or has completed.  When \<open>Run\<close> returns without a cancellation every one
  of them was started and has completed.
\<close>

theorem executor_bounded_in_order:
  assumes "exec_run actions n s"
  shows "length (x_running s) \<le> n \<and> prefix (x_started s) (jobs_of actions (x_sent s)) \<and>
    mset (x_started s) = mset (x_running s) + mset (x_completed s) \<and>
    (\<forall>j\<in>set (x_started s). gm_get actions (fst j) = Some (snd j)) \<and>
    (x_phase s = Finished \<and> \<not> x_cancelled s \<longrightarrow>
       x_started s = jobs_of actions (x_sent s) \<and> mset (x_completed s) = mset (jobs_of actions (x_sent s)))"
proof -
  have inv: "exec_inv actions n s" using exec_run_inv[OF assms] .
  note sent = jobs_sent[OF inv] and pre = started_prefix[OF inv]
  have "\<forall>j\<in>set (x_started s). gm_get actions (fst j) = Some (snd j)"
    using set_mono_prefix[OF pre] jobs_of_configured by blast
  moreover have "x_started s = jobs_of actions (x_sent s) \<and> mset (x_completed s) = mset (jobs_of actions (x_sent s))"
    if "x_phase s = Finished \<and> \<not> x_cancelled s"
    using inv that unfolding sent by (auto simp: exec_inv_def jobs_of_def)
  ultimately show ?thesis using inv pre by (auto simp: exec_inv_def)
qed

theorem executor_bounded_in_order_witness:
  "\<exists>s. exec_run example_actions 1 s \<and> length (x_running s) = 1 \<and> prefix (x_started s) (jobs_of example_actions (x_sent s)) \<and>
     map fst (jobs_of example_actions (x_sent s)) = [''one'', ''two'']"
proof -
  have "map_option (\<lambda>s. (length (x_running s), x_sent s)) (run_labels (\<lambda>l s. exec_step example_actions 1 l s \<noteq> None) (exec_step example_actions 1) example_labels new_executor) =
    Some (1, [''one'', ''three'', ''two''])" by code_simp
  then obtain s where run: "exec_run example_actions 1 s" and
    s: "(length (x_running s), x_sent s) = (1, [''one'', ''three'', ''two''])"
    unfolding exec_run_def by (rule run_view_reachable)
  have "map fst (jobs_of example_actions [''one'', ''three'', ''two'']) = [''one'', ''two'']" by code_simp
  with executor_bounded_in_order[OF run] run s show ?thesis by (intro exI[of _ s]) simp
qed

text \<open>
  \<open>Run\<close> returns.  Once the input is closed or the context cancelled, the dispatcher and the
  workers can take only so many more steps (each command ends in one of them), they are never stuck
  before \<open>Run\<close> has returned, and so it returns.
\<close>

theorem executor_returns:
  assumes "exec_run actions n s" "0 < n" "x_closed s \<or> x_cancelled s"
  shows "(\<exists>ls s'. list_all own_step ls \<and> exec_steps actions n ls s = Some s' \<and> x_phase s' = Finished) \<and>
    (\<forall>ls s'. list_all own_step ls \<and> exec_steps actions n ls s = Some s' \<longrightarrow> length ls \<le> exec_work s \<and>
       (x_phase s' = Finished \<or> (\<exists>l s''. own_step l \<and> exec_step actions n l s' = Some s'')))"
proof -
  obtain m where n: "n = Suc m" using assms(2) gr0_implies_Suc by blast
  show ?thesis unfolding exec_steps_def n by (rule xp.ends[OF assms(3)])
qed

theorem executor_returns_witness:
  "\<exists>s. exec_run example_actions 1 s \<and> x_phase s \<noteq> Finished \<and>
     (\<exists>ls s'. list_all own_step ls \<and> exec_steps example_actions 1 ls s = Some s' \<and> x_phase s' = Finished)"
proof -
  have "map_option (\<lambda>s. (x_closed s, x_phase s = Finished)) (run_labels (\<lambda>l s. exec_step example_actions 1 l s \<noteq> None) (exec_step example_actions 1) example_labels new_executor) =
    Some (True, False)" by code_simp
  then obtain s where run: "exec_run example_actions 1 s" and s: "(x_closed s, x_phase s = Finished) = (True, False)"
    unfolding exec_run_def by (rule run_view_reachable)
  from executor_returns[OF run] s run show ?thesis by (intro exI[of _ s]) simp
qed

end
