(* ===== verification/Delivery.thy ===== *)
theory Delivery
  imports Action_Client Executor
begin

text \<open>
  From the daemon's \<open>Publish\<close> to the commands of a client: the server's machine, the bytes of a
  connection, the client's reader and the executor's machine put together.
\<close>

section \<open>What a connection is given\<close>

definition published :: "server_label list \<Rightarrow> string list" where
  "published ls = concat (map (\<lambda>l. case l of PublishAction act _ \<Rightarrow> [act] | _ \<Rightarrow> []) ls)"

definition message_line :: "(string \<Rightarrow> string) \<Rightarrow> string \<Rightarrow> string" where
  "message_line encode act = encode act @ [CHR 0x0A]"

lemma published_snoc:
  "published (ls @ [l]) = published ls @ (case l of PublishAction act _ \<Rightarrow> [act] | _ \<Rightarrow> [])"
  by (simp add: published_def)

lemma run_labels_snoc:
  "run_labels en step (ls @ [l]) s = do { s1 \<leftarrow> run_labels en step ls s; if en l s1 then step l s1 else None }"
  by (induction ls arbitrary: s) (auto split: Option.bind_splits)

text \<open>The steps that neither publish nor accept queue nothing and register nobody.\<close>

definition silent :: "server \<Rightarrow> server \<Rightarrow> bool" where
  "silent s s' \<longleftrightarrow> sv_next s' = sv_next s \<and>
     (\<forall>c. cn_uid (cn s' c) = cn_uid (cn s c) \<and> cn_queued (cn s' c) = cn_queued (cn s c)) \<and>
     (\<forall>uid c. gm_get (sv_clients s') uid = Some c \<longrightarrow> gm_get (sv_clients s) uid = Some c)"

lemma silent_refl [simp]: "silent s s"
  by (simp add: silent_def)

lemma silent_trans: "silent s s1 \<Longrightarrow> silent s1 s2 \<Longrightarrow> silent s s2"
  by (auto simp: silent_def)

lemma silent_upd:
  assumes "cn_uid (f (cn s c)) = cn_uid (cn s c)" "cn_queued (f (cn s c)) = cn_queued (cn s c)"
  shows "silent s (upd_conn c f s)"
  using assms by (simp add: silent_def)

lemma drop_client_silent: "drop_client uid c s = Some s' \<Longrightarrow> silent s s'"
  by (auto simp: drop_client_def close_queue_def close_connection_def upd_conn_def silent_def split: if_splits)

lemma remove_client_silent: "remove_client c s = Some s' \<Longrightarrow> silent s s'"
  by (auto simp: remove_client_def Let_def drop_client_silent split: if_splits)

lemma close_clients_silent: "close_clients uids s = Some s' \<Longrightarrow> silent s s'"
proof (induction uids arbitrary: s)
  case (Cons uid uids)
  show ?case
  proof (cases "gm_get (sv_clients s) uid")
    case None
    then show ?thesis using Cons by simp
  next
    case (Some c)
    then obtain s1 where "drop_client uid c s = Some s1" "close_clients uids s1 = Some s'"
      using Cons.prems by (auto split: Option.bind_splits)
    then show ?thesis using silent_trans[OF drop_client_silent Cons.IH] by simp
  qed
qed simp

lemma server_step_silent:
  assumes "server_step allowed encode l s = Some s'" "\<forall>cred. l \<noteq> AcceptConn cred" "\<forall>act uids. l \<noteq> PublishAction act uids"
  shows "silent s s'"
proof (cases l)
  case (WriterTakes c)
  then show ?thesis using assms(1) by (auto simp: server_step_def writer_takes_def silent_upd split: list.splits)
next
  case (WriterWrote c ok)
  then show ?thesis using assms(1) by (auto simp: server_step_def writer_wrote_def silent_upd split: writer.splits)
next
  case (WriterRemoves c)
  then obtain s1 where "remove_client c s = Some s1" "s' = upd_conn c (\<lambda>x. x\<lparr>cn_writer := WDone\<rparr>) s1"
    using assms(1) by (auto simp: server_step_def)
  then show ?thesis using silent_trans[OF remove_client_silent silent_upd] by simp
next
  case (WatcherReads c)
  then show ?thesis using assms(1) by (auto simp: server_step_def silent_upd)
next
  case (WatcherRemoves c)
  then obtain s1 where "remove_client c s = Some s1" "s' = upd_conn c (\<lambda>x. x\<lparr>cn_watcher := RDone\<rparr>) s1"
    using assms(1) by (auto simp: server_step_def)
  then show ?thesis using silent_trans[OF remove_client_silent silent_upd] by simp
next
  case (CloseAll uids)
  then show ?thesis using assms(1) close_clients_silent by (simp add: server_step_def)
qed (use assms in auto)

text \<open>The actions queued for a connection are consecutive among those published, and they are the latest
  as long as it is the client of its user.\<close>

definition given :: "(string \<Rightarrow> string) \<Rightarrow> string list \<Rightarrow> server \<Rightarrow> conn_id \<Rightarrow> bool" where
  "given encode pubs s c \<longleftrightarrow> (\<exists>pre acts post. pubs = pre @ acts @ post \<and>
     cn_queued (cn s c) = map (message_line encode) acts \<and> (registered s c \<longrightarrow> post = []))"

lemma given_silent:
  assumes "given encode pubs s c" "silent s s'"
  shows "given encode pubs s' c"
proof -
  obtain pre acts post where g: "pubs = pre @ acts @ post" "cn_queued (cn s c) = map (message_line encode) acts"
    "registered s c \<longrightarrow> post = []" using assms(1) unfolding given_def by blast
  have q: "cn_queued (cn s' c) = cn_queued (cn s c)" "registered s' c \<longrightarrow> registered s c"
    using assms(2) by (auto simp: silent_def registered_def)
  show ?thesis unfolding given_def
    by (rule exI[of _ pre], rule exI[of _ acts], rule exI[of _ post]) (use g q in simp)
qed

lemma given_later: "given encode pubs s c \<Longrightarrow> \<not> registered s' c \<Longrightarrow> cn_queued (cn s' c) = cn_queued (cn s c) \<Longrightarrow>
    given encode (pubs @ more_pubs) s' c"
  unfolding given_def by (metis append.assoc)

lemma given_accept:
  assumes "server_inv allowed s" "c < sv_next (accept_client allowed cred s)" "c < sv_next s \<Longrightarrow> given encode pubs s c"
  shows "given encode pubs (accept_client allowed cred s) c"
proof -
  let ?t = "accept_client allowed cred s"
  have nxt: "sv_next ?t = Suc (sv_next s)" and old: "\<forall>c < sv_next s. cn ?t c = cn s c" and
    empty: "cn_queued (cn ?t (sv_next s)) = []"
    by (auto simp: accept_client_def add_client_def new_conn_def Let_def upd_conn_def split: sum.split)
  have clients: "sv_clients ?t = sv_clients s \<or> (\<exists>uid. sv_clients ?t = gm_put uid (sv_next s) (sv_clients s))"
    by (auto simp: accept_client_def add_client_def new_conn_def Let_def upd_conn_def split: sum.split)
  show ?thesis
  proof (cases "c = sv_next s")
    case True
    then show ?thesis using empty by (auto simp: given_def)
  next
    case False
    then have c: "c < sv_next s" using assms(2) nxt by simp
    have "registered s c" if "registered ?t c" using that clients old c by (auto simp: registered_def split: if_splits)
    then show ?thesis using assms(3)[OF c] old c by (auto simp: given_def)
  qed
qed

lemma given_publish:
  assumes "server_inv allowed s" "distinct uids" "set uids = set (gm_keys (sv_clients s))"
    "publish encode act uids s = Some s'" "given encode pubs s c"
  shows "given encode (pubs @ [act]) s' c"
proof -
  note spec = publish_to_spec[OF assms(1,2) assms(4)[unfolded publish_def]]
  show ?thesis
  proof (cases "registered s c")
    case True
    define uid where "uid = cn_uid (cn s c)"
    have u: "gm_get (sv_clients s) uid = Some c" using True by (simp add: registered_def uid_def)
    then have mem: "uid \<in> set uids" using assms(3) gm.keys_get by fastforce
    obtain pre acts where g: "pubs = pre @ acts" "cn_queued (cn s c) = map (message_line encode) acts"
      using assms(5) True by (auto simp: given_def)
    show ?thesis
    proof (cases "length (cn_queue (cn s c)) < queue_size")
      case True
      then have "cn_queued (cn s' c) = map (message_line encode) (acts @ [act])"
        using spec mem u g(2) by (auto simp: message_line_def)
      then show ?thesis unfolding given_def using g(1)
        by (intro exI[of _ pre] exI[of _ "acts @ [act]"] exI[of _ "[]"]) simp
    next
      case False
      then have "cn s' c = (cn s c)\<lparr>cn_queue_closed := True, cn_closes := 1\<rparr>" "gm_get (sv_clients s') uid = None"
        using spec mem u by auto
      then show ?thesis using given_later[OF assms(5)] by (simp add: registered_def uid_def)
    qed
  next
    case False
    have nobody: "gm_get (sv_clients s) uid \<noteq> Some c" for uid using False server_client(3)[OF assms(1), of uid c] by blast
    then have same: "cn s' c = cn s c" using spec by blast
    have "\<not> registered s' c"
    proof
      assume "registered s' c"
      then have get: "gm_get (sv_clients s') (cn_uid (cn s c)) = Some c" by (simp add: registered_def same)
      show False
      proof (cases "cn_uid (cn s c) \<in> set uids")
        case True
        then obtain c1 where c1: "gm_get (sv_clients s) (cn_uid (cn s c)) = Some c1"
          using assms(3) gm.keys_get by fastforce
        then have "gm_get (sv_clients s') (cn_uid (cn s c)) \<in> {Some c1, None}" using spec True by (auto split: if_splits)
        then show False using get c1 nobody by auto
      next
        case False
        then show False using spec get nobody by auto
      qed
    qed
    then show ?thesis using given_later[OF assms(5)] same by simp
  qed
qed

lemma connections_given:
  "run_labels server_enabled (server_step allowed encode) ls new_server = Some s \<Longrightarrow> c < sv_next s \<Longrightarrow>
   given encode (published ls) s c"
proof (induction ls arbitrary: s rule: rev_induct)
  case Nil
  then show ?case by (auto simp: new_server_def)
next
  case (snoc l ls)
  obtain s1 where s1: "run_labels server_enabled (server_step allowed encode) ls new_server = Some s1"
    "server_enabled l s1" "server_step allowed encode l s1 = Some s"
    using snoc.prems(1) by (auto simp: run_labels_snoc split: Option.bind_splits if_splits)
  have inv: "server_inv allowed s1"
    by (rule server_run_inv, unfold server_run_def) (rule run_labels_reachable[OF reachable.start s1(1)])
  note IH = snoc.IH[OF s1(1)]
  consider (accept) cred where "l = AcceptConn cred" | (pub) act uids where "l = PublishAction act uids"
    | (other) "\<forall>cred. l \<noteq> AcceptConn cred" "\<forall>act uids. l \<noteq> PublishAction act uids" by blast
  then show ?case
  proof cases
    case accept
    then have s: "s = accept_client allowed cred s1" using s1(3) by (simp add: server_step_def)
    then show ?thesis using given_accept[OF inv snoc.prems(2)[unfolded s] IH] by (simp add: published_snoc accept)
  next
    case pub
    then have p: "publish encode act uids s1 = Some s" "distinct uids" "set uids = set (gm_keys (sv_clients s1))"
      using s1(2,3) by (simp_all add: server_step_def server_enabled_def)
    have "sv_next s = sv_next s1" using publish_to_ok[OF inv] p(1) unfolding publish_def by (metis option.inject)
    then have "given encode (published ls) s1 c" using IH snoc.prems(2) by simp
    then show ?thesis using given_publish[OF inv p(2,3,1)] by (simp add: published_snoc pub)
  next
    case other
    have q: "silent s1 s" by (rule server_step_silent[OF s1(3) other])
    then have "c < sv_next s1" using snoc.prems(2) by (simp add: silent_def)
    moreover have "published (ls @ [l]) = published ls" using other by (simp add: published_snoc split: server_label.split)
    ultimately show ?thesis using given_silent[OF IH q] by simp
  qed
qed

section \<open>What the client reads\<close>

text \<open>What the code relies on in \<open>encoding/json\<close>: decoding inverts encoding, a text that is cut short is
  refused, control characters are escaped and one byte takes at most six.\<close>

definition json_text :: "(string \<Rightarrow> string) \<Rightarrow> (string \<Rightarrow> notification option) \<Rightarrow> string \<Rightarrow> bool" where
  "json_text encode decode a \<longleftrightarrow> decode (encode a) = Some \<lparr>nt_action = a\<rparr> \<and>
     (\<forall>part. strict_prefix part (encode a) \<longrightarrow> decode part = None) \<and>
     CHR 0x0A \<notin> set (encode a) \<and> CHR 0x0D \<notin> set (encode a) \<and> length (encode a) \<le> 6 * length a + 13"

lemma last_not_in: "c \<notin> set xs \<Longrightarrow> xs \<noteq> [] \<Longrightarrow> last xs \<noteq> c"
  using last_in_set[of xs] by metis

lemma json_line:
  assumes "json_text encode decode a" "valid_action_id a"
  shows "newline \<notin> set (encode a)" "length (encode a) < maximumMessageSize" "a \<noteq> []" "decode (encode a) = Some \<lparr>nt_action = a\<rparr>"
    "prefix part (encode a) \<Longrightarrow> drop_cr part = part" "prefix part (encode a) \<Longrightarrow> part \<noteq> encode a \<Longrightarrow> decode part = None"
proof -
  show "newline \<notin> set (encode a)" "decode (encode a) = Some \<lparr>nt_action = a\<rparr>"
    using assms(1) by (simp_all add: json_text_def newline_def)
  show "length (encode a) < maximumMessageSize" "a \<noteq> []"
    using assms valid_id_nonempty[of a]
    by (auto simp: json_text_def maximumMessageSize_def valid_action_id_def simp del: concat_eq_Nil_conv)
  show "drop_cr part = part" if "prefix part (encode a)"
  proof -
    have "CHR 0x0D \<notin> set part" using assms(1) set_mono_prefix[OF that] by (auto simp: json_text_def)
    then show ?thesis using last_not_in by (fastforce simp: drop_cr_def)
  qed
  show "decode part = None" if "prefix part (encode a)" "part \<noteq> encode a"
    using assms(1) that by (simp add: json_text_def strict_prefix_def)
qed

lemma scan_rest:
  assumes "newline \<notin> set rest" "rest \<noteq> []" "length rest < maximumMessageSize"
  shows "scan_lines rest = ([drop_cr rest], True)"
proof -
  have "cut_at newline rest = None" using assms(1) by (simp add: cut_at_def)
  then show ?thesis using assms by (simp add: scan_lines.simps[of rest])
qed

text \<open>However much of the stream arrives, what the reader sends is a beginning of the actions.\<close>

lemma read_cut_stream:
  assumes "\<forall>a\<in>set acts. json_text encode decode a \<and> valid_action_id a" "prefix data (concat (map (message_line encode) acts))"
  shows "\<exists>ys. snd (read_tokens decode done failed (fst (scan_lines data)) sent) = sent @ ys \<and> prefix ys acts"
  using assms
proof (induction acts arbitrary: data sent)
  case Nil
  then show ?case by (simp add: scan_lines.simps)
next
  case (Cons a acts)
  then have "json_text encode decode a" "valid_action_id a" by simp_all
  note j = json_line[OF this]
  have "prefix data (encode a) \<or> (\<exists>rest. data = encode a @ newline # rest \<and> prefix rest (concat (map (message_line encode) acts)))"
    using Cons.prems(2) by (simp add: message_line_def[of encode a] newline_def prefix_append prefix_Cons) auto
  then consider (empty) "data = []" | (cut) "data \<noteq> []" "prefix data (encode a)"
    | (whole) rest where "data = encode a @ newline # rest" "prefix rest (concat (map (message_line encode) acts))" by blast
  then show ?case
  proof cases
    case empty
    then show ?thesis by (simp add: scan_lines.simps)
  next
    case cut
    have "newline \<notin> set data" "length data < maximumMessageSize"
      using j(1,2) set_mono_prefix[OF cut(2)] prefix_length_le[OF cut(2)] by auto
    then have "fst (scan_lines data) = [data]" using scan_rest cut(1) j(5)[OF cut(2)] by simp
    then show ?thesis using j(3,4) j(6)[OF cut(2)] by (cases "data = encode a") auto
  next
    case whole
    have "fst (scan_lines data) = encode a # fst (scan_lines rest)"
      using scan_line[OF j(1,2)] j(5)[of "encode a"] whole(1) by simp
    moreover obtain ys where "snd (read_tokens decode done failed (fst (scan_lines rest)) (sent @ [a])) = sent @ a # ys" "prefix ys acts"
      using Cons.IH[OF _ whole(2), of "sent @ [a]"] Cons.prems(1) by auto
    ultimately show ?thesis using j(3,4) by (cases "done sent") auto
  qed
qed

section \<open>From Publish to the commands\<close>

text \<open>
  C5. What the daemon publishes is what the client runs.  The actions queued for a connection are
  consecutive ones of those published, the latest ones while it is the client of its user; however much of
  the written bytes arrives at the client, the actions it passes on are a beginning of them, and all of
  them when everything was written and read; the commands its executor starts are the first of the jobs
  configured for them, in order and each once.
\<close>

theorem published_actions_run:
  assumes "run_labels server_enabled (server_step allowed encode) ls new_server = Some s" "c < sv_next s"
    "\<And>a. a \<in> set (published ls) \<Longrightarrow> valid_action_id a \<and> json_text encode decode a"
    "prefix data (concat (cn_written (cn s c)))"
    "exec_run actions n x" "x_sent x = snd (read_notifications decode done data read_error)"
  shows "\<exists>pre acts post. published ls = pre @ acts @ post \<and> (registered s c \<longrightarrow> post = []) \<and>
    cn_queued (cn s c) = map (message_line encode) acts \<and>
    prefix (x_sent x) acts \<and> prefix (x_started x) (jobs_of actions acts) \<and>
    (data = concat (cn_queued (cn s c)) \<and> \<not> read_error \<and> (\<forall>sent. \<not> done sent) \<longrightarrow> x_sent x = acts)"
proof -
  obtain pre acts post where g: "published ls = pre @ acts @ post" "registered s c \<longrightarrow> post = []"
    "cn_queued (cn s c) = map (message_line encode) acts"
    using connections_given[OF assms(1,2)] unfolding given_def by blast
  have valid: "\<forall>a\<in>set acts. json_text encode decode a \<and> valid_action_id a" using assms(3) g(1) by simp
  have "server_inv allowed s"
    by (rule server_run_inv, unfold server_run_def) (rule run_labels_reachable[OF reachable.start assms(1)])
  then have "prefix (cn_written (cn s c)) (cn_queued (cn s c))"
    using assms(2) by (simp add: server_inv_def conn_ok_def data_ok_def)
  then obtain unwritten where w: "map (message_line encode) acts = cn_written (cn s c) @ unwritten"
    unfolding g(3) by (rule prefixE)
  have "prefix data (concat (map (message_line encode) acts))"
    unfolding w using assms(4) by (simp add: prefix_prefix)
  from read_cut_stream[OF valid this, of "done" "\<not> snd (scan_lines data) \<or> read_error" "[]"]
  have sent: "prefix (x_sent x) acts" by (auto simp: assms(6) read_notifications_def case_prod_beta)
  have all: "x_sent x = acts" if "data = concat (cn_queued (cn s c))" "\<not> read_error" "\<forall>sent. \<not> done sent"
  proof -
    have "data = concat (map (\<lambda>a. encode a @ [CHR 0x0A]) acts)"
      by (simp add: that(1) g(3) message_line_def cong: map_cong)
    moreover have "read_notifications decode done (concat (map (\<lambda>a. encode a @ [CHR 0x0A]) acts)) False = (SocketClosed, acts)"
      by (rule client_reads_published) (use valid that(3) in \<open>auto simp: json_text_def dest: last_not_in\<close>)
    ultimately show ?thesis using that(2) by (simp add: assms(6))
  qed
  have "prefix (x_started x) (jobs_of actions (x_sent x))" by (rule started_prefix[OF exec_run_inv[OF assms(5)]])
  moreover obtain later where "acts = x_sent x @ later" using sent by (rule prefixE)
  then have "prefix (jobs_of actions (x_sent x)) (jobs_of actions acts)" using jobs_of_append[of actions "x_sent x" later] by simp
  ultimately have "prefix (x_started x) (jobs_of actions acts)" by (rule prefix_order.order_trans)
  with g sent all show ?thesis by blast
qed

definition braces_decode :: "string \<Rightarrow> notification option" where
  "braces_decode t =
     (if 2 \<le> length t \<and> last t = CHR ''}'' \<and> CHR ''}'' \<notin> set (butlast t) then Some \<lparr>nt_action = butlast (tl t)\<rparr> else None)"

lemma braces_json:
  assumes "CHR ''}'' \<notin> set a" "CHR 0x0A \<notin> set a" "CHR 0x0D \<notin> set a"
  shows "json_text example_encode braces_decode a"
proof -
  have "braces_decode part = None" if "strict_prefix part (example_encode a)" for part
  proof -
    have ex: "example_encode a = (CHR ''{'' # a) @ [CHR ''}'']" by (simp add: example_encode_def)
    have "prefix part (CHR ''{'' # a)" using that unfolding ex strict_prefix_def prefix_snoc by blast
    from set_mono_prefix[OF this] have "CHR ''}'' \<notin> set part" using assms(1) by auto
    from last_not_in[OF this] show ?thesis by (cases "part = []") (simp_all add: braces_decode_def)
  qed
  then show ?thesis using assms by (simp add: json_text_def braces_decode_def example_encode_def butlast_append)
qed

theorem published_actions_run_witness:
  "\<exists>s x acts. run_labels server_enabled (server_step [1000, 1001] example_encode) example_server_labels new_server = Some s \<and>
     exec_run example_actions 1 x \<and> map fst (x_started x) = [''one''] \<and>
     prefix (x_started x) (jobs_of example_actions acts) \<and> prefix [''one''] acts \<and>
     cn_queued (cn s 0) = map (message_line example_encode) acts"
proof -
  let ?run = "run_labels server_enabled (server_step [1000, 1001] example_encode) example_server_labels new_server"
  have "map_option (\<lambda>s. (sv_next s, concat (cn_written (cn s 0)))) ?run = Some (4, message_line example_encode ''one'')"
    by code_simp
  then obtain s where s: "?run = Some s" "sv_next s = 4" "concat (cn_written (cn s 0)) = message_line example_encode ''one''"
    by auto
  have "map_option (\<lambda>x. (x_sent x, map fst (x_started x))) (run_labels (\<lambda>l s. exec_step example_actions 1 l s \<noteq> None)
    (exec_step example_actions 1) [Send ''one'', Receive, HandOff] new_executor) = Some ([''one''], [''one''])" by code_simp
  then obtain x where x: "exec_run example_actions 1 x" "(x_sent x, map fst (x_started x)) = ([''one''], [''one''])"
    unfolding exec_run_def by (rule run_view_reachable)
  have pub: "published example_server_labels = [''one'', ''two'']" by code_simp
  have "list_all valid_action_id [''one'', ''two'']" by code_simp
  moreover have "json_text example_encode braces_decode ''one''" "json_text example_encode braces_decode ''two''"
    by (simp_all add: braces_json)
  ultimately have json: "valid_action_id a \<and> json_text example_encode braces_decode a" if "a \<in> set (published example_server_labels)" for a
    using that by (auto simp: pub)
  have "read_notifications braces_decode (\<lambda>_. False) (concat (map (\<lambda>a. example_encode a @ [CHR 0x0A]) [''one''])) False =
      (SocketClosed, [''one''])"
    by (rule client_reads_published) (use json[of "''one''"] in \<open>auto simp: pub json_text_def dest: last_not_in\<close>)
  then have "x_sent x = snd (read_notifications braces_decode (\<lambda>_. False) (message_line example_encode ''one'') False)"
    using x(2) by (simp add: message_line_def)
  from published_actions_run[OF s(1) _ json _ x(1) this, of 0] s(2,3) x s(1) show ?thesis
    by (intro exI[of _ s] exI[of _ x]) auto
qed

end
