(* ===== verification/Client_Program.thy ===== *)
theory Client_Program
  imports Delivery
begin

text \<open>
  \<open>run\<close> of \<open>cmd/eakc/main_linux.go\<close>: the client goroutine sends what it reads into a bounded channel
  from which the executor receives; when the client returns the channel is closed, when the executor
  returns \<open>run\<close> cancels the context and waits for the client.  What the client does, unless the
  context stops it, is a list of its events; the executor is the machine of Executor.
\<close>

section \<open>State and steps\<close>

record eakc =
  ek_exec :: executor
  ek_todo :: "client_event list"     \<comment> \<open>what the client still does\<close>
  ek_returns :: bool                 \<comment> \<open>whether it returns then by itself\<close>
  ek_client_done :: bool             \<comment> \<open>its result is in \<open>clientErrors\<close> and the channel is closed\<close>
  ek_stopped :: bool                 \<comment> \<open>\<open>stop()\<close> was called after \<open>runner.Run\<close>\<close>
  ek_over :: bool

definition new_eakc :: "client_event list \<times> bool \<Rightarrow> eakc" where
  "new_eakc client = \<lparr>ek_exec = new_executor, ek_todo = fst client, ek_returns = snd client,
     ek_client_done = False, ek_stopped = False, ek_over = False\<rparr>"

datatype eakc_label =
    ClientStep                       \<comment> \<open>its next event; a send waits for room in the channel\<close>
  | ClientStops                      \<comment> \<open>it finds the context cancelled\<close>
  | ClientReturns
  | ExecStep label
  | Interrupt                        \<comment> \<open>a signal cancels the context\<close>
  | StopContext
  | MainReturns

definition with_exec :: "eakc \<Rightarrow> executor option \<Rightarrow> eakc option" where
  "with_exec s x = map_option (\<lambda>e. s\<lparr>ek_exec := e\<rparr>) x"

definition eakc_step :: "(string, client_action) gomap \<Rightarrow> nat \<Rightarrow> nat \<Rightarrow> eakc_label \<Rightarrow> eakc \<Rightarrow> eakc option" where
  "eakc_step actions n cap l s =
     (case l of
        ClientStep \<Rightarrow>
          (case ek_todo s of
             [] \<Rightarrow> None
           | Sent i # rest \<Rightarrow>
               if length (x_queue (ek_exec s)) < cap
               then with_exec (s\<lparr>ek_todo := rest\<rparr>) (exec_step actions n (Send i) (ek_exec s)) else None
           | _ # rest \<Rightarrow> Some (s\<lparr>ek_todo := rest\<rparr>))
      | ClientStops \<Rightarrow>
          if x_cancelled (ek_exec s) \<and> ek_todo s \<noteq> [] then Some (s\<lparr>ek_todo := []\<rparr>) else None
      | ClientReturns \<Rightarrow>
          if ek_todo s = [] \<and> (ek_returns s \<or> x_cancelled (ek_exec s)) \<and> \<not> ek_client_done s
          then with_exec (s\<lparr>ek_client_done := True\<rparr>) (exec_step actions n CloseInput (ek_exec s)) else None
      | ExecStep l' \<Rightarrow> if own_step l' then with_exec s (exec_step actions n l' (ek_exec s)) else None
      | Interrupt \<Rightarrow> with_exec s (exec_step actions n Cancel (ek_exec s))
      | StopContext \<Rightarrow>
          if x_phase (ek_exec s) = Finished \<and> \<not> ek_stopped s
          then with_exec (s\<lparr>ek_stopped := True\<rparr>) (exec_step actions n Cancel (ek_exec s)) else None
      | MainReturns \<Rightarrow>
          if ek_stopped s \<and> ek_client_done s \<and> \<not> ek_over s then Some (s\<lparr>ek_over := True\<rparr>) else None)"

definition eakc_run :: "client_config \<Rightarrow> client_event list \<times> bool \<Rightarrow> eakc \<Rightarrow> bool" where
  "eakc_run cfg client s =
     (let step = eakc_step (cc_actions cfg) (nat (cc_max_parallel cfg)) (nat (cc_queue_size cfg))
      in reachable (\<lambda>l s. step l s \<noteq> None) step (new_eakc client) s)"

definition eakc_steps :: "client_config \<Rightarrow> eakc_label list \<Rightarrow> eakc \<Rightarrow> eakc option" where
  "eakc_steps cfg ls s =
     run_labels (\<lambda>_ _. True) (eakc_step (cc_actions cfg) (nat (cc_max_parallel cfg)) (nat (cc_queue_size cfg))) ls s"

definition program_step :: "eakc_label \<Rightarrow> bool" where
  "program_step l \<longleftrightarrow> l \<noteq> Interrupt"

section \<open>The invariant\<close>

definition sent_of :: "client_event list \<Rightarrow> string list" where
  "sent_of evs = concat (map (\<lambda>e. case e of Sent i \<Rightarrow> [i] | _ \<Rightarrow> []) evs)"

text \<open>What the client has sent and what it still sends is a beginning of its events.\<close>

definition eakc_inv :: "(string, client_action) gomap \<Rightarrow> nat \<Rightarrow> nat \<Rightarrow> string list \<Rightarrow> eakc \<Rightarrow> bool" where
  "eakc_inv actions n cap sends s \<longleftrightarrow>
     exec_inv actions n (ek_exec s) \<and> length (x_queue (ek_exec s)) \<le> cap \<and>
     prefix (x_sent (ek_exec s) @ sent_of (ek_todo s)) sends \<and>
     (ek_stopped s \<longrightarrow> x_cancelled (ek_exec s)) \<and>
     (ek_over s \<longrightarrow> ek_stopped s \<and> ek_client_done s) \<and>
     (x_closed (ek_exec s) \<longrightarrow> ek_client_done s) \<and> (ek_client_done s \<longrightarrow> ek_todo s = [])"

text \<open>The executor's own steps do not touch what the environment decides, and the queue only shrinks.\<close>

lemma own_step_frame:
  assumes "exec_step actions n l x = Some x'" "own_step l"
  shows "x_sent x' = x_sent x" "length (x_queue x') \<le> length (x_queue x)"
    "x_closed x' = x_closed x" "x_cancelled x' = x_cancelled x"
  using assms
  by (cases l; auto simp: exec_step_def own_step_def receive_id_def split: phase.splits list.splits if_splits option.splits)+

text \<open>A step of the executor inside the program.\<close>

lemma eakc_inv_exec:
  assumes "eakc_inv actions n cap sends s" "exec_step actions n l (ek_exec s) = Some x"
    "length (x_queue x) \<le> cap" "prefix (x_sent x @ sent_of (ek_todo t)) sends" "ek_exec t = x"
    "ek_stopped t \<longrightarrow> x_cancelled x" "ek_over t \<longrightarrow> ek_stopped t \<and> ek_client_done t"
    "x_closed x \<longrightarrow> ek_client_done t" "ek_client_done t \<longrightarrow> ek_todo t = []"
  shows "eakc_inv actions n cap sends t"
  using assms exec_step_inv[OF _ assms(2)] by (simp add: eakc_inv_def)

lemma sent_of_Cons: "sent_of (e # evs) = (case e of Sent i \<Rightarrow> [i] | _ \<Rightarrow> []) @ sent_of evs"
  by (simp add: sent_of_def)

lemma with_exec_eq: "with_exec s x = Some s' \<longleftrightarrow> (\<exists>e. x = Some e \<and> s' = s\<lparr>ek_exec := e\<rparr>)"
  by (cases x) (auto simp: with_exec_def)

lemma eakc_step_inv:
  assumes "eakc_inv actions n cap sends s" "eakc_step actions n cap l s = Some s'"
  shows "eakc_inv actions n cap sends s'"
proof (cases l)
  case ClientStep
  then obtain e rest where todo: "ek_todo s = e # rest" using assms(2) by (auto simp: eakc_step_def split: list.splits)
  show ?thesis
  proof (cases "\<exists>i. e = Sent i")
    case True
    then obtain i x where "e = Sent i" "length (x_queue (ek_exec s)) < cap"
      and x: "exec_step actions n (Send i) (ek_exec s) = Some x" and "s' = s\<lparr>ek_todo := rest, ek_exec := x\<rparr>"
      using assms(2) ClientStep todo by (auto simp: eakc_step_def with_exec_eq split: if_splits)
    with assms(1) todo show ?thesis
      by (intro eakc_inv_exec[OF assms(1) x]) (auto simp: exec_step_def eakc_inv_def sent_of_Cons split: if_splits)
  next
    case False
    then have "s' = s\<lparr>ek_todo := rest\<rparr>" "sent_of (ek_todo s) = sent_of rest"
      using assms(2) ClientStep todo by (auto simp: eakc_step_def sent_of_Cons split: client_event.splits)
    with assms(1) todo show ?thesis by (auto simp: eakc_inv_def)
  qed
next
  case ClientStops
  then have "s' = s\<lparr>ek_todo := []\<rparr>" using assms(2) by (auto simp: eakc_step_def split: if_splits)
  moreover have "prefix (x_sent (ek_exec s)) sends" using assms(1) by (auto simp: eakc_inv_def intro: append_prefixD)
  ultimately show ?thesis using assms(1) by (auto simp: eakc_inv_def sent_of_def)
next
  case ClientReturns
  then obtain x where x: "exec_step actions n CloseInput (ek_exec s) = Some x" and "s' = s\<lparr>ek_client_done := True, ek_exec := x\<rparr>" "ek_todo s = []"
    using assms(2) by (auto simp: eakc_step_def with_exec_eq split: if_splits)
  with assms(1) show ?thesis by (intro eakc_inv_exec[OF assms(1) x]) (auto simp: exec_step_def eakc_inv_def)
next
  case (ExecStep l')
  then obtain x where x: "exec_step actions n l' (ek_exec s) = Some x" "own_step l'" "s' = s\<lparr>ek_exec := x\<rparr>"
    using assms(2) by (auto simp: eakc_step_def with_exec_eq split: if_splits)
  with assms(1) own_step_frame[OF x(1,2)] show ?thesis
    by (intro eakc_inv_exec[OF assms(1) x(1)]) (auto simp: eakc_inv_def)
next
  case Interrupt
  then obtain x where x: "exec_step actions n Cancel (ek_exec s) = Some x" and "s' = s\<lparr>ek_exec := x\<rparr>"
    using assms(2) by (auto simp: eakc_step_def with_exec_eq)
  with assms(1) show ?thesis by (intro eakc_inv_exec[OF assms(1) x]) (auto simp: exec_step_def eakc_inv_def)
next
  case StopContext
  then obtain x where x: "exec_step actions n Cancel (ek_exec s) = Some x" and "s' = s\<lparr>ek_stopped := True, ek_exec := x\<rparr>"
    using assms(2) by (auto simp: eakc_step_def with_exec_eq split: if_splits)
  with assms(1) show ?thesis by (intro eakc_inv_exec[OF assms(1) x]) (auto simp: exec_step_def eakc_inv_def)
next
  case MainReturns
  then show ?thesis using assms by (auto simp: eakc_step_def eakc_inv_def split: if_splits)
qed

interpretation em: guarded_machine "\<lambda>l s. eakc_step actions n cap l s \<noteq> None" "eakc_step actions n cap" "new_eakc client"
    "eakc_inv actions n cap (sent_of (fst client))" for actions n cap client
proof (rule guarded_machineI)
  show "eakc_inv actions n cap (sent_of (fst client)) (new_eakc client)"
    by (simp add: eakc_inv_def new_eakc_def exec_inv_def new_executor_def jobs_of_def)
qed (rule eakc_step_inv)

section \<open>Progress\<close>

definition eakc_work :: "eakc \<Rightarrow> nat" where
  "eakc_work s = 5 * length (ek_todo s) + exec_work (ek_exec s) + (if ek_client_done s then 0 else 1) +
     (if ek_stopped s then 0 else 1) + (if ek_over s then 0 else 1)"

definition ending_program :: "eakc \<Rightarrow> bool" where
  "ending_program s \<longleftrightarrow> (x_closed (ek_exec s) \<or> x_cancelled (ek_exec s)) \<and> (ek_stopped s \<longrightarrow> x_cancelled (ek_exec s))
    \<and> (x_closed (ek_exec s) \<longrightarrow> ek_client_done s)"

lemma environment_work:
  "exec_step actions n (Send i) x = Some x' \<Longrightarrow> exec_work x' = exec_work x + 4"
  "exec_step actions n CloseInput x = Some x' \<Longrightarrow> exec_work x' = exec_work x"
  "exec_step actions n Cancel x = Some x' \<Longrightarrow> exec_work x' = exec_work x"
  by (auto simp: exec_step_def exec_work_def split: if_splits)

lemma program_step_decreases:
  assumes "eakc_step actions n cap l s = Some s'" "program_step l"
  shows "eakc_work s' < eakc_work s"
  using assms
  by (cases l; auto simp: eakc_step_def program_step_def with_exec_eq eakc_work_def
      dest: environment_work own_step_decreases(1) split: list.splits client_event.splits if_splits)

lemma program_step_ending:
  assumes "eakc_step actions n cap l s = Some s'" "program_step l" "ending_program s"
  shows "ending_program s'"
proof (cases l)
  case (ExecStep l')
  then obtain x where x: "exec_step actions n l' (ek_exec s) = Some x" "own_step l'" "s' = s\<lparr>ek_exec := x\<rparr>"
    using assms(1) by (auto simp: eakc_step_def with_exec_eq split: if_splits)
  with own_step_frame[OF x(1,2)] assms(3) show ?thesis by (simp add: ending_program_def)
qed (use assms in \<open>auto simp: eakc_step_def program_step_def with_exec_eq ending_program_def exec_step_def
    split: list.splits client_event.splits if_splits\<close>)

lemma program_step_exists:
  assumes "0 < n" "ending_program s" "\<not> ek_over s"
  shows "\<exists>l s'. program_step l \<and> eakc_step actions n cap l s = Some s'"
proof (cases "x_phase (ek_exec s) = Finished")
  case False
  then obtain l x where "own_step l" "exec_step actions n l (ek_exec s) = Some x"
    using own_step_exists[OF assms(1) _ False, of actions] assms(2) unfolding ending_program_def by blast
  then have "eakc_step actions n cap (ExecStep l) s = Some (s\<lparr>ek_exec := x\<rparr>)" by (simp add: eakc_step_def with_exec_eq)
  then show ?thesis by (intro exI[of _ "ExecStep l"]) (auto simp: program_step_def)
next
  case True
  define l where "l = (if \<not> ek_stopped s then StopContext else if ek_client_done s then MainReturns
    else if ek_todo s = [] then ClientReturns else ClientStops)"
  have "eakc_step actions n cap l s \<noteq> None" "program_step l"
    using True assms(2,3) by (auto simp: l_def eakc_step_def with_exec_def exec_step_def ending_program_def program_step_def)
  then show ?thesis by blast
qed

interpretation ep: progress_machine "eakc_step actions (Suc n) cap" program_step ending_program ek_over eakc_work for actions n cap
proof
  show "eakc_work s' < eakc_work s" if "program_step l" "eakc_step actions (Suc n) cap l s = Some s'" for l s s'
    using program_step_decreases[OF that(2,1)] .
  show "ending_program s'" if "program_step l" "eakc_step actions (Suc n) cap l s = Some s'" "ending_program s" for l s s'
    using program_step_ending[OF that(2,1,3)] .
  show "\<exists>l s'. program_step l \<and> eakc_step actions (Suc n) cap l s = Some s'" if "ending_program s" "\<not> ek_over s" for s
    using program_step_exists[OF _ that] by simp
qed

section \<open>Properties\<close>

lemma eakc_run_inv:
  "eakc_run cfg client s \<Longrightarrow>
     eakc_inv (cc_actions cfg) (nat (cc_max_parallel cfg)) (nat (cc_queue_size cfg)) (sent_of (fst client)) s"
  unfolding eakc_run_def Let_def by (rule em.reachable_inv)

lemma eakc_run_ending:
  assumes "eakc_run cfg client s" "x_cancelled (ek_exec s) \<or> ek_client_done s \<and> x_closed (ek_exec s)"
  shows "ending_program s"
  using eakc_run_inv[OF assms(1)] assms(2) by (auto simp: eakc_inv_def ending_program_def)

text \<open>
  C28. The client program within its bounds.  With the compiled configuration, at most \<open>queue_size\<close> actions
  wait and at most \<open>max_parallel\<close> commands run; what was sent to the executor is a beginning of what the
  client received, and the commands started are the first of the configured ones among it, in order.
\<close>

theorem client_program_bounds:
  assumes "eakc_run cfg client s"
  shows "length (x_queue (ek_exec s)) \<le> nat (cc_queue_size cfg) \<and>
    length (x_running (ek_exec s)) \<le> nat (cc_max_parallel cfg) \<and>
    prefix (x_sent (ek_exec s)) (sent_of (fst client)) \<and>
    prefix (x_started (ek_exec s)) (jobs_of (cc_actions cfg) (sent_of (fst client)))"
proof -
  note inv = eakc_run_inv[OF assms]
  then have sent: "prefix (x_sent (ek_exec s)) (sent_of (fst client))" by (auto simp: eakc_inv_def intro: append_prefixD)
  then obtain later where "sent_of (fst client) = x_sent (ek_exec s) @ later" by (rule prefixE)
  then have "prefix (jobs_of (cc_actions cfg) (x_sent (ek_exec s))) (jobs_of (cc_actions cfg) (sent_of (fst client)))"
    using jobs_of_append[of "cc_actions cfg" "x_sent (ek_exec s)" later] by simp
  moreover have "prefix (x_started (ek_exec s)) (jobs_of (cc_actions cfg) (x_sent (ek_exec s)))"
    using inv started_prefix by (auto simp: eakc_inv_def)
  ultimately have "prefix (x_started (ek_exec s)) (jobs_of (cc_actions cfg) (sent_of (fst client)))"
    by (meson prefix_order.order_trans)
  then show ?thesis using inv sent by (simp add: eakc_inv_def exec_inv_def)
qed

text \<open>
  C27. The client program ends.  Once its context is cancelled, or its client has returned, the program
  can take only so many more steps, is never stuck before \<open>run\<close> has returned, and so it returns, for every
  configuration that was accepted.
\<close>

theorem client_program_returns:
  assumes "compile_client ids raw = Inr cfg" "eakc_run cfg client s"
    "x_cancelled (ek_exec s) \<or> ek_client_done s \<and> x_closed (ek_exec s)"
  shows "(\<exists>ls s'. list_all program_step ls \<and> eakc_steps cfg ls s = Some s' \<and> ek_over s') \<and>
    (\<forall>ls s'. list_all program_step ls \<and> eakc_steps cfg ls s = Some s' \<longrightarrow> length ls \<le> eakc_work s \<and>
       (ek_over s' \<or> (\<exists>l s''. program_step l \<and>
         eakc_step (cc_actions cfg) (nat (cc_max_parallel cfg)) (nat (cc_queue_size cfg)) l s' = Some s'')))"
proof -
  have "1 \<le> cc_max_parallel cfg" using assms(1) by (auto simp: compile_client_def Let_def and_then_def split: if_splits sum.splits)
  then obtain m where m: "nat (cc_max_parallel cfg) = Suc m" using gr0_conv_Suc[of "nat (cc_max_parallel cfg)"] by auto
  show ?thesis unfolding eakc_steps_def m by (rule ep.ends[OF eakc_run_ending[OF assms(2,3)]])
qed

text \<open>Two actions arrive, one is started, and a signal comes.\<close>

definition example_client_config :: client_config where
  "example_client_config = \<lparr>cc_socket_path = ''/run/eak/eakd.sock'', cc_max_parallel = 1, cc_queue_size = 1, cc_actions = example_actions\<rparr>"

definition example_client :: "client_event list \<times> bool" where
  "example_client = ([Dialled, Sent ''one'', Sent ''two'', ClosedConnection], False)"

definition example_program_labels :: "eakc_label list" where
  "example_program_labels = [ClientStep, ClientStep, ExecStep Receive, ClientStep, ExecStep HandOff, Interrupt]"

lemma example_program:
  obtains s where "eakc_run example_client_config example_client s"
    "(map fst (x_running (ek_exec s)), x_queue (ek_exec s), x_cancelled (ek_exec s), ek_over s) = ([''one''], [''two''], True, False)"
proof -
  have "map_option (\<lambda>s. (map fst (x_running (ek_exec s)), x_queue (ek_exec s), x_cancelled (ek_exec s), ek_over s))
    (run_labels (\<lambda>l s. eakc_step example_actions 1 1 l s \<noteq> None) (eakc_step example_actions 1 1) example_program_labels
      (new_eakc example_client)) = Some ([''one''], [''two''], True, False)" by code_simp
  then obtain s where "reachable (\<lambda>l s. eakc_step example_actions 1 1 l s \<noteq> None) (eakc_step example_actions 1 1) (new_eakc example_client) s"
    "(map fst (x_running (ek_exec s)), x_queue (ek_exec s), x_cancelled (ek_exec s), ek_over s) = ([''one''], [''two''], True, False)"
    by (rule run_view_reachable)
  then show ?thesis by (intro that[of s]) (simp_all add: eakc_run_def example_client_config_def)
qed

theorem client_program_bounds_witness:
  "\<exists>s. eakc_run example_client_config example_client s \<and> map fst (x_running (ek_exec s)) = [''one''] \<and>
     length (x_queue (ek_exec s)) \<le> 1 \<and> prefix (x_sent (ek_exec s)) [''one'', ''two'']"
proof -
  obtain s where s: "eakc_run example_client_config example_client s"
    "(map fst (x_running (ek_exec s)), x_queue (ek_exec s), x_cancelled (ek_exec s), ek_over s) = ([''one''], [''two''], True, False)"
    by (rule example_program)
  from client_program_bounds[OF s(1)] s show ?thesis
    by (intro exI[of _ s]) (simp add: example_client_config_def example_client_def sent_of_def)
qed

definition example_program_file :: client_file where
  "example_program_file = \<lparr>cl_socket_path = [], cl_max_parallel = 1, cl_queue_size = 1, cl_actions =
     [(''one'', \<lparr>fa_type = ''exec'', fa_command = [''/bin/true''], fa_script = [], fa_directory = []\<rparr>),
      (''two'', \<lparr>fa_type = ''shell'', fa_command = [], fa_script = ''echo two'', fa_directory = ''/tmp''\<rparr>)]\<rparr>"

theorem client_program_returns_witness:
  "\<exists>s. eakc_run example_client_config example_client s \<and> \<not> ek_over s \<and>
     (\<exists>ls s'. list_all program_step ls \<and> eakc_steps example_client_config ls s = Some s' \<and> ek_over s')"
proof -
  have "compile_client [''one'', ''two''] example_program_file = Inr example_client_config" by code_simp
  moreover obtain s where s: "eakc_run example_client_config example_client s"
    "(map fst (x_running (ek_exec s)), x_queue (ek_exec s), x_cancelled (ek_exec s), ek_over s) = ([''one''], [''two''], True, False)"
    by (rule example_program)
  ultimately show ?thesis using client_program_returns[OF _ s(1)] s by (intro exI[of _ s]) auto
qed

end
