(* ===== verification/Config_Properties.thy ===== *)
theory Config_Properties
  imports Daemon_Config
begin

text \<open>
  The properties of the configuration compiler, with a document that instantiates them: two action
  prefixes and two remaps, as in \<open>configs/eakd.example.json\<close>.
\<close>

definition example_document :: config_file where
  "example_document = \<lparr>cf_candidate_timeout = ''750ms'', cf_sequence_timeout = [],
     cf_socket_path = ''/run/eak/eakd.sock'', cf_allowed_uids = [1000], cf_allowed_devices = [''046D:c31c''],
     cf_prefixes = [
       \<lparr>fp_keys = [''LOGO'', ''A''], fp_bindings = [
          \<lparr>fb_keys = [''T''], fb_action = ''activate-terminal''\<rparr>,
          \<lparr>fb_keys = [''SHIFT'', ''T''], fb_action = ''activate-terminal-special''\<rparr>]\<rparr>,
       \<lparr>fp_keys = [''LOGO'', ''T''], fp_bindings = [\<lparr>fb_keys = [''1''], fb_action = ''tile-1''\<rparr>]\<rparr>],
     cf_remaps = [
       \<lparr>frm_keys = [''LOGO'', ''HOME''], frm_tap = ''INSERT'', frm_hold = []\<rparr>,
       \<lparr>frm_keys = [''LOGO'', ''END''], frm_tap = [], frm_hold = ''DELETE''\<rparr>],
     cf_reserved_modifiers = [''logo'']\<rparr>"

text \<open>A duration parser for the instances: milliseconds only.\<close>

definition example_durations :: "string \<Rightarrow> string + int" where
  "example_durations s = (if s = ''750ms'' then Inr 750000000 else Inl s)"

definition example_compiled :: config where
  "example_compiled = \<lparr>cfg_candidate_timeout = 750000000, cfg_sequence_timeout = 750000000,
     cfg_socket_path = ''/run/eak/eakd.sock'', cfg_allowed_uids = [1000], cfg_allowed_devices = [''046d:c31c''],
     cfg_prefixes = [
       \<lparr>src_keys = [LogicalLogo, 30], src_bindings = [
          \<lparr>b_keys = [20], b_action = ''activate-terminal''\<rparr>,
          \<lparr>b_keys = [LogicalShift, 20], b_action = ''activate-terminal-special''\<rparr>],
        src_mode = Action, src_target = 0\<rparr>,
       \<lparr>src_keys = [LogicalLogo, 20], src_bindings = [\<lparr>b_keys = [2], b_action = ''tile-1''\<rparr>],
        src_mode = Action, src_target = 0\<rparr>,
       \<lparr>src_keys = [LogicalLogo, 102], src_bindings = [], src_mode = Tap, src_target = 110\<rparr>,
       \<lparr>src_keys = [LogicalLogo, 107], src_bindings = [], src_mode = Hold, src_target = 111\<rparr>],
     cfg_reserved_modifiers = [LogicalLogo]\<rparr>"

lemma example_chords:
  "parse_chord [''LOGO'', ''A''] = Inr [LogicalLogo, 30]"
  "parse_chord [''LOGO'', ''T''] = Inr [LogicalLogo, 20]"
  "parse_chord [''LOGO'', ''HOME''] = Inr [LogicalLogo, 102]"
  "parse_chord [''LOGO'', ''END''] = Inr [LogicalLogo, 107]"
  "parse_chord [''T''] = Inr [20]" "parse_chord [''SHIFT'', ''T''] = Inr [LogicalShift, 20]"
  "parse_chord [''1''] = Inr [2]" "parse_key ''INSERT'' = Inr 110" "parse_key ''DELETE'' = Inr 111"
  "parse_key ''logo'' = Inr LogicalLogo"
  by code_simp+

lemma example_ids:
  "validate_id ''activate-terminal'' = Inr ()" "validate_id ''activate-terminal-special'' = Inr ()"
  "validate_id ''tile-1'' = Inr ()"
  by code_simp+

lemma example_modifiers:
  "is_logical_modifier LogicalLogo" "is_logical_modifier LogicalShift" "\<not> is_logical_modifier 30"
  "\<not> is_logical_modifier 20" "\<not> is_logical_modifier 102" "\<not> is_logical_modifier 107"
  "\<not> is_logical_modifier 110" "\<not> is_logical_modifier 111"
  by (simp_all add: is_logical_modifier_def)

lemma example_devices: "compile_devices 0 [''046D:c31c''] = Inr [''046d:c31c'']"
  by code_simp

lemma example_sources:
  "ambiguous_pair (cfg_prefixes example_compiled) = None"
  "compile_reserved (cfg_prefixes example_compiled) [] [''logo''] = Inr [LogicalLogo]"
  by code_simp+

lemma example_compiles: "compile_config example_durations example_document = Inr example_compiled"
proof -
  let ?a = "\<lparr>src_keys = [LogicalLogo, 30], src_bindings = [
          \<lparr>b_keys = [20], b_action = ''activate-terminal''\<rparr>,
          \<lparr>b_keys = [LogicalShift, 20], b_action = ''activate-terminal-special''\<rparr>],
        src_mode = Action, src_target = 0\<rparr>"
  let ?t = "\<lparr>src_keys = [LogicalLogo, 20], src_bindings = [\<lparr>b_keys = [2], b_action = ''tile-1''\<rparr>],
        src_mode = Action, src_target = 0\<rparr>"
  let ?seen = "[chord_signature [LogicalLogo, 20], chord_signature [LogicalLogo, 30]]"
  have p: "compile_prefixes 0 [] (cf_prefixes example_document) = Inr ([?a, ?t], ?seen)"
    by (simp add: example_document_def example_chords example_ids example_modifiers chord_signature_sort)
  have r: "compile_remaps 0 ?seen (cf_remaps example_document) =
      Inr [\<lparr>src_keys = [LogicalLogo, 102], src_bindings = [], src_mode = Tap, src_target = 110\<rparr>,
        \<lparr>src_keys = [LogicalLogo, 107], src_bindings = [], src_mode = Hold, src_target = 111\<rparr>]"
    by (simp add: example_document_def example_chords example_modifiers chord_signature_sort)
  have fields: "cf_candidate_timeout example_document = ''750ms''" "cf_sequence_timeout example_document = []"
    "cf_socket_path example_document = ''/run/eak/eakd.sock''" "cf_allowed_uids example_document = [1000]"
    "cf_allowed_devices example_document = [''046D:c31c'']" "cf_prefixes example_document \<noteq> []"
    "cf_reserved_modifiers example_document = [''logo'']"
    by (simp_all add: example_document_def)
  note src = example_sources[unfolded example_compiled_def config.select_convs]
  show ?thesis
    unfolding compile_config_def fields p r example_devices Let_def
    by (simp add: fields example_compiled_def example_durations_def parse_duration_def is_abs_def
        has_prefix_def src r del: compile_reserved.simps)
qed

section \<open>What an accepted document guarantees\<close>

text \<open>
  C31. \<open>compile\<close> accepts sound configurations only.  Whatever the duration parser returns, an accepted
  document has positive timeouts, an allowed user, an absolute socket path and at least one source
  chord; every chord has pairwise different keys that exist, and a modifier; the bindings of a prefix
  are different chords with valid actions; a remap produces a key that is not a modifier; no source
  chord is contained in another; the reserved modifiers are different modifiers of source chords.
\<close>

theorem compile_sound:
  assumes "compile_config pd raw = Inr cfg"
  shows "config_ok cfg"
  using assms by (rule compile_config_ok)

theorem compile_sound_witness: "config_ok example_compiled"
  using compile_sound[OF example_compiles] .

text \<open>The sources of a compiled configuration, against the document.\<close>

lemma compile_bindings_keys:
  "compile_bindings pi bi seen raws = Inr bs \<Longrightarrow>
     map (\<lambda>b. (Inr (b_keys b), b_action b)) bs = map (\<lambda>r. (parse_chord (fb_keys r), fb_action r)) raws"
  by (induction pi bi seen raws arbitrary: bs rule: compile_bindings.induct) (auto split: if_splits)

lemma compile_prefixes_keys:
  "compile_prefixes pi seen raws = Inr (ps, seen') \<Longrightarrow>
     map (\<lambda>p. (Inr (src_keys p), map (\<lambda>b. (Inr (b_keys b), b_action b)) (src_bindings p))) ps =
     map (\<lambda>r. (parse_chord (fp_keys r), map (\<lambda>b. (parse_chord (fb_keys b), fb_action b)) (fp_bindings r))) raws
     \<and> list_all (\<lambda>p. src_mode p = Action) ps"
  by (induction pi seen raws arbitrary: ps seen' rule: compile_prefixes.induct)
    (auto dest!: compile_bindings_keys split: if_splits prod.splits)

definition remap_view :: "raw_remap \<Rightarrow> (config_error + logical list) \<times> output_mode \<times> (key_error + u16)" where
  "remap_view r = (parse_chord (frm_keys r), if frm_hold r \<noteq> [] then Hold else Tap,
     map_sum id ucast (parse_key (if frm_hold r \<noteq> [] then frm_hold r else frm_tap r)))"

lemma compile_remaps_keys:
  "compile_remaps ri seen raws = Inr ps \<Longrightarrow>
     map (\<lambda>p. (Inr (src_keys p), src_mode p, Inr (src_target p))) ps = map remap_view raws"
  by (induction raws arbitrary: ri seen ps)
    (auto simp: Let_def remap_view_def split: if_splits)

text \<open>
  The compiled table is the document, in its order.  The source chords are the prefixes followed
  by the remaps, with the keys the names denote; a prefix keeps its bindings in order with the actions
  as they are written; a remap keeps its mode, and its target is the code of the key that is named.
\<close>

theorem compile_keeps_document:
  assumes "compile_config pd raw = Inr cfg"
  shows "\<exists>prefixes remaps. cfg_prefixes cfg = prefixes @ remaps \<and>
    map (\<lambda>p. (Inr (src_keys p), map (\<lambda>b. (Inr (b_keys b), b_action b)) (src_bindings p))) prefixes =
      map (\<lambda>r. (parse_chord (fp_keys r),
        map (\<lambda>b. (parse_chord (fb_keys b), fb_action b)) (fp_bindings r))) (cf_prefixes raw) \<and>
    list_all (\<lambda>p. src_mode p = Action) prefixes \<and>
    map (\<lambda>p. (Inr (src_keys p), src_mode p, Inr (src_target p))) remaps =
      map (\<lambda>r. (parse_chord (frm_keys r), if frm_hold r \<noteq> [] then Hold else Tap,
        map_sum id ucast (parse_key (if frm_hold r \<noteq> [] then frm_hold r else frm_tap r)))) (cf_remaps raw)"
proof (rule compile_config_parts[OF assms])
  fix prefixes seen remaps
  assume "compile_prefixes 0 [] (cf_prefixes raw) = Inr (prefixes, seen)"
    "compile_remaps 0 seen (cf_remaps raw) = Inr remaps" "cfg_prefixes cfg = prefixes @ remaps"
  then show ?thesis
    using compile_prefixes_keys compile_remaps_keys
    by (intro exI[of _ prefixes] exI[of _ remaps]) (simp add: remap_view_def[abs_def])
qed

theorem compile_keeps_document_witness: "length (cfg_prefixes example_compiled) = 4"
proof -
  from compile_keeps_document[OF example_compiles] obtain prefixes remaps where
    "cfg_prefixes example_compiled = prefixes @ remaps"
    "map (\<lambda>p. (Inr (src_keys p) :: config_error + logical list,
        map (\<lambda>b. (Inr (b_keys b), b_action b)) (src_bindings p))) prefixes =
      map (\<lambda>r. (parse_chord (fp_keys r),
        map (\<lambda>b. (parse_chord (fb_keys b), fb_action b)) (fp_bindings r))) (cf_prefixes example_document)"
    "map (\<lambda>p. (Inr (src_keys p) :: config_error + logical list, src_mode p,
        Inr (src_target p) :: key_error + u16)) remaps = map remap_view (cf_remaps example_document)"
    by (auto simp: remap_view_def[abs_def])
  note this(1) and arg_cong[OF this(2), of length] and arg_cong[OF this(3), of length]
  then show ?thesis by (simp add: example_document_def)
qed

text \<open>
  A signature identifies a chord.  For the chords \<open>parseChord\<close> accepts, two signatures are equal
  exactly when the chords have the same keys, in whatever order they are written, so \<open>prefixSeen\<close> and
  \<open>bindingSeen\<close> find all duplicates and nothing else.
\<close>

theorem signature_identifies_chord:
  assumes "parse_chord names = Inr a" "parse_chord names' = Inr b"
  shows "chord_signature a = chord_signature b \<longleftrightarrow> set a = set b"
  using assms by (intro chord_signature_set) (auto dest!: parse_chord_ok simp: chord_ok_def)

theorem signature_identifies_chord_witness:
  "chord_signature [LogicalLogo, 30] = chord_signature [30, LogicalLogo]"
proof -
  have "parse_chord [''LOGO'', ''A''] = Inr [LogicalLogo, 30]" "parse_chord [''KEY_A'', ''super''] = Inr [30, LogicalLogo]"
    by (rule example_chords, code_simp)
  from signature_identifies_chord[OF this] show ?thesis by auto
qed

text \<open>
  An action identifier is accepted exactly when it is not made of white space only (in the sense of
  Unicode) and has at most 1024 bytes.
\<close>

theorem validate_id_exact:
  "validate_id i = Inr () \<longleftrightarrow> \<not> (\<exists>ws. set ws \<subseteq> set white_spaces \<and> i = concat ws) \<and> length i \<le> 1024"
  by (simp add: validate_id_ok valid_action_id_def)

end
