(* ===== verification/Programs.thy ===== *)
theory Programs
  imports Manager_Lifecycle Daemon_Properties Client_Program Config_Properties
begin

text \<open>
  The two programs around their parts: \<open>main\<close> of eakd and of eakc, and the order in which \<open>run\<close> of
  the daemon makes and gives up the virtual keyboard.  Flags, the architecture, the answers of the
  kernel and the work of \<open>run\<close> are parameters; log lines are not modelled.
\<close>

section \<open>eakd\<close>

record flags =
  fl_config :: string
  fl_check :: bool
  fl_insecure :: bool
  fl_version :: bool

datatype ('j, 'c, 'e) fatal =
    UnsupportedArchitecture string
  | NoDefaultPath 'e
  | BadConfiguration "('j, 'c) load_error"
  | RunFailed 'e

datatype ('j, 'c, 'e) program_end =
    PrintedVersion
  | PrintedValid string
  | Fatal "('j, 'c, 'e) fatal"
  | RunReturned

definition eakd_main ::
    "flags \<Rightarrow> string \<Rightarrow> open_answers \<Rightarrow> 'j + config_file \<Rightarrow> 'j trailing \<Rightarrow> (string \<Rightarrow> string + int) \<Rightarrow> (config \<Rightarrow> 'e option) \<Rightarrow>
     ('j, config_error, 'e) program_end" where
  "eakd_main fl arch A first second durations run =
     (if fl_version fl then PrintedVersion
      else if arch \<noteq> ''amd64'' \<and> arch \<noteq> ''arm64'' then Fatal (UnsupportedArchitecture arch)
      else case fst (load_config A (fl_config fl) (fl_insecure fl) first second durations) of
             Inl e \<Rightarrow> Fatal (BadConfiguration e)
           | Inr cfg \<Rightarrow>
               if fl_check fl then PrintedValid (fl_config fl)
               else (case run cfg of Some e \<Rightarrow> Fatal (RunFailed e) | None \<Rightarrow> RunReturned))"

text \<open>\<open>run\<close>, outside its loop: the virtual keyboard is made, the manager runs, and the deferred functions
  wait for it and close the keyboard.  The result tells whether all that has happened.  What the
  forwarder writes to the keyboard meanwhile changes neither its descriptor nor its name, all that
  \<open>Close\<close> reads.\<close>

datatype program_call = KeyboardCall ui_call | ManagerCall run_call | CancelContext

definition virtualKeyboardName :: string where "virtualKeyboardName = ''eakd virtual keyboard''"

definition eakd_run ::
    "config \<Rightarrow> kernel_answers \<Rightarrow> setup_answers \<Rightarrow> device list \<Rightarrow> epoll_answer list \<Rightarrow>
     nat + nat \<Rightarrow> (ui_request \<Rightarrow> nat option) \<Rightarrow> bool \<Rightarrow> write_result list \<Rightarrow> nat option \<Rightarrow> bool \<times> program_call list" where
  "eakd_run cfg K A paths answers open_result requests appears script close_result =
     (case create_keyboard open_result requests appears (map of_char virtualKeyboardName) script of
        (Inl e, calls) \<Rightarrow> (True, map KeyboardCall calls @ [CancelContext])
      | (Inr v, calls) \<Rightarrow>
          let P = \<lparr>mp_virtual_fd = vk_fd v, mp_virtual_name = virtualKeyboardName, mp_allowed = cfg_allowed_devices cfg\<rparr>;
              (returned, managed) = run_manager K P A paths answers;
              (_, _, closing) = close_keyboard requests close_result v
          in if returned then (True, map KeyboardCall calls @ map ManagerCall managed @ map KeyboardCall closing)
             else (False, map KeyboardCall calls @ map ManagerCall managed))"

section \<open>eakc\<close>

definition eakc_main ::
    "flags \<Rightarrow> 'e + string \<Rightarrow> open_answers \<Rightarrow> u32 \<Rightarrow> 'j + client_file \<Rightarrow> 'j trailing \<Rightarrow> string list \<Rightarrow>
     (client_config \<Rightarrow> 'e option) \<Rightarrow> ('j, client_error, 'e) program_end" where
  "eakc_main fl directory A euid first second ids run =
     (if fl_version fl then PrintedVersion
      else case (if fl_config fl = [] then default_path directory else Inr (fl_config fl)) of
             Inl e \<Rightarrow> Fatal (NoDefaultPath e)
           | Inr path \<Rightarrow>
               (case fst (load_client A path euid (fl_insecure fl) first second ids) of
                  Inl e \<Rightarrow> Fatal (BadConfiguration e)
                | Inr cfg \<Rightarrow>
                    if fl_check fl then PrintedValid path
                    else (case run cfg of Some e \<Rightarrow> Fatal (RunFailed e) | None \<Rightarrow> RunReturned)))"

section \<open>Properties\<close>

lemma create_keyboard_calls:
  assumes "create_keyboard open_result requests appears name script = (Inr v, calls)"
  shows "KeyboardCall (UiIoctl ui_destroy) \<notin> set (map KeyboardCall calls) \<and> vk_fd v \<ge> 0 \<and> UiClose \<notin> set calls"
proof -
  obtain issued where issued: "issue_requests requests (virtual_requests name) = (Inr (), issued)" "calls = UiOpen # issued" "vk_fd v \<ge> 0"
    using assms by (auto simp: create_keyboard_def Let_def split: sum.splits prod.splits if_splits)
  from issue_requests_all[OF this(1)] have all: "issued = map UiIoctl (virtual_requests name)" by simp
  have "ui_destroy \<noteq> ui_create" by code_simp
  then have "ui_destroy \<notin> set (virtual_requests name)"
    by (auto simp: virtual_requests_def ui_destroy_def ui_set_def simp del: upt_Suc)
  then show ?thesis using issued by (auto simp: all)
qed

text \<open>
  C8. The manager sends what the daemon relies on.  Every message a run delivers, of a frame, a
  resynchronization or a removal, is about a device whose name is an absolute path, so the main loop can
  take it in every state: no device has a name the engine uses for the keys it holds itself.
\<close>

theorem manager_messages_enabled:
  assumes "distinct paths" "list_all is_abs paths" "manager_run K P F paths answers = (r, s)" "CSent m \<in> set (ms_trace s)"
  shows "enabled (MessageIn m now) d"
proof -
  have "abs_message m" using trackedD(5)[OF manager_run_tracked(1)[OF assms(1-3)]] assms(4) by (simp add: sent_abs_def)
  then have "Ball (msg_frame_device m \<union> msg_resync_device m \<union> msg_removed_device m) is_abs"
    by (simp only: abs_message_def)
  then show ?thesis
    by (auto simp: enabled_def real_message_def msg_frame_device_def msg_resync_device_def msg_removed_device_def
        split: option.split if_splits)
qed

text \<open>
  C9. The virtual keyboard outlives the grabs.  When \<open>run\<close> has given everything up, a keyboard it
  made was destroyed and closed, once and last; by then every keyboard that was opened is closed and
  every grab released, so the compositor never loses both at once.  (The calls on the keyboards were
  legal when no first announcement was lost to a cancellation.)  A keyboard whose creation fails is not
  left open either, and no device is touched.
\<close>

theorem keyboard_outlives_grabs:
  assumes "fresh_fds K" "distinct paths" "list_all is_abs paths"
    "eakd_run cfg K A paths answers open_result requests appears script close_result = (True, calls)"
  shows "case create_keyboard open_result requests appears (map of_char virtualKeyboardName) script of
      (Inl e, made) \<Rightarrow> calls = map KeyboardCall made @ [CancelContext]
    | (Inr v, made) \<Rightarrow> (\<exists>managed.
        calls = map KeyboardCall made @ map ManagerCall managed @ [KeyboardCall (UiIoctl ui_destroy), KeyboardCall UiClose] \<and>
        UiIoctl ui_destroy \<notin> set made \<and> UiClose \<notin> set made \<and>
        gh_open (ghost_of (last_devices managed)) = {} \<and> gh_grabbed (ghost_of (last_devices managed)) = {} \<and>
        (losses (last_devices managed) = 0 \<longrightarrow> gh_legal (ghost_of (last_devices managed))))"
proof (cases "create_keyboard open_result requests appears (map of_char virtualKeyboardName) script")
  case (Pair r made)
  show ?thesis
  proof (cases r)
    case (Inl e)
    then show ?thesis using assms(4) Pair by (simp add: eakd_run_def)
  next
    case (Inr v)
    note keyboard = create_keyboard_calls[OF Pair[unfolded Inr]]
    let ?P = "\<lparr>mp_virtual_fd = vk_fd v, mp_virtual_name = virtualKeyboardName, mp_allowed = cfg_allowed_devices cfg\<rparr>"
    obtain returned managed where run: "run_manager K ?P A paths answers = (returned, managed)" by fastforce
    have "snd (snd (close_keyboard requests close_result v)) = [UiIoctl ui_destroy, UiClose]"
      using keyboard by (simp add: close_keyboard_def)
    then have calls: "returned \<and> calls = map KeyboardCall made @ map ManagerCall managed @ [KeyboardCall (UiIoctl ui_destroy), KeyboardCall UiClose]"
      using assms(4) Pair Inr run by (auto simp: eakd_run_def case_prod_beta Let_def split: if_splits)
    then have "run_manager K ?P A paths answers = (True, managed)" using run by simp
    from run_devices_clean[OF assms(1-3) this] show ?thesis using Pair Inr calls keyboard by auto
  qed
qed

text \<open>
  C21. The daemon works only on a trusted, sound configuration.  When \<open>main\<close> of eakd reaches \<open>run\<close>, the
  architecture is one whose ioctl numbers are known, \<open>-check\<close> is not set, and the configuration
  given to \<open>run\<close> is well formed; unless \<open>-allow-insecure-config\<close> is set it was read from a regular file
  owned by root that nobody else may write, through the descriptor that was checked.
\<close>

theorem eakd_runs_checked_config:
  assumes "eakd_main fl arch A first second durations run = x" "x = RunReturned \<or> x = Fatal (RunFailed e)"
  shows "arch \<in> {''amd64'', ''arm64''} \<and> \<not> fl_check fl \<and>
    (\<exists>cfg. config_ok cfg \<and> run cfg = (if x = RunReturned then None else Some e) \<and>
      (\<not> fl_insecure fl \<longrightarrow> (\<exists>fd info raw. oa_nofollow A = Inr fd \<and> oa_stat A = Inr info \<and>
         fi_regular info \<and> fi_uid info = 0 \<and> fi_perm info AND 0x12 = 0 \<and>
         first = Inr raw \<and> second = AtEnd \<and> compile_config durations raw = Inr cfg)))"
proof -
  have main: "arch \<in> {''amd64'', ''arm64''}" "\<not> fl_check fl"
    using assms by (auto simp: eakd_main_def split: if_splits sum.splits option.splits)
  obtain cfg calls where load: "load_config A (fl_config fl) (fl_insecure fl) first second durations = (Inr cfg, calls)"
    and run: "run cfg = (if x = RunReturned then None else Some e)"
    using assms by (cases "load_config A (fl_config fl) (fl_insecure fl) first second durations")
      (auto simp: eakd_main_def split: if_splits sum.splits option.splits)
  have "\<exists>raw. compile_config durations raw = Inr cfg"
    using load by (auto simp: load_config_def load_file_def split: sum.splits prod.splits)
  then have ok: "config_ok cfg" using compile_config_ok by blast
  have "\<exists>fd info raw. oa_nofollow A = Inr fd \<and> oa_stat A = Inr info \<and>
      fi_regular info \<and> fi_uid info = 0 \<and> fi_perm info AND 0x12 = 0 \<and>
      first = Inr raw \<and> second = AtEnd \<and> compile_config durations raw = Inr cfg" if "\<not> fl_insecure fl"
    using load_file_trusted[of A "fl_config fl" 0 first second "compile_config durations" cfg calls] load that
    by (auto simp: load_config_def check_info_ok)
  with main ok run show ?thesis by blast
qed

lemma issue_all: "issue_requests (\<lambda>_. None) rs = (Inr (), map UiIoctl rs)"
  by (induction rs) simp_all

lemma example_program_stopped:
  "fst (manager_run (example_kernel True True) \<lparr>mp_virtual_fd = 3, mp_virtual_name = virtualKeyboardName,
     mp_allowed = cfg_allowed_devices example_compiled\<rparr> \<lparr>lf_monitor = 4, lf_wake = 5\<rparr> [example_path] [EpInterrupted]) = Some (Inr ())"
  by (simp add: manager_run_def Let_def example_answers virtualKeyboardName_def example_open_defs loop_pass_def)

lemma announced_sent: "gh_announced (ghost_of tr) \<noteq> {} \<Longrightarrow> \<exists>m. CSent m \<in> set tr"
proof (induction tr rule: rev_induct)
  case Nil
  then show ?case by (simp add: ghost_of_def ghost_start_def)
next
  case (snoc c tr)
  show ?case
  proof (cases "\<exists>m. c = CSent m")
    case False
    then have "gh_announced (ghost_of (tr @ [c])) \<subseteq> gh_announced (ghost_of tr)"
      by (cases c) (auto simp: ghost_step_def use_fd_def)
    then have "gh_announced (ghost_of tr) \<noteq> {}" using snoc.prems by auto
    then show ?thesis using snoc.IH by auto
  qed auto
qed

theorem manager_messages_enabled_witness:
  "\<exists>m. CSent m \<in> set (ms_trace (snd (example_manager True False []))) \<and> enabled (MessageIn m 0) (new_daemon example_vk)"
proof -
  have run: "example_manager True False [] = (None, snd (example_manager True False []))"
    using example_running(1) by (metis prod.collapse)
  obtain m where m: "CSent m \<in> set (ms_trace (snd (example_manager True False [])))"
    using announced_sent[of "ms_trace (snd (example_manager True False []))"] example_running(2) by auto
  from manager_messages_enabled[OF example_distinct run[unfolded example_manager_def]] m
  show ?thesis by (auto simp: example_manager_def)
qed

theorem keyboard_outlives_grabs_witness:
  "\<exists>before. eakd_run example_compiled (example_kernel True True) example_setup [example_path] [EpInterrupted] (Inr 3) (\<lambda>_. None) True [] None =
     (True, before @ [KeyboardCall (UiIoctl ui_destroy), KeyboardCall UiClose])"
proof -
  let ?run = "eakd_run example_compiled (example_kernel True True) example_setup [example_path] [EpInterrupted] (Inr 3) (\<lambda>_. None) True [] None"
  let ?name = "map of_char virtualKeyboardName :: u8 list"
  let ?P = "\<lparr>mp_virtual_fd = 3, mp_virtual_name = virtualKeyboardName, mp_allowed = cfg_allowed_devices example_compiled\<rparr>"
  obtain v made where v: "create_keyboard (Inr 3) (\<lambda>_. None) True ?name [] = (Inr v, made)" "vk_fd v = 3"
    by (simp add: create_keyboard_def issue_all Let_def)
  obtain F made' where F: "new_run ?P example_setup = (Inr F, made')" "rf_monitor F = 4" "rf_wake_read F = 5"
    by (simp add: setup_defs example_setup_def)
  have "fst (run_manager (example_kernel True True) ?P example_setup [example_path] [EpInterrupted])"
    by (simp add: run_manager_returns[OF F(1)] F(2,3) example_program_stopped)
  then have "fst ?run" using v by (simp add: eakd_run_def case_prod_beta Let_def)
  then obtain calls where run: "?run = (True, calls)" by (metis prod.collapse)
  from keyboard_outlives_grabs[OF example_fresh example_distinct run] v(1) show ?thesis
    by (auto simp: run)
qed

theorem eakd_runs_checked_config_witness:
  "eakd_main \<lparr>fl_config = ''eakd.json'', fl_check = False, fl_insecure = False, fl_version = False\<rparr> ''amd64''
     \<lparr>oa_open = Inl 2, oa_nofollow = Inr 4, oa_newfile = True, oa_stat = Inr \<lparr>fi_regular = True, fi_unix = True, fi_uid = 0, fi_perm = 0x1A4\<rparr>\<rparr>
     (Inr example_document :: string + config_file) AtEnd example_durations (\<lambda>_. None :: string option) = RunReturned \<and>
   config_ok example_compiled"
  (is "eakd_main ?fl _ ?A _ _ _ ?run = _ \<and> _")
proof -
  have ended: "eakd_main ?fl ''amd64'' ?A (Inr example_document :: string + config_file) AtEnd example_durations ?run = RunReturned"
    by (simp add: eakd_main_def load_config_def load_file_def open_config_def check_info_def decode_one_def example_compiles)
  from eakd_runs_checked_config[OF ended, of undefined] example_compiles ended show ?thesis by auto
qed

end
